(* ===== verification/Prelude.thy ===== *)
theory Prelude
  imports Main "HOL-Library.Word"
begin

section \<open>Shared vocabulary of the development\<close>

text \<open>
  Every C++ function of the server either returns a value, leaves by an exception, or does
  something from which there is no defined continuation (a read through a dead pointer, an index
  past the end of an array, a loop that never ends, a second lock of a non-recursive mutex).
  The three cases are the constructors of \<^verbatim>\<open>outcome\<close>; a call that may fail is composed with
  \<^verbatim>\<open>obind\<close>.  The type of what is thrown is a parameter: most functions throw an exception of
  the theory \<^verbatim>\<open>Exceptions\<close>, a function whose partial effects stay visible after the throw
  throws a pair of the exception and the state.
\<close>

subsection \<open>Outcomes of C++ calls\<close>

datatype fault =
    Bad_pointer      \<comment> \<open>null or freed pointer dereferenced\<close>
  | Out_of_bounds    \<comment> \<open>array index outside the allocation\<close>
  | Bad_size         \<comment> \<open>array of negative length on the stack\<close>
  | Diverges         \<comment> \<open>the loop does not end\<close>
  | Deadlock         \<comment> \<open>a thread locks a std::mutex it already holds\<close>

datatype ('e, 'a) outcome =
    Ok 'a
  | Throw 'e
  | Fault fault

primrec obind :: "('e, 'a) outcome \<Rightarrow> ('a \<Rightarrow> ('e, 'b) outcome) \<Rightarrow> ('e, 'b) outcome" where
  "obind (Ok x) f = f x"
| "obind (Throw e) f = Throw e"
| "obind (Fault d) f = Fault d"

text \<open>\<open>try { m } catch (...) { h }\<close>: faults are not exceptions and pass through.\<close>

primrec ocatch :: "('e, 'a) outcome \<Rightarrow> ('e \<Rightarrow> ('f, 'a) outcome) \<Rightarrow> ('f, 'a) outcome" where
  "ocatch (Ok x) h = Ok x"
| "ocatch (Throw e) h = h e"
| "ocatch (Fault d) h = Fault d"

definition returns :: "('e, 'a) outcome \<Rightarrow> bool" where
  "returns m \<longleftrightarrow> (case m of Ok _ \<Rightarrow> True | _ \<Rightarrow> False)"

definition faults :: "('e, 'a) outcome \<Rightarrow> bool" where
  "faults m \<longleftrightarrow> (case m of Fault _ \<Rightarrow> True | _ \<Rightarrow> False)"

named_theorems outcome_simps \<open>rewriting of composed calls\<close>

lemma returns_simps [simp]:
  "returns (Ok x)" "\<not> returns (Throw e)" "\<not> returns (Fault d)"
  by (simp_all add: returns_def)

lemma faults_simps [simp]:
  "\<not> faults (Ok x)" "\<not> faults (Throw e)" "faults (Fault d)"
  by (simp_all add: faults_def)

lemma obind_eq_Ok [outcome_simps]:
  "(obind m f = Ok y) = (\<exists>x. m = Ok x \<and> f x = Ok y)"
  by (cases m) auto

lemma obind_eq_Throw [outcome_simps]:
  "(obind m f = Throw e) = (m = Throw e \<or> (\<exists>x. m = Ok x \<and> f x = Throw e))"
  by (cases m) auto

lemma obind_eq_Fault [outcome_simps]:
  "(obind m f = Fault d) = (m = Fault d \<or> (\<exists>x. m = Ok x \<and> f x = Fault d))"
  by (cases m) auto

lemma obind_assoc [outcome_simps]:
  "obind (obind m f) g = obind m (\<lambda>x. obind (f x) g)"
  by (cases m) simp_all

lemma obind_Ok_right [simp]: "obind m Ok = m"
  by (cases m) simp_all

lemma faults_obind: "faults (obind m f) \<longleftrightarrow> faults m \<or> (\<exists>x. m = Ok x \<and> faults (f x))"
  by (cases m) auto

lemma ocatch_not_Throw: "(\<And>e. \<exists>y. h e = Ok y) \<Longrightarrow> ocatch m h \<noteq> Throw e"
  by (cases m) (auto, metis outcome.distinct(1))

subsection \<open>Lists that the components share\<close>


lemma takeWhile_eq_filter_sorted:
  fixes f :: "'b \<Rightarrow> int"
  assumes "sorted_wrt (<) (map f xs)"
  shows "takeWhile (\<lambda>x. f x < k) xs = filter (\<lambda>x. f x < k) xs"
  using assms
proof (induction xs)
  case (Cons x xs)
  show ?case
  proof (cases "f x < k")
    case False
    with Cons.prems have "\<forall>y\<in>set xs. \<not> f y < k" by force
    with False show ?thesis by simp
  qed (use Cons in simp)
qed simp

lemma dropWhile_eq_filter_sorted:
  fixes f :: "'b \<Rightarrow> int"
  assumes "sorted_wrt (<) (map f xs)"
  shows "dropWhile (\<lambda>x. f x < k) xs = filter (\<lambda>x. \<not> f x < k) xs"
  using assms
proof (induction xs)
  case (Cons x xs)
  show ?case
  proof (cases "f x < k")
    case False
    with Cons.prems have "\<forall>y\<in>set xs. \<not> f y < k" by force
    with False show ?thesis by (simp add: filter_id_conv)
  qed (use Cons in simp)
qed simp

lemma split_last_Cons: "\<exists>us p. x # xs = us @ [p] \<and> p = last (x # xs)"
  by (metis append_butlast_last_id list.discI)

end
