(* ===== verification/Exceptions.thy ===== *)
theory Exceptions
  imports Prelude
begin

section \<open>The exception hierarchy (include/exceptions.h)\<close>

text \<open>
  The header declares seventeen classes below \<^verbatim>\<open>SkipListException\<close>, each built from a message and
  an error code.  An exception value is its dynamic class, its message and its code; the base
  classes give the catch relation.  The exceptions of the C++ library that the code throws
  through (\<^verbatim>\<open>std::invalid_argument\<close>, \<^verbatim>\<open>std::out_of_range\<close>, \<^verbatim>\<open>std::bad_array_new_length\<close>) are
  \<^verbatim>\<open>Std_exception\<close> with the text \<^verbatim>\<open>what()\<close> gives.
\<close>

datatype exn_class =
    SkipListException
  | ConfigException | ConfigFileNotFoundException | ConfigParseException
  | NetworkException | ConnectionException | SocketException | BindException
  | StorageException | FileIOException | DataCorruptionException
  | RedisProtocolException | InvalidCommandException | ProtocolParseException
  | ReplicationException | MasterConnectionException | SyncException
  | MemoryException | OutOfMemoryException
  | ThreadException | ThreadCreationException
  | LoggingException | LogFileException

record sl_exception =
  exn_class :: exn_class
  exn_message :: string
  error_code :: string

datatype exn = Std_exception string | Skiplist_exception sl_exception

subsection \<open>Class hierarchy and catch clauses\<close>

fun base_class :: "exn_class \<Rightarrow> exn_class option" where
  "base_class SkipListException = None"
| "base_class ConfigException = Some SkipListException"
| "base_class ConfigFileNotFoundException = Some ConfigException"
| "base_class ConfigParseException = Some ConfigException"
| "base_class NetworkException = Some SkipListException"
| "base_class ConnectionException = Some NetworkException"
| "base_class SocketException = Some NetworkException"
| "base_class BindException = Some NetworkException"
| "base_class StorageException = Some SkipListException"
| "base_class FileIOException = Some StorageException"
| "base_class DataCorruptionException = Some StorageException"
| "base_class RedisProtocolException = Some SkipListException"
| "base_class InvalidCommandException = Some RedisProtocolException"
| "base_class ProtocolParseException = Some RedisProtocolException"
| "base_class ReplicationException = Some SkipListException"
| "base_class MasterConnectionException = Some ReplicationException"
| "base_class SyncException = Some ReplicationException"
| "base_class MemoryException = Some SkipListException"
| "base_class OutOfMemoryException = Some MemoryException"
| "base_class ThreadException = Some SkipListException"
| "base_class ThreadCreationException = Some ThreadException"
| "base_class LoggingException = Some SkipListException"
| "base_class LogFileException = Some LoggingException"

text \<open>
  \<^verbatim>\<open>catch (const C&)\<close> takes an exception whose class is C or derives from it; no class is more
  than two steps below \<^verbatim>\<open>SkipListException\<close>.
\<close>

definition catches :: "exn_class \<Rightarrow> exn_class \<Rightarrow> bool" where
  "catches c d \<longleftrightarrow> d = c \<or> base_class d = Some c \<or>
     (case base_class d of None \<Rightarrow> False | Some b \<Rightarrow> base_class b = Some c)"

lemma catches_refl [simp]: "catches c c"
  by (simp add: catches_def)

lemma catches_SkipListException [simp]: "catches SkipListException d"
  by (cases d) (simp_all add: catches_def)

lemma base_class_depth:
  "base_class c = Some x \<Longrightarrow> base_class x = Some y \<Longrightarrow> base_class y = None"
  by (cases c) auto

lemma catches_trans: "catches a b \<Longrightarrow> catches b c \<Longrightarrow> catches a c"
  by (auto simp: catches_def split: option.splits dest: base_class_depth)

subsection \<open>Constructors\<close>

definition mk_exn :: "exn_class \<Rightarrow> string \<Rightarrow> string \<Rightarrow> sl_exception" where
  "mk_exn c m code = \<lparr>exn_class = c, exn_message = m, error_code = code\<rparr>"

text \<open>The error code a class's constructor passes up (the default argument where it has one).\<close>

fun default_code :: "exn_class \<Rightarrow> string" where
  "default_code SkipListException = ''UNKNOWN''"
| "default_code ConfigException = ''CONFIG_ERROR''"
| "default_code ConfigFileNotFoundException = ''CONFIG_FILE_NOT_FOUND''"
| "default_code ConfigParseException = ''CONFIG_PARSE_ERROR''"
| "default_code NetworkException = ''NETWORK_ERROR''"
| "default_code ConnectionException = ''CONNECTION_ERROR''"
| "default_code SocketException = ''SOCKET_ERROR''"
| "default_code BindException = ''BIND_ERROR''"
| "default_code StorageException = ''STORAGE_ERROR''"
| "default_code FileIOException = ''FILE_IO_ERROR''"
| "default_code DataCorruptionException = ''DATA_CORRUPTION''"
| "default_code RedisProtocolException = ''REDIS_PROTOCOL_ERROR''"
| "default_code InvalidCommandException = ''INVALID_COMMAND''"
| "default_code ProtocolParseException = ''PROTOCOL_PARSE_ERROR''"
| "default_code ReplicationException = ''REPLICATION_ERROR''"
| "default_code MasterConnectionException = ''MASTER_CONNECTION_ERROR''"
| "default_code SyncException = ''SYNC_ERROR''"
| "default_code MemoryException = ''MEMORY_ERROR''"
| "default_code OutOfMemoryException = ''OUT_OF_MEMORY''"
| "default_code ThreadException = ''THREAD_ERROR''"
| "default_code ThreadCreationException = ''THREAD_CREATION_ERROR''"
| "default_code LoggingException = ''LOGGING_ERROR''"
| "default_code LogFileException = ''LOG_FILE_ERROR''"

text \<open>What a one-argument constructor puts before its argument in the message.\<close>

fun message_prefix :: "exn_class \<Rightarrow> string" where
  "message_prefix ConfigFileNotFoundException = ''Configuration file not found: ''"
| "message_prefix ConfigParseException = ''Configuration parse error: ''"
| "message_prefix ConnectionException = ''Connection error: ''"
| "message_prefix SocketException = ''Socket error: ''"
| "message_prefix DataCorruptionException = ''Data corruption detected: ''"
| "message_prefix InvalidCommandException = ''Invalid Redis command: ''"
| "message_prefix ProtocolParseException = ''Protocol parse error: ''"
| "message_prefix MasterConnectionException = ''Failed to connect to master: ''"
| "message_prefix SyncException = ''Sync error: ''"
| "message_prefix OutOfMemoryException = ''Out of memory during ''"
| "message_prefix ThreadCreationException = ''Failed to create thread: ''"
| "message_prefix LogFileException = ''Log file error: ''"
| "message_prefix _ = ''''"

definition new_exn :: "exn_class \<Rightarrow> string \<Rightarrow> sl_exception" where
  "new_exn c arg = mk_exn c (message_prefix c @ arg) (default_code c)"

definition new_FileIOException :: "string \<Rightarrow> string \<Rightarrow> sl_exception" where
  "new_FileIOException filename operation =
     mk_exn FileIOException (''File I/O error during '' @ operation @ '' on '' @ filename)
       (default_code FileIOException)"

subsection \<open>Formatting (ExceptionUtils)\<close>

text \<open>\<^verbatim>\<open>what()\<close> of a SkipListException is its message.\<close>

fun what :: "exn \<Rightarrow> string" where
  "what (Std_exception m) = m"
| "what (Skiplist_exception e) = exn_message e"

definition formatExceptionInfo :: "exn \<Rightarrow> string \<Rightarrow> string" where
  "formatExceptionInfo e ctx =
     (let info = ''Exception: '' @ what e
      in if ctx \<noteq> [] then ''Context: '' @ ctx @ '' - '' @ info else info)"

definition formatExceptionWithCode :: "sl_exception \<Rightarrow> string \<Rightarrow> string" where
  "formatExceptionWithCode e ctx =
     (let info = ''Error Code: '' @ error_code e @ '' - '' @ exn_message e
      in if ctx \<noteq> [] then ''Context: '' @ ctx @ '' - '' @ info else info)"

lemma default_code_inj: "default_code c = default_code d \<Longrightarrow> c = d"
  by (cases c; cases d) simp_all

end
