(* ===== verification/SkipList.thy ===== *)
theory SkipList
  imports Exceptions
begin

section \<open>Nodes and the skip list (node/, skiplist/)\<close>

text \<open>
  The instance the server uses is \<^verbatim>\<open>SkipList<int, std::string>\<close>.  Pointers are addresses of an
  explicit heap: reading a freed or null pointer and indexing past a \<^verbatim>\<open>forward\<close> array are faults
  of the model, so that memory safety is a theorem.  \<^verbatim>\<open>operator new\<close> hands out addresses in
  increasing order and never one it handed out before; a freed address is unmapped.
  \<^verbatim>\<open>rand()\<close> is a parameter of the model, the sequence of the numbers it returns, and
  the state keeps how many of them were consumed.  \<^verbatim>\<open>mtx\<close> is locked by
  \<^verbatim>\<open>insert_element\<close> and \<^verbatim>\<open>delete_element\<close> for their whole bodies, so each is one atomic step.
\<close>

subsection \<open>Node\<close>

type_synonym addr = nat

record node =
  node_key :: int
  node_value :: string
  node_level :: int
  forward :: "addr option list"    \<comment> \<open>None is the null pointer\<close>

type_synonym heap = "addr \<rightharpoonup> node"

text \<open>
  \<^verbatim>\<open>Node(k, v, level)\<close>: \<^verbatim>\<open>new Node*[level + 1]\<close> of a negative size throws, and memset fills the
  array with null pointers.
\<close>

definition Node_init :: "int \<Rightarrow> string \<Rightarrow> int \<Rightarrow> (exn, node) outcome" where
  "Node_init k v level =
     (if level + 1 < 0 then Throw (Std_exception ''std::bad_array_new_length'')
      else Ok \<lparr>node_key = k, node_value = v, node_level = level,
               forward = replicate (nat (level + 1)) None\<rparr>)"

definition get_key :: "node \<Rightarrow> int" where
  "get_key n = node_key n"

definition get_value :: "node \<Rightarrow> string" where
  "get_value n = node_value n"

definition set_value :: "string \<Rightarrow> node \<Rightarrow> node" where
  "set_value v n = n\<lparr>node_value := v\<rparr>"

lemma get_key_set_value [simp]: "get_key (set_value v n) = get_key n"
  by (simp add: get_key_def set_value_def)

lemma get_value_set_value [simp]: "get_value (set_value v n) = v"
  by (simp add: get_value_def set_value_def)

subsection \<open>Pointer accesses\<close>

definition deref :: "heap \<Rightarrow> addr \<Rightarrow> (exn, node) outcome" where
  "deref h a = (case h a of None \<Rightarrow> Fault Bad_pointer | Some n \<Rightarrow> Ok n)"

text \<open>\<^verbatim>\<open>a->forward[i]\<close> read, and \<^verbatim>\<open>a->forward[i] = q\<close>.\<close>

definition get_forward :: "heap \<Rightarrow> addr \<Rightarrow> nat \<Rightarrow> (exn, addr option) outcome" where
  "get_forward h a i =
     obind (deref h a) (\<lambda>n. if i < length (forward n) then Ok (forward n ! i)
                            else Fault Out_of_bounds)"

definition set_forward :: "heap \<Rightarrow> addr \<Rightarrow> nat \<Rightarrow> addr option \<Rightarrow> (exn, heap) outcome" where
  "set_forward h a i q =
     obind (deref h a) (\<lambda>n. if i < length (forward n)
                            then Ok (h(a \<mapsto> n\<lparr>forward := (forward n)[i := q]\<rparr>))
                            else Fault Out_of_bounds)"

subsection \<open>The list object\<close>

record skiplist =
  head :: addr
  max_level :: int
  current_level :: int
  node_count :: int
  reader_open :: bool      \<comment> \<open>is file_reader_ associated with a file\<close>
  mem :: heap
  next_addr :: addr        \<comment> \<open>the address the next new returns\<close>
  rand_pos :: nat          \<comment> \<open>how many values rand() has returned\<close>

definition SkipList_init :: "int \<Rightarrow> nat \<Rightarrow> (exn, skiplist) outcome" where
  "SkipList_init lvl rp =
     obind (Node_init 0 '''' lvl) (\<lambda>n.
       Ok \<lparr>head = 0, max_level = lvl, current_level = 0, node_count = 0, reader_open = False,
           mem = [0 \<mapsto> n], next_addr = 1, rand_pos = rp\<rparr>)"

text \<open>
  A walk along one level changes nothing but its cursor.  A walk with more steps than there are
  addresses visits an address twice and so never ends: with \<open>Suc (next_addr s)\<close> steps, running
  out of fuel is divergence.
\<close>

definition walk_fuel :: "skiplist \<Rightarrow> nat" where
  "walk_fuel s = Suc (next_addr s)"

text \<open>
  \<^verbatim>\<open>while (current->forward[i] && current->forward[i]->get_key() < key) current = current->forward[i];\<close>
\<close>

fun walk :: "nat \<Rightarrow> heap \<Rightarrow> nat \<Rightarrow> int \<Rightarrow> addr \<Rightarrow> (exn, addr) outcome" where
  "walk 0 h i key current = Fault Diverges"
| "walk (Suc fuel) h i key current =
     obind (get_forward h current i) (\<lambda>nxt.
       case nxt of
         None \<Rightarrow> Ok current
       | Some a \<Rightarrow> obind (deref h a) (\<lambda>n.
           if get_key n < key then walk fuel h i key a else Ok current))"

text \<open>
  \<^verbatim>\<open>for (int i = max_level_; i >= 0; i--) { walk; update[i] = current; }\<close>.  The loop is
  entered with n levels left; the cells of update are collected so that cell i of the final
  list is \<^verbatim>\<open>update[i]\<close>.
\<close>

fun descend :: "nat \<Rightarrow> heap \<Rightarrow> int \<Rightarrow> nat \<Rightarrow> addr \<Rightarrow> addr list \<Rightarrow> (exn, addr \<times> addr list) outcome" where
  "descend fuel h key 0 current update = Ok (current, update)"
| "descend fuel h key (Suc i) current update =
     obind (walk fuel h i key current) (\<lambda>c. descend fuel h key i c (c # update))"

text \<open>The loop of \<^verbatim>\<open>search_element\<close>, which keeps no update array.\<close>

fun search_levels :: "nat \<Rightarrow> heap \<Rightarrow> int \<Rightarrow> nat \<Rightarrow> addr \<Rightarrow> (exn, addr) outcome" where
  "search_levels fuel h key 0 current = Ok current"
| "search_levels fuel h key (Suc i) current =
     obind (walk fuel h i key current) (\<lambda>c. search_levels fuel h key i c)"

definition search_element :: "int \<Rightarrow> skiplist \<Rightarrow> (exn, bool) outcome" where
  "search_element key s =
     obind (search_levels (walk_fuel s) (mem s) key (nat (max_level s + 1)) (head s)) (\<lambda>current.
     obind (get_forward (mem s) current 0) (\<lambda>nxt.
       case nxt of
         None \<Rightarrow> Ok False
       | Some a \<Rightarrow> obind (deref (mem s) a) (\<lambda>n. Ok (get_key n = key))))"

subsection \<open>Levels of new nodes\<close>

text \<open>\<^verbatim>\<open>int k = 1; while (rand() % 2) k++;\<close> does not return if rand() never gives an even number.\<close>

partial_function (option) coin_flips :: "(nat \<Rightarrow> nat) \<Rightarrow> nat \<Rightarrow> int \<Rightarrow> (int \<times> nat) option" where
  "coin_flips rnd p k =
     (if rnd p mod 2 \<noteq> 0 then coin_flips rnd (Suc p) (k + 1) else Some (k, Suc p))"

definition get_random_level :: "(nat \<Rightarrow> nat) \<Rightarrow> skiplist \<Rightarrow> (exn, int \<times> skiplist) outcome" where
  "get_random_level rnd s =
     (case coin_flips rnd (rand_pos s) 1 of
        None \<Rightarrow> Fault Diverges
      | Some (k, p) \<Rightarrow> Ok (if k < max_level s then k else max_level s, s\<lparr>rand_pos := p\<rparr>))"

subsection \<open>insert_element\<close>

definition create_node :: "int \<Rightarrow> string \<Rightarrow> int \<Rightarrow> skiplist \<Rightarrow> (exn, addr \<times> skiplist) outcome" where
  "create_node k v level s =
     obind (Node_init k v level) (\<lambda>n.
       Ok (next_addr s, s\<lparr>mem := (mem s)(next_addr s \<mapsto> n), next_addr := Suc (next_addr s)\<rparr>))"

text \<open>
  \<^verbatim>\<open>inserted_node->forward[i] = update[i]->forward[i]; update[i]->forward[i] = inserted_node;\<close>
  for n levels from i upwards.
\<close>

fun link_levels :: "heap \<Rightarrow> addr \<Rightarrow> addr list \<Rightarrow> nat \<Rightarrow> nat \<Rightarrow> (exn, heap) outcome" where
  "link_levels h a update i 0 = Ok h"
| "link_levels h a update i (Suc n) =
     (if i < length update then
        obind (get_forward h (update ! i) i) (\<lambda>q.
        obind (set_forward h a i q) (\<lambda>h1.
        obind (set_forward h1 (update ! i) i (Some a)) (\<lambda>h2.
          link_levels h2 a update (Suc i) n)))
      else Fault Out_of_bounds)"

text \<open>
  The part after the search.  The branch \<open>random_level > max_level\<close> stores to
  \<^verbatim>\<open>update[max_level_ + 1]\<close>, one past the end of the array on the stack.  The level of
  the list becomes the level of the new node, whatever it was.
\<close>

definition insert_new :: "(nat \<Rightarrow> nat) \<Rightarrow> int \<Rightarrow> string \<Rightarrow> addr list \<Rightarrow> skiplist \<Rightarrow> (exn, skiplist) outcome" where
  "insert_new rnd key val update s =
     obind (get_random_level rnd s) (\<lambda>(random_level, s1).
       if random_level > max_level s1 then Fault Out_of_bounds
       else
         obind (create_node key val random_level s1) (\<lambda>(a, s2).
         obind (link_levels (mem s2) a update 0 (nat (random_level + 1))) (\<lambda>h.
           Ok (s2\<lparr>mem := h, max_level := random_level\<rparr>))))"

definition insert_element :: "(nat \<Rightarrow> nat) \<Rightarrow> int \<Rightarrow> string \<Rightarrow> skiplist \<Rightarrow> (exn, int \<times> skiplist) outcome" where
  "insert_element rnd key val s =
     (if max_level s + 1 < 0 then Fault Bad_size
      else
        obind (descend (walk_fuel s) (mem s) key (nat (max_level s + 1)) (head s) []) (\<lambda>(c, update).
        obind (get_forward (mem s) c 0) (\<lambda>nxt.
          case nxt of
            None \<Rightarrow> obind (insert_new rnd key val update s) (\<lambda>s'. Ok (0, s'))
          | Some a \<Rightarrow> obind (deref (mem s) a) (\<lambda>n.
              if get_key n = key then Ok (1, s)
              else obind (insert_new rnd key val update s) (\<lambda>s'. Ok (0, s'))))))"

subsection \<open>delete_element\<close>

text \<open>\<^verbatim>\<open>if (update[i]->forward[i] != current) break; update[i]->forward[i] = current->forward[i];\<close>\<close>

fun unlink_levels :: "heap \<Rightarrow> addr \<Rightarrow> addr list \<Rightarrow> nat \<Rightarrow> nat \<Rightarrow> (exn, heap) outcome" where
  "unlink_levels h a update i 0 = Ok h"
| "unlink_levels h a update i (Suc n) =
     (if i < length update then
        obind (get_forward h (update ! i) i) (\<lambda>q.
          if q \<noteq> Some a then Ok h
          else
            obind (get_forward h a i) (\<lambda>r.
            obind (set_forward h (update ! i) i r) (\<lambda>h1.
              unlink_levels h1 a update (Suc i) n)))
      else Fault Out_of_bounds)"

text \<open>\<^verbatim>\<open>while (max_level_ > 0 && head_->forward[max_level_] == NULL) max_level_--;\<close>\<close>

fun shrink_level :: "heap \<Rightarrow> addr \<Rightarrow> nat \<Rightarrow> (exn, nat) outcome" where
  "shrink_level h hd_addr 0 = Ok 0"
| "shrink_level h hd_addr (Suc m) =
     obind (get_forward h hd_addr (Suc m)) (\<lambda>q.
       if q = None then shrink_level h hd_addr m else Ok (Suc m))"

definition remove_node :: "addr \<Rightarrow> addr list \<Rightarrow> skiplist \<Rightarrow> (exn, skiplist) outcome" where
  "remove_node a update s =
     obind (unlink_levels (mem s) a update 0 (nat (max_level s + 1))) (\<lambda>h.
     obind (if max_level s > 0 then shrink_level h (head s) (nat (max_level s)) else Ok 0) (\<lambda>m.
       Ok (s\<lparr>mem := h(a := None),
             max_level := (if max_level s > 0 then int m else max_level s),
             node_count := node_count s - 1\<rparr>)))"

definition delete_element :: "int \<Rightarrow> skiplist \<Rightarrow> (exn, skiplist) outcome" where
  "delete_element key s =
     (if max_level s + 1 < 0 then Fault Bad_size
      else
        obind (descend (walk_fuel s) (mem s) key (nat (max_level s + 1)) (head s) []) (\<lambda>(c, update).
        obind (get_forward (mem s) c 0) (\<lambda>nxt.
          case nxt of
            None \<Rightarrow> Ok s
          | Some a \<Rightarrow> obind (deref (mem s) a) (\<lambda>n.
              if get_key n = key then remove_node a update s else Ok s))))"

definition size_of :: "skiplist \<Rightarrow> int" where
  "size_of s = node_count s"

subsection \<open>Traversals: display_list, the body of dump_file, the destructor\<close>

text \<open>The nodes met when \<^verbatim>\<open>forward[i]\<close> is followed from p to the null pointer.\<close>

fun traverse :: "nat \<Rightarrow> heap \<Rightarrow> nat \<Rightarrow> addr option \<Rightarrow> (exn, (int \<times> string) list) outcome" where
  "traverse 0 h i p = Fault Diverges"
| "traverse (Suc fuel) h i p =
     (case p of
        None \<Rightarrow> Ok []
      | Some a \<Rightarrow> obind (deref h a) (\<lambda>n.
          obind (get_forward h a i) (\<lambda>q.
          obind (traverse fuel h i q) (\<lambda>rest. Ok ((get_key n, get_value n) # rest)))))"

definition level_items :: "nat \<Rightarrow> skiplist \<Rightarrow> (exn, (int \<times> string) list) outcome" where
  "level_items i s =
     obind (get_forward (mem s) (head s) i) (\<lambda>p. traverse (walk_fuel s) (mem s) i p)"

text \<open>
  \<^verbatim>\<open>clear(node)\<close>: first the rest of level 0, then the node itself (its destructor frees the
  \<^verbatim>\<open>forward\<close> array with it).  Deleting a dead pointer is a fault.
\<close>

fun clear_nodes :: "nat \<Rightarrow> heap \<Rightarrow> addr option \<Rightarrow> (exn, heap) outcome" where
  "clear_nodes 0 h p = Fault Diverges"
| "clear_nodes (Suc fuel) h p =
     (case p of
        None \<Rightarrow> Ok h
      | Some a \<Rightarrow>
          obind (get_forward h a 0) (\<lambda>q.
          obind (clear_nodes fuel h q) (\<lambda>h1.
          obind (deref h1 a) (\<lambda>_. Ok (h1(a := None))))))"

definition SkipList_destroy :: "skiplist \<Rightarrow> (exn, heap) outcome" where
  "SkipList_destroy s = clear_nodes (walk_fuel s) (mem s) (Some (head s))"

end
