(* ===== verification/SkipListInv.thy ===== *)
theory SkipListInv
  imports SkipList
begin

section \<open>Paths through the heap and the invariant of the skip list\<close>

text \<open>
  The state of a skip list is described by the list of the addresses of its nodes.
  \<^verbatim>\<open>path h i p as q\<close> says that following \<^verbatim>\<open>forward[i]\<close> from p meets the nodes as and arrives
  at q.  The invariant says that every level up to max_level holds all the nodes: the level of
  a new node never exceeds the level of the list and then becomes the level of the list, so no
  node is shorter than the list.
\<close>

definition fwd :: "heap \<Rightarrow> nat \<Rightarrow> addr \<Rightarrow> addr option option" where
  "fwd h i a = (case h a of None \<Rightarrow> None
     | Some n \<Rightarrow> if i < length (forward n) then Some (forward n ! i) else None)"

fun path :: "heap \<Rightarrow> nat \<Rightarrow> addr option \<Rightarrow> addr list \<Rightarrow> addr option \<Rightarrow> bool" where
  "path h i p [] q \<longleftrightarrow> p = q"
| "path h i p (a # as) q \<longleftrightarrow> p = Some a \<and> (\<exists>r. fwd h i a = Some r \<and> path h i r as q)"

definition key_at :: "heap \<Rightarrow> addr \<Rightarrow> int" where
  "key_at h a = (case h a of None \<Rightarrow> 0 | Some n \<Rightarrow> node_key n)"

definition item_at :: "heap \<Rightarrow> addr \<Rightarrow> int \<times> string" where
  "item_at h a = (case h a of None \<Rightarrow> (0, '''') | Some n \<Rightarrow> (node_key n, node_value n))"

definition nodes_inv :: "skiplist \<Rightarrow> addr list \<Rightarrow> bool" where
  "nodes_inv s xs \<longleftrightarrow>
     0 \<le> max_level s \<and> distinct (head s # xs) \<and> dom (mem s) = set (head s # xs) \<and>
     (\<forall>a\<in>set (head s # xs). a < next_addr s) \<and>
     (\<forall>i \<le> nat (max_level s). path (mem s) i (Some (head s)) (head s # xs) None) \<and>
     sorted_wrt (<) (map (key_at (mem s)) xs)"

definition wf_skiplist :: "skiplist \<Rightarrow> bool" where
  "wf_skiplist s \<longleftrightarrow> (\<exists>xs. nodes_inv s xs)"

text \<open>What the list holds: the pairs met on level 0, in order.\<close>

definition items :: "skiplist \<Rightarrow> (int \<times> string) list" where
  "items s = (case level_items 0 s of Ok kvs \<Rightarrow> kvs | _ \<Rightarrow> [])"

subsection \<open>Accesses along a path\<close>

lemma fst_item_at [simp]: "fst (item_at h a) = key_at h a"
  by (simp add: item_at_def key_at_def split: option.split)

lemma get_forward_Ok: "get_forward h a i = Ok q \<longleftrightarrow> fwd h i a = Some q"
  by (auto simp: get_forward_def deref_def fwd_def split: option.split)

lemma get_forward_fwd [simp]: "fwd h i a = Some q \<Longrightarrow> get_forward h a i = Ok q"
  by (simp add: get_forward_Ok)

lemma fwd_node: "fwd h i a = Some q \<Longrightarrow> \<exists>n. h a = Some n \<and> i < length (forward n) \<and> forward n ! i = q"
  by (auto simp: fwd_def split: option.splits if_splits)

lemma deref_fwd:
  "fwd h i a = Some q \<Longrightarrow> \<exists>n. deref h a = Ok n \<and> node_key n = key_at h a \<and>
     (node_key n, node_value n) = item_at h a"
  by (auto simp: deref_def fwd_def key_at_def item_at_def split: option.splits)

lemma path_fwd: "path h i p as q \<Longrightarrow> a \<in> set as \<Longrightarrow> \<exists>r. fwd h i a = Some r"
  by (induction as arbitrary: p) auto

lemma path_append:
  "path h i p (as @ bs) q \<longleftrightarrow> (\<exists>r. path h i p as r \<and> path h i r bs q)"
  by (induction as arbitrary: p) auto

lemma path_cong:
  "(\<And>a. a \<in> set as \<Longrightarrow> fwd h' i a = fwd h i a) \<Longrightarrow> path h' i p as q = path h i p as q"
  by (induction as arbitrary: p) auto

lemma path_insert:
  assumes "path h i s (us @ p # qs) t"
    and "distinct (us @ p # qs)" and "a \<notin> set (us @ p # qs)"
    and "\<And>x. x \<noteq> p \<Longrightarrow> x \<noteq> a \<Longrightarrow> fwd h' i x = fwd h i x"
    and "fwd h' i p = Some (Some a)" and "fwd h' i a = fwd h i p"
  shows "path h' i s (us @ p # a # qs) t"
proof -
  from assms(1) obtain r where us: "path h i s us (Some p)"
    and r: "fwd h i p = Some r" and qs: "path h i r qs t"
    by (auto simp: path_append)
  have "path h' i s us (Some p)"
    using us path_cong[of us h' i h s "Some p"] assms(2-4) by fastforce
  moreover have "path h' i r qs t"
    using qs path_cong[of qs h' i h r t] assms(2-4) by fastforce
  ultimately show ?thesis
    using assms(5,6) r by (auto simp: path_append)
qed

lemma path_delete:
  assumes "path h i s (us @ p # a # qs) t"
    and "distinct (us @ p # a # qs)"
    and "\<And>x. x \<noteq> p \<Longrightarrow> x \<noteq> a \<Longrightarrow> fwd h' i x = fwd h i x"
    and "fwd h' i p = fwd h i a"
  shows "path h' i s (us @ p # qs) t"
proof -
  from assms(1) obtain r where us: "path h i s us (Some p)"
    and r: "fwd h i a = Some r" and qs: "path h i r qs t"
    by (auto simp: path_append)
  have "path h' i s us (Some p)"
    using us path_cong[of us h' i h s "Some p"] assms(2,3) by fastforce
  moreover have "path h' i r qs t"
    using qs path_cong[of qs h' i h r t] assms(2,3) by fastforce
  ultimately show ?thesis
    using assms(4) r by (auto simp: path_append)
qed

subsection \<open>The walk and the descent\<close>

lemma walk_path:
  assumes "path h i (Some c) (c # as @ bs) None"
    and "\<forall>a\<in>set as. key_at h a < key"
    and "bs \<noteq> [] \<Longrightarrow> key \<le> key_at h (List.hd bs)"
    and "length as < fuel"
  shows "walk fuel h i key c = Ok (last (c # as))"
  using assms
proof (induction as arbitrary: c fuel)
  case Nil
  then obtain f where f: "fuel = Suc f" by (cases fuel) auto
  from Nil.prems(1) obtain r where r: "fwd h i c = Some r" "path h i r bs None" by auto
  show ?case
  proof (cases bs)
    case Nil
    with r f show ?thesis by simp
  next
    case (Cons b bs')
    with r obtain q where "fwd h i b = Some q" and rb: "r = Some b" by auto
    then obtain n where "deref h b = Ok n" "node_key n = key_at h b"
      using deref_fwd by blast
    with r rb f Cons Nil.prems(3) show ?thesis by (simp add: get_key_def)
  qed
next
  case (Cons a as)
  then obtain f where f: "fuel = Suc f" by (cases fuel) auto
  from Cons.prems(1) obtain q where r: "fwd h i c = Some (Some a)" "fwd h i a = Some q"
    and rest: "path h i (Some a) (a # as @ bs) None" by auto
  from r(2) obtain n where n: "deref h a = Ok n" "node_key n = key_at h a"
    using deref_fwd by blast
  have "walk f h i key a = Ok (last (a # as))"
    using Cons.IH[OF rest] Cons.prems(2,3,4) f by simp
  with r n f Cons.prems(2) show ?case by (simp add: get_key_def)
qed

lemma search_levels_descend:
  "search_levels fuel h key n c = obind (descend fuel h key n c upd) (\<lambda>(c, u). Ok c)"
proof (induction n arbitrary: c upd)
  case (Suc n)
  show ?case
  proof (cases "walk fuel h n key c")
    case (Ok x)
    then show ?thesis using Suc[of x "x # upd"] by simp
  qed simp_all
qed simp

lemma descend_here:
  assumes "\<And>i. i < n \<Longrightarrow> path h i (Some c) (c # bs) None"
    and "bs \<noteq> [] \<Longrightarrow> key \<le> key_at h (List.hd bs)" and "0 < fuel"
  shows "descend fuel h key n c upd = Ok (c, replicate n c @ upd)"
  using assms(1)
proof (induction n arbitrary: upd)
  case (Suc n)
  have "walk fuel h n key c = Ok c"
    using walk_path[of h n c "[]" bs key fuel] Suc.prems[of n] assms(2,3) by simp
  then show ?case using Suc by (simp add: replicate_app_Cons_same)
qed simp

lemma descend_all:
  assumes "\<And>i. i < n \<Longrightarrow> path h i (Some c) (c # as @ bs) None" and "0 < n"
    and "\<forall>a\<in>set as. key_at h a < key"
    and "bs \<noteq> [] \<Longrightarrow> key \<le> key_at h (List.hd bs)" and "length as < fuel"
  shows "descend fuel h key n c [] = Ok (last (c # as), replicate n (last (c # as)))"
proof -
  let ?p = "last (c # as)"
  obtain m where m: "n = Suc m" using assms(2) gr0_conv_Suc by blast
  obtain us where us: "c # as = us @ [?p]" by (metis append_butlast_last_id list.discI)
  have "walk fuel h m key c = Ok ?p"
    using walk_path[OF assms(1)[of m] assms(3,4,5)] m by simp
  moreover have "path h i (Some ?p) (?p # bs) None" if "i < m" for i
  proof -
    have "path h i (Some c) ((c # as) @ bs) None" using assms(1)[of i] that m by simp
    then show ?thesis by (subst (asm) us) (auto simp: path_append)
  qed
  ultimately show ?thesis
    using descend_here[of m h ?p bs key fuel "[?p]"] assms(4,5) m
    by (simp add: replicate_append_same)
qed

subsection \<open>Consequences of the invariant\<close>

lemma nodes_inv_length: "nodes_inv s xs \<Longrightarrow> Suc (length xs) \<le> next_addr s"
proof -
  assume inv: "nodes_inv s xs"
  then have "set (head s # xs) \<subseteq> {..<next_addr s}" by (auto simp: nodes_inv_def)
  then have "card (set (head s # xs)) \<le> next_addr s"
    by (metis card_lessThan card_mono finite_lessThan)
  with inv show ?thesis by (simp add: nodes_inv_def distinct_card)
qed

lemma nodes_inv_path:
  "nodes_inv s xs \<Longrightarrow> i \<le> nat (max_level s) \<Longrightarrow> path (mem s) i (Some (head s)) (head s # xs) None"
  by (simp add: nodes_inv_def)

lemma nodes_inv_path0: "nodes_inv s xs \<Longrightarrow> path (mem s) 0 (Some (head s)) (head s # xs) None"
  by (rule nodes_inv_path) simp_all

text \<open>The predecessor of a key and the split of the nodes it makes.\<close>

definition before_key :: "heap \<Rightarrow> int \<Rightarrow> addr list \<Rightarrow> addr list" where
  "before_key h key xs = takeWhile (\<lambda>a. key_at h a < key) xs"

definition from_key :: "heap \<Rightarrow> int \<Rightarrow> addr list \<Rightarrow> addr list" where
  "from_key h key xs = dropWhile (\<lambda>a. key_at h a < key) xs"

definition pred_of :: "skiplist \<Rightarrow> int \<Rightarrow> addr list \<Rightarrow> addr" where
  "pred_of s key xs = last (head s # before_key (mem s) key xs)"

lemma below_above [simp]: "before_key h key xs @ from_key h key xs = xs"
  by (simp add: before_key_def from_key_def)

lemma below_key: "a \<in> set (before_key h key xs) \<Longrightarrow> key_at h a < key"
  by (auto simp: before_key_def dest: set_takeWhileD)

lemma above_key: "from_key h key xs \<noteq> [] \<Longrightarrow> key \<le> key_at h (List.hd (from_key h key xs))"
  using hd_dropWhile[of "\<lambda>a. key_at h a < key" xs] by (simp add: from_key_def)

lemma set_below: "set (before_key h key xs) \<subseteq> set xs"
  by (metis below_above set_append Un_upper1)

lemma descend_inv:
  assumes "nodes_inv s xs"
  shows "descend (walk_fuel s) (mem s) key (nat (max_level s + 1)) (head s) [] =
    Ok (pred_of s key xs, replicate (nat (max_level s + 1)) (pred_of s key xs))"
  unfolding pred_of_def
proof (rule descend_all[where bs = "from_key (mem s) key xs"])
  fix i assume "i < nat (max_level s + 1)"
  then show "path (mem s) i (Some (head s))
      (head s # before_key (mem s) key xs @ from_key (mem s) key xs) None"
    using nodes_inv_path[OF assms, of i] by simp
next
  show "0 < nat (max_level s + 1)" using assms by (simp add: nodes_inv_def)
next
  show "length (before_key (mem s) key xs) < walk_fuel s"
    using nodes_inv_length[OF assms] length_takeWhile_le[of "\<lambda>a. key_at (mem s) a < key" xs]
    by (simp add: walk_fuel_def before_key_def)
qed (auto intro: below_key above_key)

lemma pred_path:
  assumes "nodes_inv s xs" and "i \<le> nat (max_level s)"
  shows "path (mem s) i (Some (pred_of s key xs)) (pred_of s key xs # from_key (mem s) key xs) None"
proof -
  obtain us where us: "head s # before_key (mem s) key xs = us @ [pred_of s key xs]"
    unfolding pred_of_def by (metis append_butlast_last_id list.discI)
  have "path (mem s) i (Some (head s)) ((head s # before_key (mem s) key xs) @ from_key (mem s) key xs) None"
    using nodes_inv_path[OF assms] by simp
  then show ?thesis by (subst (asm) us) (auto simp: path_append)
qed

lemma pred_split:
  assumes "nodes_inv s xs"
  obtains us where "head s # before_key (mem s) key xs = us @ [pred_of s key xs]"
    and "head s # xs = us @ pred_of s key xs # from_key (mem s) key xs"
proof -
  obtain us where us: "head s # before_key (mem s) key xs = us @ [pred_of s key xs]"
    unfolding pred_of_def by (metis append_butlast_last_id list.discI)
  then have "head s # before_key (mem s) key xs @ from_key (mem s) key xs =
      us @ pred_of s key xs # from_key (mem s) key xs"
    by (metis append.assoc append_Cons append_Nil)
  then show ?thesis using that us by simp
qed

end
