(* ===== verification/SkipListCorrect.thy ===== *)
theory SkipListCorrect
  imports SkipListInv
begin

section \<open>Correctness of the skip list operations\<close>

text \<open>
  Each operation is first shown to work on the addresses (\<^verbatim>\<open>nodes_inv\<close>), then on the pairs the
  list holds (\<^verbatim>\<open>items\<close>).  None of them faults on a well-formed list, so no null, freed or
  out-of-bounds access happens.
\<close>

subsection \<open>Reading\<close>

definition first_of :: "addr list \<Rightarrow> addr option" where
  "first_of as = (case as of [] \<Rightarrow> None | a # _ \<Rightarrow> Some a)"

lemma path_first: "path h i p as None \<Longrightarrow> p = first_of as"
  by (cases as) (simp_all add: first_of_def)

lemma fwd_pred:
  assumes "nodes_inv s xs" "i \<le> nat (max_level s)"
  shows "fwd (mem s) i (pred_of s key xs) = Some (first_of (from_key (mem s) key xs))"
  using pred_path[OF assms, of key] path_first by auto

lemma path_get_deref: "path h i p as q \<Longrightarrow> a \<in> set as \<Longrightarrow>
    \<exists>n. deref h a = Ok n \<and> node_key n = key_at h a \<and> (node_key n, node_value n) = item_at h a"
  using path_fwd deref_fwd by meson

lemma set_above: "set (from_key h key xs) \<subseteq> set xs"
  by (metis below_above set_append Un_upper2)

lemma key_in_iff:
  assumes "sorted_wrt (<) (map (key_at h) xs)"
  shows "key \<in> key_at h ` set xs \<longleftrightarrow> (\<exists>a as. from_key h key xs = a # as \<and> key_at h a = key)"
proof
  assume "key \<in> key_at h ` set xs"
  then obtain x where x: "x \<in> set xs" "key_at h x = key" by auto
  have "x \<notin> set (before_key h key xs)" using below_key[of x h key xs] x(2) by auto
  with x(1) have xa: "x \<in> set (from_key h key xs)"
    by (metis Un_iff below_above set_append)
  then obtain a as where a: "from_key h key xs = a # as" by (cases "from_key h key xs") auto
  have "key \<le> key_at h a" using above_key[of h key xs] a by simp
  moreover have "sorted_wrt (<) (map (key_at h) (a # as))"
    using assms a below_above[of h key xs] by (metis map_append sorted_wrt_append)
  ultimately show "\<exists>a as. from_key h key xs = a # as \<and> key_at h a = key"
    using a x xa by auto
next
  assume "\<exists>a as. from_key h key xs = a # as \<and> key_at h a = key"
  then show "key \<in> key_at h ` set xs" using set_above[of h key xs] by force
qed

lemma deref_above:
  assumes "nodes_inv s xs" "from_key (mem s) key xs = a # as"
  shows "\<exists>n. deref (mem s) a = Ok n \<and> get_key n = key_at (mem s) a"
proof -
  have "a \<in> set (head s # xs)" using assms(2) set_above[of "mem s" key xs] by auto
  then show ?thesis
    using path_get_deref[OF nodes_inv_path0[OF assms(1)]] by (auto simp: get_key_def)
qed

lemma traverse_path:
  "path h i p as None \<Longrightarrow> length as < fuel \<Longrightarrow> traverse fuel h i p = Ok (map (item_at h) as)"
proof (induction as arbitrary: p fuel)
  case Nil
  then show ?case by (cases fuel) auto
next
  case (Cons a as)
  then obtain f where f: "fuel = Suc f" by (cases fuel) auto
  from Cons.prems obtain r where r: "p = Some a" "fwd h i a = Some r" "path h i r as None" by auto
  obtain n where "deref h a = Ok n" "(node_key n, node_value n) = item_at h a"
    using deref_fwd[OF r(2)] by auto
  with Cons.IH[OF r(3), of f] Cons.prems(2) r f show ?case
    by (simp add: get_key_def get_value_def)
qed

lemma level_items_inv:
  assumes "nodes_inv s xs" "i \<le> nat (max_level s)"
  shows "level_items i s = Ok (map (item_at (mem s)) xs)"
proof -
  from nodes_inv_path[OF assms] obtain r
    where r: "fwd (mem s) i (head s) = Some r" "path (mem s) i r xs None" by auto
  have "length xs < walk_fuel s" using nodes_inv_length[OF assms(1)] by (simp add: walk_fuel_def)
  with r show ?thesis by (simp add: level_items_def traverse_path)
qed

lemma items_inv: "nodes_inv s xs \<Longrightarrow> items s = map (item_at (mem s)) xs"
  using level_items_inv[of s xs 0] by (simp add: items_def)

lemma keys_inv: "nodes_inv s xs \<Longrightarrow> fst ` set (items s) = key_at (mem s) ` set xs"
  by (force simp: items_inv image_image)

lemma search_inv:
  assumes "nodes_inv s xs"
  shows "search_element key s = Ok (key \<in> fst ` set (items s))"
proof -
  have sorted: "sorted_wrt (<) (map (key_at (mem s)) xs)" using assms by (simp add: nodes_inv_def)
  have start: "search_levels (walk_fuel s) (mem s) key (nat (max_level s + 1)) (head s) =
      Ok (pred_of s key xs)"
    by (simp add: search_levels_descend[where upd = "[]"] descend_inv[OF assms])
  have nxt: "get_forward (mem s) (pred_of s key xs) 0 = Ok (first_of (from_key (mem s) key xs))"
    using fwd_pred[OF assms] by simp
  show ?thesis
  proof (cases "from_key (mem s) key xs")
    case Nil
    then show ?thesis
      using start nxt key_in_iff[OF sorted, of key] keys_inv[OF assms]
      by (simp add: search_element_def first_of_def)
  next
    case (Cons a as)
    with deref_above[OF assms] obtain n where "deref (mem s) a = Ok n" "get_key n = key_at (mem s) a"
      by blast
    with Cons show ?thesis
      using start nxt key_in_iff[OF sorted, of key] keys_inv[OF assms]
      by (simp add: search_element_def first_of_def)
  qed
qed

subsection \<open>Writing one pointer, linking and unlinking\<close>

definition same_items :: "heap \<Rightarrow> heap \<Rightarrow> bool" where
  "same_items h h' \<longleftrightarrow> dom h' = dom h \<and> (\<forall>x. item_at h' x = item_at h x)"

lemma same_items_refl [simp]: "same_items h h"
  by (simp add: same_items_def)

lemma same_items_trans: "same_items h h1 \<Longrightarrow> same_items h1 h2 \<Longrightarrow> same_items h h2"
  by (simp add: same_items_def)

lemma set_forward_Ok:
  assumes "fwd h i a = Some r"
  shows "\<exists>h'. set_forward h a i q = Ok h' \<and> same_items h h' \<and>
    (\<forall>x j. fwd h' j x = (if x = a \<and> j = i then Some q else fwd h j x))"
proof -
  from fwd_node[OF assms] obtain n where n: "h a = Some n" "i < length (forward n)" by auto
  let ?h = "h(a \<mapsto> n\<lparr>forward := (forward n)[i := q]\<rparr>)"
  have "set_forward h a i q = Ok ?h" using n by (simp add: set_forward_def deref_def)
  moreover have "same_items h ?h" using n by (auto simp: same_items_def item_at_def)
  moreover have "\<forall>x j. fwd ?h j x = (if x = a \<and> j = i then Some q else fwd h j x)"
    using n by (auto simp: fwd_def)
  ultimately show ?thesis by blast
qed

lemma link_levels_Ok:
  assumes "p \<noteq> a" and "i + n \<le> m"
    and "\<And>j. i \<le> j \<Longrightarrow> j < i + n \<Longrightarrow> \<exists>r. fwd h j p = Some r"
    and "\<And>j. i \<le> j \<Longrightarrow> j < i + n \<Longrightarrow> \<exists>r. fwd h j a = Some r"
  shows "\<exists>h'. link_levels h a (replicate m p) i n = Ok h' \<and> same_items h h' \<and>
    (\<forall>x j. fwd h' j x = (if i \<le> j \<and> j < i + n then
        (if x = p then Some (Some a) else if x = a then fwd h j p else fwd h j x) else fwd h j x))"
  using assms
proof (induction n arbitrary: i h)
  case 0
  then show ?case by auto
next
  case (Suc n)
  obtain q where q: "fwd h i p = Some q" using Suc.prems(3)[of i] by auto
  obtain r where r: "fwd h i a = Some r" using Suc.prems(4)[of i] by auto
  obtain h1 where h1: "set_forward h a i q = Ok h1" "same_items h h1"
    "\<And>x j. fwd h1 j x = (if x = a \<and> j = i then Some q else fwd h j x)"
    using set_forward_Ok[OF r] by blast
  have "fwd h1 i p = Some q" using h1(3) Suc.prems(1) q by simp
  then obtain h2 where h2: "set_forward h1 p i (Some a) = Ok h2" "same_items h1 h2"
    "\<And>x j. fwd h2 j x = (if x = p \<and> j = i then Some (Some a) else fwd h1 j x)"
    using set_forward_Ok by blast
  have "\<exists>h'. link_levels h2 a (replicate m p) (Suc i) n = Ok h' \<and> same_items h2 h' \<and>
    (\<forall>x j. fwd h' j x = (if Suc i \<le> j \<and> j < Suc i + n then
        (if x = p then Some (Some a) else if x = a then fwd h2 j p else fwd h2 j x)
        else fwd h2 j x))"
    by (rule Suc.IH) (use Suc.prems h1(3) h2(3) in auto)
  then obtain h3 where h3: "link_levels h2 a (replicate m p) (Suc i) n = Ok h3" "same_items h2 h3"
    "\<And>x j. fwd h3 j x = (if Suc i \<le> j \<and> j < Suc i + n then
        (if x = p then Some (Some a) else if x = a then fwd h2 j p else fwd h2 j x)
        else fwd h2 j x)" by blast
  have "link_levels h a (replicate m p) i (Suc n) = Ok h3"
    using Suc.prems(2) q h1(1) h2(1) h3(1) by simp
  moreover have "same_items h h3" using h1(2) h2(2) h3(2) same_items_trans by blast
  moreover have "fwd h3 j x = (if i \<le> j \<and> j < i + Suc n then
        (if x = p then Some (Some a) else if x = a then fwd h j p else fwd h j x)
        else fwd h j x)" for x j
    using h1(3) h2(3) h3(3) q Suc.prems(1) by (auto simp: not_less_eq_eq)
  ultimately show ?case by blast
qed

lemma unlink_levels_Ok:
  assumes "p \<noteq> a" and "i + n \<le> m"
    and "\<And>j. i \<le> j \<Longrightarrow> j < i + n \<Longrightarrow> fwd h j p = Some (Some a)"
    and "\<And>j. i \<le> j \<Longrightarrow> j < i + n \<Longrightarrow> \<exists>r. fwd h j a = Some r"
  shows "\<exists>h'. unlink_levels h a (replicate m p) i n = Ok h' \<and> same_items h h' \<and>
    (\<forall>x j. fwd h' j x = (if i \<le> j \<and> j < i + n \<and> x = p then fwd h j a else fwd h j x))"
  using assms
proof (induction n arbitrary: i h)
  case 0
  then show ?case by auto
next
  case (Suc n)
  have q: "fwd h i p = Some (Some a)" using Suc.prems(3)[of i] by simp
  obtain r where r: "fwd h i a = Some r" using Suc.prems(4)[of i] by auto
  obtain h1 where h1: "set_forward h p i r = Ok h1" "same_items h h1"
    "\<And>x j. fwd h1 j x = (if x = p \<and> j = i then Some r else fwd h j x)"
    using set_forward_Ok[OF q] by blast
  have "\<exists>h'. unlink_levels h1 a (replicate m p) (Suc i) n = Ok h' \<and> same_items h1 h' \<and>
    (\<forall>x j. fwd h' j x = (if Suc i \<le> j \<and> j < Suc i + n \<and> x = p then fwd h1 j a else fwd h1 j x))"
    by (rule Suc.IH) (use Suc.prems h1(3) in auto)
  then obtain h2 where h2: "unlink_levels h1 a (replicate m p) (Suc i) n = Ok h2" "same_items h1 h2"
    "\<And>x j. fwd h2 j x =
       (if Suc i \<le> j \<and> j < Suc i + n \<and> x = p then fwd h1 j a else fwd h1 j x)" by blast
  have "unlink_levels h a (replicate m p) i (Suc n) = Ok h2"
    using Suc.prems(2) q r h1(1) h2(1) by simp
  moreover have "same_items h h2" using h1(2) h2(2) same_items_trans by blast
  moreover have "fwd h2 j x = (if i \<le> j \<and> j < i + Suc n \<and> x = p then fwd h j a else fwd h j x)"
    for x j
    using h1(3) h2(3) r Suc.prems(1) by (auto simp: not_less_eq_eq)
  ultimately show ?case by blast
qed

lemma shrink_level_Ok:
  "(\<And>j. j \<le> m \<Longrightarrow> \<exists>r. fwd h j a = Some r) \<Longrightarrow> \<exists>m' \<le> m. shrink_level h a m = Ok m'"
proof (induction m)
  case (Suc m)
  obtain r where r: "fwd h (Suc m) a = Some r" using Suc.prems[of "Suc m"] by auto
  have "\<And>j. j \<le> m \<Longrightarrow> \<exists>r. fwd h j a = Some r" using Suc.prems by simp
  with Suc.IH obtain m' where "m' \<le> m" "shrink_level h a m = Ok m'" by blast
  with r show ?case by (cases r) auto
qed simp

end
