(* ===== verification/SkipListOps.thy ===== *)
theory SkipListOps
  imports SkipListCorrect
begin

section \<open>Insertion, deletion, construction and destruction\<close>

subsection \<open>The random level\<close>

text \<open>
  \<^verbatim>\<open>rand_ends\<close>: rand() gives an even number sooner or later.  It is what the loop of
  \<^verbatim>\<open>get_random_level\<close> needs to end, and it is also necessary.
\<close>

definition rand_ends :: "(nat \<Rightarrow> nat) \<Rightarrow> nat \<Rightarrow> bool" where
  "rand_ends rnd p \<longleftrightarrow> (\<exists>j. even (rnd (p + j)))"

lemma coin_flips_ends:
  assumes "even (rnd (p + j))"
  shows "\<exists>k' p'. coin_flips rnd p k = Some (k', p') \<and> k \<le> k' \<and> p < p'"
  using assms
proof (induction j arbitrary: p k)
  case 0
  then show ?case by (subst coin_flips.simps) (auto simp: even_iff_mod_2_eq_zero)
next
  case (Suc j)
  show ?case
  proof (cases "rnd p mod 2 = 0")
    case True
    then show ?thesis by (subst coin_flips.simps) auto
  next
    case False
    from Suc.prems have "even (rnd (Suc p + j))" by simp
    from Suc.IH[OF this, of "k + 1"] obtain k' p' where
      "coin_flips rnd (Suc p) (k + 1) = Some (k', p')" "k + 1 \<le> k'" "Suc p < p'" by blast
    with False show ?thesis by (subst coin_flips.simps) auto
  qed
qed

lemma coin_flips_returns:
  assumes "coin_flips rnd p k = Some (k', p')"
  shows "\<exists>j. even (rnd (p + j))"
proof (rule coin_flips.raw_induct[where P = "\<lambda>rnd p k r. \<exists>j. even (rnd (p + j))", OF _ assms])
  fix f rnd p k r
  assume IH: "\<And>rnd p k r. f rnd p k = Some r \<Longrightarrow> \<exists>j. even (rnd (p + j) :: nat)"
    and eq: "(if rnd p mod 2 \<noteq> 0 then f rnd (Suc p) (k + 1) else Some (k, Suc p)) = Some r"
  show "\<exists>j. even (rnd (p + j))"
  proof (cases "rnd p mod 2 = 0")
    case True
    then show ?thesis by (intro exI[of _ 0]) (simp add: even_iff_mod_2_eq_zero)
  next
    case False
    with eq IH[of rnd "Suc p" "k + 1" r] obtain j where "even (rnd (Suc p + j))" by auto
    then show ?thesis by (intro exI[of _ "Suc j"]) simp
  qed
qed

lemma coin_flips_None_iff: "coin_flips rnd p k = None \<longleftrightarrow> \<not> rand_ends rnd p"
  using coin_flips_ends[of rnd p _ k] coin_flips_returns[of rnd p k] unfolding rand_ends_def
  by (metis not_None_eq old.prod.exhaust option.distinct(1))

lemma get_random_level_Ok:
  assumes "rand_ends rnd (rand_pos s)" "0 \<le> max_level s"
  shows "\<exists>l p. get_random_level rnd s = Ok (l, s\<lparr>rand_pos := p\<rparr>) \<and>
    0 \<le> l \<and> l \<le> max_level s \<and> rand_pos s < p"
proof -
  from assms(1) obtain j where "even (rnd (rand_pos s + j))" by (auto simp: rand_ends_def)
  from coin_flips_ends[of rnd "rand_pos s" j 1, OF this] obtain k p where
    "coin_flips rnd (rand_pos s) 1 = Some (k, p)" "1 \<le> k" "rand_pos s < p" by blast
  with assms(2) show ?thesis by (auto simp: get_random_level_def)
qed

subsection \<open>insert_element\<close>

lemma key_at_cong: "item_at h' x = item_at h x \<Longrightarrow> key_at h' x = key_at h x"
  by (metis fst_item_at)

lemma key_at_eq: "item_at h a = (k, v) \<Longrightarrow> key_at h a = k"
  by (metis fst_item_at fst_conv)

lemma create_node_Ok:
  assumes "0 \<le> l"
  shows "\<exists>s'. create_node key val l s = Ok (next_addr s, s') \<and>
    s' = s\<lparr>mem := mem s', next_addr := Suc (next_addr s)\<rparr> \<and>
    dom (mem s') = insert (next_addr s) (dom (mem s)) \<and>
    item_at (mem s') (next_addr s) = (key, val) \<and>
    (\<forall>x. x \<noteq> next_addr s \<longrightarrow> item_at (mem s') x = item_at (mem s) x) \<and>
    (\<forall>i x. x \<noteq> next_addr s \<longrightarrow> fwd (mem s') i x = fwd (mem s) i x) \<and>
    (\<forall>i. fwd (mem s') i (next_addr s) = (if int i \<le> l then Some None else None))"
  using assms
  by (auto simp: create_node_def Node_init_def item_at_def fwd_def)

lemma sorted_insert_between:
  assumes "sorted_wrt (<) (map f (as @ bs))" "\<forall>x\<in>set as. f x < f a" "\<forall>x\<in>set bs. f a < f x"
  shows "sorted_wrt (<) (map f (as @ a # bs))"
  using assms by (auto simp: sorted_wrt_append)

lemma from_key_greater:
  assumes "sorted_wrt (<) (map (key_at h) xs)" "key \<notin> key_at h ` set xs"
    and "x \<in> set (from_key h key xs)"
  shows "key < key_at h x"
proof -
  obtain a as where a: "from_key h key xs = a # as" using assms(3) by (cases "from_key h key xs") auto
  have "a \<in> set xs" using a set_above[of h key xs] by auto
  with above_key[of h key xs] a assms(2) have "key < key_at h a" by force
  moreover have "sorted_wrt (<) (map (key_at h) (a # as))"
    using assms(1) a below_above[of h key xs] by (metis map_append sorted_wrt_append)
  ultimately show ?thesis using assms(3) a by force
qed

text \<open>A heap in which a new node was linked in behind the predecessor of its key.\<close>

lemma nodes_inv_link:
  assumes inv: "nodes_inv s xs" and fresh: "key \<notin> key_at (mem s) ` set xs"
    and s': "head s' = head s" "0 \<le> max_level s'" "max_level s' \<le> max_level s"
      "next_addr s' = Suc (next_addr s)"
    and dom: "dom (mem s') = insert (next_addr s) (dom (mem s))"
    and ita: "item_at (mem s') (next_addr s) = (key, val)"
    and it: "\<And>x. x \<noteq> next_addr s \<Longrightarrow> item_at (mem s') x = item_at (mem s) x"
    and fw: "\<And>i x. int i \<le> max_level s' \<Longrightarrow> fwd (mem s') i x =
        (if x = pred_of s key xs then Some (Some (next_addr s))
         else if x = next_addr s then fwd (mem s) i (pred_of s key xs) else fwd (mem s) i x)"
  shows "nodes_inv s' (before_key (mem s) key xs @ next_addr s # from_key (mem s) key xs)"
proof -
  let ?p = "pred_of s key xs" and ?a = "next_addr s"
  let ?lo = "before_key (mem s) key xs" and ?hi = "from_key (mem s) key xs"
  obtain us where us: "head s # ?lo = us @ [?p]" "head s # xs = us @ ?p # ?hi"
    using pred_split[OF inv] by blast
  have nodes: "head s # ?lo @ ?a # ?hi = us @ ?p # ?a # ?hi"
    using us(1) by (metis append_Cons append_Nil append.assoc)
  have a_new: "?a \<notin> set (head s # xs)" using inv by (auto simp: nodes_inv_def)
  then have pa: "?p \<noteq> ?a" by (metis us(2) in_set_conv_decomp)
  have dist: "distinct (us @ ?p # ?hi)" using inv us(2) by (metis nodes_inv_def)
  have set: "set (head s # ?lo @ ?a # ?hi) = insert ?a (set (head s # xs))"
    unfolding nodes us(2) by auto
  have "path (mem s') i (Some (head s)) (us @ ?p # ?a # ?hi) None" if i: "i \<le> nat (max_level s')" for i
  proof (rule path_insert[where h = "mem s"])
    show "path (mem s) i (Some (head s)) (us @ ?p # ?hi) None"
      using nodes_inv_path[OF inv, of i] i s'(3) us(2) by simp
    show "?a \<notin> set (us @ ?p # ?hi)" using a_new us(2) by simp
    have "int i \<le> max_level s'" using i s'(2) by simp
    note fw = fw[OF this]
    show "fwd (mem s') i ?p = Some (Some ?a)" using fw by simp
    show "fwd (mem s') i ?a = fwd (mem s) i ?p" using fw pa by simp
    show "\<And>x. x \<noteq> ?p \<Longrightarrow> x \<noteq> ?a \<Longrightarrow> fwd (mem s') i x = fwd (mem s) i x" using fw by simp
  qed (rule dist)
  moreover have "sorted_wrt (<) (map (key_at (mem s')) (?lo @ ?a # ?hi))"
  proof (rule sorted_insert_between)
    have keys: "key_at (mem s') x = key_at (mem s) x" if "x \<in> set xs" for x
    proof -
      have "x \<noteq> ?a" using that a_new by auto
      then show ?thesis by (intro key_at_cong it)
    qed
    have ka: "key_at (mem s') ?a = key" using ita by (rule key_at_eq)
    have eq: "map (key_at (mem s')) xs = map (key_at (mem s)) xs" using keys by simp
    show "sorted_wrt (<) (map (key_at (mem s')) (?lo @ ?hi))"
      using inv by (simp add: eq nodes_inv_def)
    show "\<forall>x\<in>set ?lo. key_at (mem s') x < key_at (mem s') ?a"
      using keys ka below_key set_below by (metis subsetD)
    show "\<forall>x\<in>set ?hi. key_at (mem s') ?a < key_at (mem s') x"
      using keys ka from_key_greater[OF _ fresh] set_above inv by (metis nodes_inv_def subsetD)
  qed
  moreover have "distinct (head s # ?lo @ ?a # ?hi)"
    using dist a_new us(2) unfolding nodes by auto
  moreover have "\<forall>x\<in>set (head s # ?lo @ ?a # ?hi). x < Suc ?a"
    unfolding set using inv by (fastforce simp: nodes_inv_def)
  moreover have "dom (mem s') = set (head s # ?lo @ ?a # ?hi)"
    unfolding set using dom inv by (simp add: nodes_inv_def)
  ultimately show ?thesis
    unfolding nodes_inv_def s'(1,4) nodes[symmetric] using s'(2) by blast
qed

text \<open>
  What an insertion does to the pointers: they stay or point to the new node, which takes over
  pointers that were there.
\<close>

definition links_to_new :: "skiplist \<Rightarrow> skiplist \<Rightarrow> bool" where
  "links_to_new s s' \<longleftrightarrow> head s' = head s \<and>
     (\<forall>i x. x \<noteq> next_addr s \<longrightarrow> fwd (mem s') i x = fwd (mem s) i x \<or>
        fwd (mem s') i x = Some (Some (next_addr s)) \<and> fwd (mem s') i (next_addr s) \<noteq> None) \<and>
     (\<forall>i r. fwd (mem s') i (next_addr s) = Some r \<longrightarrow> (\<exists>q. fwd (mem s) i q = Some r))"

lemma insert_new_inv:
  assumes inv: "nodes_inv s xs" and ends: "rand_ends rnd (rand_pos s)"
    and fresh: "key \<notin> key_at (mem s) ` set xs"
  shows "\<exists>s'. insert_new rnd key val (replicate (nat (max_level s + 1)) (pred_of s key xs)) s = Ok s' \<and>
    nodes_inv s' (before_key (mem s) key xs @ next_addr s # from_key (mem s) key xs) \<and>
    item_at (mem s') (next_addr s) = (key, val) \<and>
    (\<forall>x. x \<noteq> next_addr s \<longrightarrow> item_at (mem s') x = item_at (mem s) x) \<and>
    max_level s' \<le> max_level s \<and> node_count s' = node_count s \<and> rand_pos s < rand_pos s' \<and>
    reader_open s' = reader_open s \<and> links_to_new s s'"
proof -
  let ?p = "pred_of s key xs" and ?m = "nat (max_level s + 1)" and ?a = "next_addr s"
  have lvl0: "0 \<le> max_level s" using inv by (simp add: nodes_inv_def)
  from get_random_level_Ok[OF ends lvl0] obtain l rp where
    l: "get_random_level rnd s = Ok (l, s\<lparr>rand_pos := rp\<rparr>)" "0 \<le> l" "l \<le> max_level s"
       "rand_pos s < rp" by blast
  from create_node_Ok[OF l(2), of key val "s\<lparr>rand_pos := rp\<rparr>"] obtain s2 where
    c: "create_node key val l (s\<lparr>rand_pos := rp\<rparr>) = Ok (?a, s2)"
       "s2 = s\<lparr>rand_pos := rp, mem := mem s2, next_addr := Suc ?a\<rparr>"
       "dom (mem s2) = insert ?a (dom (mem s))" "item_at (mem s2) ?a = (key, val)"
       "\<And>x. x \<noteq> ?a \<Longrightarrow> item_at (mem s2) x = item_at (mem s) x"
       "\<And>i x. x \<noteq> ?a \<Longrightarrow> fwd (mem s2) i x = fwd (mem s) i x"
       "\<And>i. fwd (mem s2) i ?a = (if int i \<le> l then Some None else None)" by auto
  have "?p \<in> set (head s # xs)" by (rule pred_split[OF inv, of key]) simp
  then have pa: "?p \<noteq> ?a" using inv by (auto simp: nodes_inv_def)
  have "\<exists>h'. link_levels (mem s2) ?a (replicate ?m ?p) 0 (nat (l + 1)) = Ok h' \<and>
     same_items (mem s2) h' \<and>
     (\<forall>x j. fwd h' j x = (if 0 \<le> j \<and> j < 0 + nat (l + 1) then
        (if x = ?p then Some (Some ?a) else if x = ?a then fwd (mem s2) j ?p else fwd (mem s2) j x)
        else fwd (mem s2) j x))"
    by (rule link_levels_Ok[OF pa])
       (use l c(6,7) pa fwd_pred[OF inv, of _ key] in \<open>auto simp: nat_le_iff\<close>)
  then obtain h where h: "link_levels (mem s2) ?a (replicate ?m ?p) 0 (nat (l + 1)) = Ok h"
     "same_items (mem s2) h"
     "\<And>x j. j < nat (l + 1) \<Longrightarrow> fwd h j x =
        (if x = ?p then Some (Some ?a) else if x = ?a then fwd (mem s2) j ?p else fwd (mem s2) j x)"
     "\<And>x j. \<not> j < nat (l + 1) \<Longrightarrow> fwd h j x = fwd (mem s2) j x"
    by fastforce
  let ?s = "s\<lparr>rand_pos := rp, mem := h, next_addr := Suc ?a, max_level := l\<rparr>"
  have it: "item_at h ?a = (key, val)" "\<And>x. x \<noteq> ?a \<Longrightarrow> item_at h x = item_at (mem s) x"
    "dom h = insert ?a (dom (mem s))"
    using h(2) c(3,4,5) by (simp_all add: same_items_def)
  have "insert_new rnd key val (replicate ?m ?p) s = Ok (s2\<lparr>mem := h, max_level := l\<rparr>)"
    using l c(1) h(1) by (simp add: insert_new_def)
  moreover have "s2\<lparr>mem := h, max_level := l\<rparr> = ?s" by (subst c(2)) simp
  moreover have "nodes_inv ?s (before_key (mem s) key xs @ ?a # from_key (mem s) key xs)"
    by (rule nodes_inv_link[OF inv fresh, where val = val])
       (use l it h(3) c(6) pa in \<open>simp_all\<close>)
  moreover have "links_to_new s ?s"
    unfolding links_to_new_def
  proof (intro conjI allI impI)
    fix i x assume x: "x \<noteq> next_addr s"
    show "fwd (mem ?s) i x = fwd (mem s) i x \<or>
        fwd (mem ?s) i x = Some (Some (next_addr s)) \<and> fwd (mem ?s) i (next_addr s) \<noteq> None"
    proof (cases "i < nat (l + 1)")
      case True
      then have "fwd (mem s) i ?p \<noteq> None" using fwd_pred[OF inv, of i key] l(2,3) by auto
      then show ?thesis using h(3)[OF True] c(6) x pa by auto
    qed (use h(4) c(6) x in simp)
  next
    fix i r assume r: "fwd (mem ?s) i (next_addr s) = Some r"
    show "\<exists>q. fwd (mem s) i q = Some r"
    proof (cases "i < nat (l + 1)")
      case True
      then show ?thesis using r h(3)[OF True, of ?a] c(6)[of ?p] pa by auto
    next
      case False
      then show ?thesis using r h(4)[OF False, of ?a] c(7)[of i] l(2) by (auto split: if_splits)
    qed
  qed simp
  ultimately show ?thesis using it l by simp
qed

subsection \<open>The functional content of the operations\<close>

text \<open>Insertion into and deletion from a list of pairs sorted by key.\<close>

definition ins_sorted :: "int \<Rightarrow> string \<Rightarrow> (int \<times> string) list \<Rightarrow> (int \<times> string) list" where
  "ins_sorted k v kvs =
     takeWhile (\<lambda>p. fst p < k) kvs @ (k, v) # dropWhile (\<lambda>p. fst p < k) kvs"

definition del_sorted :: "int \<Rightarrow> (int \<times> string) list \<Rightarrow> (int \<times> string) list" where
  "del_sorted k kvs = filter (\<lambda>p. fst p \<noteq> k) kvs"

lemma wf_sorted: "wf_skiplist s \<Longrightarrow> sorted_wrt (<) (map fst (items s))"
proof -
  assume "wf_skiplist s"
  then obtain xs where inv: "nodes_inv s xs" by (auto simp: wf_skiplist_def)
  have "map fst (items s) = map (key_at (mem s)) xs" by (simp add: items_inv[OF inv])
  then show ?thesis using inv by (simp add: nodes_inv_def)
qed

lemma map_takeWhile_items:
  "map (item_at h) (before_key h k xs) = takeWhile (\<lambda>p. fst p < k) (map (item_at h) xs)"
  by (simp add: before_key_def takeWhile_map comp_def)

lemma map_dropWhile_items:
  "map (item_at h) (from_key h k xs) = dropWhile (\<lambda>p. fst p < k) (map (item_at h) xs)"
  by (simp add: from_key_def dropWhile_map comp_def)

lemma map_item_at_cong:
  "(\<And>x. x \<in> set xs \<Longrightarrow> item_at h' x = item_at h x) \<Longrightarrow> map (item_at h') xs = map (item_at h) xs"
  by simp

lemma insert_step:
  assumes "nodes_inv s xs" "key \<notin> fst ` set (items s)"
    and "insert_new rnd key val (replicate (nat (max_level s + 1)) (pred_of s key xs)) s = Ok s'"
  shows "insert_element rnd key val s = Ok (0, s')"
proof -
  have sorted: "sorted_wrt (<) (map (key_at (mem s)) xs)" and "0 \<le> max_level s"
    using assms(1) by (simp_all add: nodes_inv_def)
  have nxt: "get_forward (mem s) (pred_of s key xs) 0 = Ok (first_of (from_key (mem s) key xs))"
    using fwd_pred[OF assms(1)] by simp
  show ?thesis
  proof (cases "from_key (mem s) key xs")
    case Nil
    then show ?thesis
      using nxt assms(3) \<open>0 \<le> max_level s\<close>
      by (simp add: insert_element_def descend_inv[OF assms(1)] first_of_def)
  next
    case (Cons a as)
    with deref_above[OF assms(1)] obtain n where
      "deref (mem s) a = Ok n" "get_key n = key_at (mem s) a" by blast
    moreover have "key_at (mem s) a \<noteq> key"
      using assms(2) keys_inv[OF assms(1)] key_in_iff[OF sorted, of key] Cons by auto
    ultimately show ?thesis
      using nxt assms(3) \<open>0 \<le> max_level s\<close> Cons
      by (simp add: insert_element_def descend_inv[OF assms(1)] first_of_def)
  qed
qed

lemma insert_absent:
  assumes "wf_skiplist s" "rand_ends rnd (rand_pos s)" "key \<notin> fst ` set (items s)"
  shows "\<exists>s'. insert_element rnd key val s = Ok (0, s') \<and> wf_skiplist s' \<and>
    items s' = ins_sorted key val (items s) \<and> max_level s' \<le> max_level s \<and>
    node_count s' = node_count s \<and> rand_pos s < rand_pos s' \<and> reader_open s' = reader_open s"
proof -
  obtain xs where inv: "nodes_inv s xs" using assms(1) by (auto simp: wf_skiplist_def)
  let ?lo = "before_key (mem s) key xs" and ?hi = "from_key (mem s) key xs"
  have "key \<notin> key_at (mem s) ` set xs" using assms(3) keys_inv[OF inv] by simp
  from insert_new_inv[OF inv assms(2) this] obtain s' where s':
    "insert_new rnd key val (replicate (nat (max_level s + 1)) (pred_of s key xs)) s = Ok s'"
    "nodes_inv s' (?lo @ next_addr s # ?hi)" "item_at (mem s') (next_addr s) = (key, val)"
    "\<And>x. x \<noteq> next_addr s \<Longrightarrow> item_at (mem s') x = item_at (mem s) x"
    "max_level s' \<le> max_level s" "node_count s' = node_count s" "rand_pos s < rand_pos s'"
    "reader_open s' = reader_open s" by blast
  have "next_addr s \<notin> set xs" using inv by (auto simp: nodes_inv_def)
  then have "next_addr s \<notin> set ?lo" "next_addr s \<notin> set ?hi"
    using set_below[of "mem s" key xs] set_above[of "mem s" key xs] by auto
  then have "map (item_at (mem s')) ?lo = map (item_at (mem s)) ?lo"
    "map (item_at (mem s')) ?hi = map (item_at (mem s)) ?hi"
    using s'(4) by (intro map_item_at_cong; metis)+
  then have "items s' = ins_sorted key val (items s)"
    by (simp only: items_inv[OF s'(2)] items_inv[OF inv] map_append list.map s'(3)
        map_takeWhile_items map_dropWhile_items ins_sorted_def)
  with insert_step[OF inv assms(3) s'(1)] s' show ?thesis
    unfolding wf_skiplist_def by blast
qed

lemma insert_present:
  assumes "wf_skiplist s" "key \<in> fst ` set (items s)"
  shows "insert_element rnd key val s = Ok (1, s)"
proof -
  obtain xs where inv: "nodes_inv s xs" using assms(1) by (auto simp: wf_skiplist_def)
  have "0 \<le> max_level s" "sorted_wrt (<) (map (key_at (mem s)) xs)"
    using inv by (simp_all add: nodes_inv_def)
  with assms(2) keys_inv[OF inv] key_in_iff obtain a as where
    a: "from_key (mem s) key xs = a # as" "key_at (mem s) a = key" by metis
  with deref_above[OF inv] obtain n where "deref (mem s) a = Ok n" "get_key n = key" by metis
  with a fwd_pred[OF inv, of 0 key] \<open>0 \<le> max_level s\<close> show ?thesis
    by (simp add: insert_element_def descend_inv[OF inv] first_of_def)
qed

end
