(* ===== verification/SkipListDel.thy ===== *)
theory SkipListDel
  imports SkipListOps
begin

section \<open>Deletion, construction, destruction\<close>

subsection \<open>delete_element\<close>

lemma fwd_free [simp]: "x \<noteq> a \<Longrightarrow> fwd (h(a := None)) i x = fwd h i x"
  by (simp add: fwd_def)

lemma item_at_free [simp]: "x \<noteq> a \<Longrightarrow> item_at (h(a := None)) x = item_at h x"
  by (simp add: item_at_def)

text \<open>A heap in which the node after the predecessor of a key was unlinked and freed.\<close>

lemma nodes_inv_unlink:
  assumes inv: "nodes_inv s xs" and hi: "from_key (mem s) key xs = a # as"
    and s': "head s' = head s" "0 \<le> max_level s'" "max_level s' \<le> max_level s"
      "next_addr s' = next_addr s"
    and dom: "dom (mem s') = dom (mem s) - {a}"
    and it: "\<And>x. x \<noteq> a \<Longrightarrow> item_at (mem s') x = item_at (mem s) x"
    and fw: "\<And>i x. int i \<le> max_level s' \<Longrightarrow> x \<noteq> a \<Longrightarrow> fwd (mem s') i x =
        (if x = pred_of s key xs then fwd (mem s) i a else fwd (mem s) i x)"
  shows "nodes_inv s' (before_key (mem s) key xs @ as)"
proof -
  let ?p = "pred_of s key xs" and ?lo = "before_key (mem s) key xs"
  obtain us where us: "head s # ?lo = us @ [?p]" "head s # xs = us @ ?p # a # as"
    using pred_split[OF inv, of key] hi by metis
  have nodes: "head s # ?lo @ as = us @ ?p # as"
    using us(1) by (metis append_Cons append_Nil append.assoc)
  have xs: "?lo @ a # as = xs" using below_above[of "mem s" key xs] hi by simp
  have dist: "distinct (us @ ?p # a # as)" using inv us(2) by (metis nodes_inv_def)
  have set: "set (head s # ?lo @ as) = set (head s # xs) - {a}"
    unfolding nodes us(2) using dist by auto
  have "path (mem s') i (Some (head s)) (us @ ?p # as) None" if i: "i \<le> nat (max_level s')" for i
  proof (rule path_delete[where h = "mem s" and a = a])
    have "int i \<le> max_level s'" using i s'(2) by simp
    note fw = fw[OF this]
    show "path (mem s) i (Some (head s)) (us @ ?p # a # as) None"
      using nodes_inv_path[OF inv, of i] i s'(3) us(2) by simp
    show "fwd (mem s') i ?p = fwd (mem s) i a" using fw dist by simp
    show "\<And>x. x \<noteq> ?p \<Longrightarrow> x \<noteq> a \<Longrightarrow> fwd (mem s') i x = fwd (mem s) i x" using fw by simp
  qed (rule dist)
  moreover have "sorted_wrt (<) (map (key_at (mem s')) (?lo @ as))"
  proof -
    have "a \<notin> set (?lo @ as)" using set by auto
    then have eq: "map (key_at (mem s')) (?lo @ as) = map (key_at (mem s)) (?lo @ as)"
      by (intro map_cong refl key_at_cong it) auto
    have "sorted_wrt (<) (map (key_at (mem s)) (?lo @ a # as))"
      unfolding xs using inv by (simp add: nodes_inv_def)
    then have "sorted_wrt (<) (map (key_at (mem s)) (?lo @ as))" by (simp add: sorted_wrt_append)
    then show ?thesis unfolding eq .
  qed
  moreover have "distinct (head s # ?lo @ as)" unfolding nodes using dist by auto
  moreover have "dom (mem s') = set (head s # ?lo @ as)"
    unfolding set using dom inv by (simp add: nodes_inv_def)
  moreover have "\<forall>x\<in>set (head s # ?lo @ as). x < next_addr s"
    unfolding set using inv by (auto simp: nodes_inv_def)
  ultimately show ?thesis
    unfolding nodes_inv_def s'(1,4) nodes[symmetric] using s'(2) by blast
qed

lemma remove_node_inv:
  assumes inv: "nodes_inv s xs" and hi: "from_key (mem s) key xs = a # as"
  shows "\<exists>s'. remove_node a (replicate (nat (max_level s + 1)) (pred_of s key xs)) s = Ok s' \<and>
    nodes_inv s' (before_key (mem s) key xs @ as) \<and>
    (\<forall>x. x \<noteq> a \<longrightarrow> item_at (mem s') x = item_at (mem s) x) \<and>
    max_level s' \<le> max_level s \<and> node_count s' = node_count s - 1 \<and>
    rand_pos s' = rand_pos s \<and> reader_open s' = reader_open s"
proof -
  let ?p = "pred_of s key xs" and ?m = "nat (max_level s + 1)"
  have lvl0: "0 \<le> max_level s" using inv by (simp add: nodes_inv_def)
  have axs: "a \<in> set xs" using set_above[of "mem s" key xs] hi by auto
  have "?p \<noteq> a"
    using pred_split[OF inv, of key] hi inv by (metis distinct.simps(2) distinct_append
        list.set_intros(1) nodes_inv_def)
  have fw: "fwd (mem s) i ?p = Some (Some a)" "\<exists>r. fwd (mem s) i a = Some r" if "i < ?m" for i
    using fwd_pred[OF inv, of i key] path_fwd[OF nodes_inv_path[OF inv, of i], of a] that hi axs
    by (simp_all add: first_of_def)
  have "\<exists>h'. unlink_levels (mem s) a (replicate ?m ?p) 0 ?m = Ok h' \<and> same_items (mem s) h' \<and>
    (\<forall>x j. fwd h' j x = (if 0 \<le> j \<and> j < 0 + ?m \<and> x = ?p then fwd (mem s) j a else fwd (mem s) j x))"
    by (rule unlink_levels_Ok[OF \<open>?p \<noteq> a\<close>]) (use fw in auto)
  then obtain h where h: "unlink_levels (mem s) a (replicate ?m ?p) 0 ?m = Ok h"
    "same_items (mem s) h"
    "\<And>x j. fwd h j x = (if j < ?m \<and> x = ?p then fwd (mem s) j a else fwd (mem s) j x)"
    by auto
  have "\<exists>r. fwd h j (head s) = Some r" if "j \<le> nat (max_level s)" for j
    using h(3)[of j "head s"] fw(2)[of j] nodes_inv_path[OF inv that] that lvl0 by auto
  then obtain m where m: "shrink_level h (head s) (nat (max_level s)) = Ok m" "m \<le> nat (max_level s)"
    using shrink_level_Ok[of "nat (max_level s)" h "head s"] by blast
  let ?l = "if max_level s > 0 then int m else max_level s"
  let ?s = "s\<lparr>mem := h(a := None), max_level := ?l, node_count := node_count s - 1\<rparr>"
  have "nodes_inv ?s (before_key (mem s) key xs @ as)"
    by (rule nodes_inv_unlink[OF inv hi])
      (use m(2) lvl0 h(2,3) in \<open>auto simp: same_items_def split: if_splits\<close>)
  moreover have "remove_node a (replicate ?m ?p) s = Ok ?s"
    using h(1) m(1) by (simp add: remove_node_def)
  ultimately show ?thesis using h(2) m(2) by (auto simp: same_items_def)
qed

lemma delete_absent:
  assumes "wf_skiplist s" "key \<notin> fst ` set (items s)"
  shows "delete_element key s = Ok s"
proof -
  obtain xs where inv: "nodes_inv s xs" using assms(1) by (auto simp: wf_skiplist_def)
  have sorted: "sorted_wrt (<) (map (key_at (mem s)) xs)" and lvl: "0 \<le> max_level s"
    using inv by (simp_all add: nodes_inv_def)
  show ?thesis
  proof (cases "from_key (mem s) key xs")
    case Nil
    with fwd_pred[OF inv, of 0 key] lvl show ?thesis
      by (simp add: delete_element_def descend_inv[OF inv] first_of_def)
  next
    case (Cons a as)
    with deref_above[OF inv] obtain n where
      "deref (mem s) a = Ok n" "get_key n = key_at (mem s) a" by blast
    moreover have "key_at (mem s) a \<noteq> key"
      using assms(2) keys_inv[OF inv] key_in_iff[OF sorted, of key] Cons by auto
    ultimately show ?thesis
      using fwd_pred[OF inv, of 0 key] lvl Cons
      by (simp add: delete_element_def descend_inv[OF inv] first_of_def)
  qed
qed

lemma del_sorted_split:
  assumes "sorted_wrt (<) (map f (as @ a # bs))" "f a = (k::int)"
  shows "filter (\<lambda>x. f x \<noteq> k) (as @ a # bs) = as @ bs"
proof -
  have "\<forall>x\<in>set as. f x \<noteq> k" "\<forall>x\<in>set bs. f x \<noteq> k"
    using assms by (force simp: sorted_wrt_append)+
  then show ?thesis using assms(2) by simp
qed

lemma delete_present:
  assumes "wf_skiplist s" "key \<in> fst ` set (items s)"
  shows "\<exists>s'. delete_element key s = Ok s' \<and> wf_skiplist s' \<and>
    items s' = del_sorted key (items s) \<and> max_level s' \<le> max_level s \<and>
    node_count s' = node_count s - 1 \<and> rand_pos s' = rand_pos s \<and> reader_open s' = reader_open s"
proof -
  obtain xs where inv: "nodes_inv s xs" using assms(1) by (auto simp: wf_skiplist_def)
  have lvl: "0 \<le> max_level s" and sorted: "sorted_wrt (<) (map (key_at (mem s)) xs)"
    using inv by (simp_all add: nodes_inv_def)
  with assms(2) keys_inv[OF inv] key_in_iff obtain a as where
    a: "from_key (mem s) key xs = a # as" "key_at (mem s) a = key" by metis
  with deref_above[OF inv] obtain n where n: "deref (mem s) a = Ok n" "get_key n = key" by metis
  let ?lo = "before_key (mem s) key xs"
  from remove_node_inv[OF inv a(1)] obtain s' where s':
    "remove_node a (replicate (nat (max_level s + 1)) (pred_of s key xs)) s = Ok s'"
    "nodes_inv s' (?lo @ as)" "\<And>x. x \<noteq> a \<Longrightarrow> item_at (mem s') x = item_at (mem s) x"
    "max_level s' \<le> max_level s" "node_count s' = node_count s - 1" "rand_pos s' = rand_pos s"
    "reader_open s' = reader_open s" by blast
  have xs: "xs = ?lo @ a # as" using below_above[of "mem s" key xs] a(1) by simp
  have "distinct xs" using inv by (simp add: nodes_inv_def)
  then have "distinct (?lo @ a # as)" using xs by metis
  then have "a \<notin> set (?lo @ as)" by auto
  then have "map (item_at (mem s')) (?lo @ as) = map (item_at (mem s)) (?lo @ as)"
    using s'(3) by (intro map_item_at_cong) metis
  moreover have "del_sorted key (map (item_at (mem s)) (?lo @ a # as)) = map (item_at (mem s)) (?lo @ as)"
    using del_sorted_split[of "key_at (mem s)" ?lo a as key] sorted a(2) xs
    by (simp add: del_sorted_def filter_map comp_def)
  ultimately have "items s' = del_sorted key (items s)"
    using items_inv[OF s'(2)] items_inv[OF inv] xs by metis
  moreover have "delete_element key s = Ok s'"
    using fwd_pred[OF inv, of 0 key] a n lvl s'(1)
    by (simp add: delete_element_def descend_inv[OF inv] first_of_def)
  ultimately show ?thesis using s' unfolding wf_skiplist_def by blast
qed

end
