(* ===== verification/SkipListSpec.thy ===== *)
theory SkipListSpec
  imports SkipListDel
begin

section \<open>The skip list as a key-value store\<close>

text \<open>
  The interface the command handlers rely on is the locale \<^verbatim>\<open>kv_store\<close>: what inserting, deleting
  and searching do to the finite map a store holds.  The laws are those of the code, in which an
  insertion of a present key is refused, not an update.  The skip list is an instance on every
  well-formed state (\<^verbatim>\<open>sl\<close>); the facts about sequences of operations are proved in the locale.
\<close>

subsection \<open>The interface\<close>

datatype kv_op = Put int string | Remove int

text \<open>A sequence of operations on a store given by its two updates.\<close>

fun run_ops :: "(int \<Rightarrow> string \<Rightarrow> 's \<Rightarrow> (exn, int \<times> 's) outcome) \<Rightarrow>
    (int \<Rightarrow> 's \<Rightarrow> (exn, 's) outcome) \<Rightarrow> kv_op list \<Rightarrow> 's \<Rightarrow> (exn, 's) outcome" where
  "run_ops ins del [] s = Ok s"
| "run_ops ins del (Put k v # ops) s = obind (ins k v s) (\<lambda>(r, s'). run_ops ins del ops s')"
| "run_ops ins del (Remove k # ops) s = obind (del k s) (\<lambda>s'. run_ops ins del ops s')"

text \<open>What one operation does to the map: the first value stored under a key stays.\<close>

fun map_op :: "kv_op \<Rightarrow> (int \<rightharpoonup> string) \<Rightarrow> (int \<rightharpoonup> string)" where
  "map_op (Put k v) m = (case m k of None \<Rightarrow> m(k \<mapsto> v) | Some _ \<Rightarrow> m)"
| "map_op (Remove k) m = m(k := None)"

definition map_ops :: "kv_op list \<Rightarrow> (int \<rightharpoonup> string) \<Rightarrow> (int \<rightharpoonup> string)" where
  "map_ops ops m = fold map_op ops m"

locale kv_store =
  fixes ins :: "int \<Rightarrow> string \<Rightarrow> 's \<Rightarrow> (exn, int \<times> 's) outcome"
    and del :: "int \<Rightarrow> 's \<Rightarrow> (exn, 's) outcome"
    and srch :: "int \<Rightarrow> 's \<Rightarrow> (exn, bool) outcome"
    and contents :: "'s \<Rightarrow> (int \<rightharpoonup> string)"
    and ok :: "'s \<Rightarrow> bool"
  assumes ins_new: "ok s \<Longrightarrow> contents s k = None \<Longrightarrow>
      \<exists>s'. ins k v s = Ok (0, s') \<and> ok s' \<and> contents s' = (contents s)(k \<mapsto> v)"
    and ins_old: "ok s \<Longrightarrow> contents s k \<noteq> None \<Longrightarrow> ins k v s = Ok (1, s)"
    and del_law: "ok s \<Longrightarrow> \<exists>s'. del k s = Ok s' \<and> ok s' \<and> contents s' = (contents s)(k := None)"
    and srch_law: "ok s \<Longrightarrow> srch k s = Ok (contents s k \<noteq> None)"
begin

lemma ins_total:
  assumes "ok s"
  shows "\<exists>r s'. ins k v s = Ok (r, s') \<and> ok s' \<and> contents s' = map_op (Put k v) (contents s) \<and>
    (r = 0 \<longleftrightarrow> contents s k = None) \<and> r \<in> {0, 1}"
proof (cases "contents s k")
  case None
  then show ?thesis using ins_new[OF assms None, of v] by auto
next
  case (Some w)
  then show ?thesis using ins_old[OF assms, of k v] assms by auto
qed

lemma run_ops_total:
  "ok s \<Longrightarrow> \<exists>s'. run_ops ins del ops s = Ok s' \<and> ok s' \<and> contents s' = map_ops ops (contents s)"
proof (induction ops arbitrary: s)
  case (Cons op ops)
  show ?case
  proof (cases op)
    case (Put k v)
    with ins_total[OF Cons.prems, of k v] obtain r s1 where
      "ins k v s = Ok (r, s1)" "ok s1" "contents s1 = map_op op (contents s)" by blast
    with Cons.IH[of s1] Put show ?thesis by (simp add: map_ops_def)
  next
    case (Remove k)
    with del_law[OF Cons.prems, of k] obtain s1 where
      "del k s = Ok s1" "ok s1" "contents s1 = map_op op (contents s)" by auto
    with Cons.IH[OF \<open>ok s1\<close>] Remove show ?thesis by (simp add: map_ops_def fun_upd_def)
  qed
qed (simp add: map_ops_def)

lemma search_after_ops:
  assumes "ok s" "run_ops ins del ops s = Ok s'"
  shows "srch k s' = Ok (map_ops ops (contents s) k \<noteq> None)"
  using run_ops_total[OF assms(1), of ops] assms(2) srch_law by auto

lemma search_after_put:
  assumes "ok s" "ins k v s = Ok (r, s')"
  shows "srch k s' = Ok True" and "k' \<noteq> k \<Longrightarrow> srch k' s' = srch k' s"
  using ins_total[OF assms(1), of k v] assms srch_law by (auto split: option.splits)

lemma search_after_remove:
  assumes "ok s" "del k s = Ok s'"
  shows "srch k s' = Ok False" and "k' \<noteq> k \<Longrightarrow> srch k' s' = srch k' s"
  using del_law[OF assms(1), of k] assms srch_law by auto

lemma put_twice:
  assumes "ok s" "ins k v s = Ok (r, s')"
  shows "ins k w s' = Ok (1, s')"
  using ins_total[OF assms(1), of k v] assms ins_old[of s' k w] by (auto split: option.splits)

end

subsection \<open>The skip list implements it\<close>

definition rand_fair :: "(nat \<Rightarrow> nat) \<Rightarrow> bool" where
  "rand_fair rnd \<longleftrightarrow> (\<forall>p. rand_ends rnd p)"

definition contents_of :: "skiplist \<Rightarrow> (int \<rightharpoonup> string)" where
  "contents_of s = map_of (items s)"

definition store_ok :: "(nat \<Rightarrow> nat) \<Rightarrow> skiplist \<Rightarrow> bool" where
  "store_ok rnd s \<longleftrightarrow> wf_skiplist s \<and> rand_fair rnd"

lemma contents_None: "contents_of s k = None \<longleftrightarrow> k \<notin> fst ` set (items s)"
  by (simp add: contents_of_def map_of_eq_None_iff)

lemma map_of_ins_sorted:
  assumes "k \<notin> fst ` set kvs"
  shows "map_of (ins_sorted k v kvs) = (map_of kvs)(k \<mapsto> v)"
proof -
  have "map_of (takeWhile (\<lambda>p. fst p < k) kvs) k = None"
    using assms by (auto simp: map_of_eq_None_iff dest: set_takeWhileD)
  moreover have "kvs = takeWhile (\<lambda>p. fst p < k) kvs @ dropWhile (\<lambda>p. fst p < k) kvs" by simp
  then have "map_of kvs = map_of (dropWhile (\<lambda>p. fst p < k) kvs) ++
      map_of (takeWhile (\<lambda>p. fst p < k) kvs)" by (metis map_of_append)
  ultimately show ?thesis
    by (auto simp: ins_sorted_def fun_eq_iff map_add_def split: option.splits)
qed

lemma map_of_del_sorted: "map_of (del_sorted k kvs) = (map_of kvs)(k := None)"
  by (induction kvs) (auto simp: del_sorted_def fun_eq_iff)

lemma sl_ins_new:
  assumes "store_ok rnd s" "contents_of s k = None"
  shows "\<exists>s'. insert_element rnd k v s = Ok (0, s') \<and> store_ok rnd s' \<and>
    contents_of s' = (contents_of s)(k \<mapsto> v)"
proof -
  have "k \<notin> fst ` set (items s)" using assms(2) by (simp add: contents_None)
  with assms insert_absent[of s rnd k v] show ?thesis
    by (auto simp: store_ok_def rand_fair_def contents_of_def map_of_ins_sorted)
qed

lemma sl_del:
  assumes "store_ok rnd s"
  shows "\<exists>s'. delete_element k s = Ok s' \<and> store_ok rnd s' \<and>
    contents_of s' = (contents_of s)(k := None)"
proof (cases "k \<in> fst ` set (items s)")
  case True
  with assms delete_present[of s k] show ?thesis
    by (auto simp: store_ok_def contents_of_def map_of_del_sorted)
next
  case False
  then have "contents_of s k = None" by (simp add: contents_None)
  with False assms delete_absent[of s k] show ?thesis by (auto simp: store_ok_def fun_eq_iff)
qed

lemma wf_search: "wf_skiplist s \<Longrightarrow> search_element k s = Ok (contents_of s k \<noteq> None)"
  using search_inv by (auto simp: wf_skiplist_def contents_None)

interpretation sl: kv_store "insert_element rnd" delete_element search_element contents_of
  "store_ok rnd" for rnd
proof
  show "insert_element rnd k v s = Ok (1, s)" if "store_ok rnd s" "contents_of s k \<noteq> None"
    for s k v using insert_present that by (auto simp: store_ok_def contents_None)
  show "search_element k s = Ok (contents_of s k \<noteq> None)" if "store_ok rnd s" for s k
    using wf_search that by (simp add: store_ok_def)
qed (use sl_ins_new sl_del in auto)

subsection \<open>The constructor and the destructor\<close>

lemma init_nodes_inv:
  assumes "0 \<le> lvl"
  shows "\<exists>s. SkipList_init lvl rp = Ok s \<and> nodes_inv s [] \<and> max_level s = lvl \<and>
    node_count s = 0 \<and> rand_pos s = rp \<and> reader_open s = False"
  using assms by (auto simp: SkipList_init_def Node_init_def nodes_inv_def fwd_def)

lemma init_Ok:
  assumes "0 \<le> lvl"
  shows "\<exists>s. SkipList_init lvl rp = Ok s \<and> wf_skiplist s \<and> items s = [] \<and> max_level s = lvl \<and>
    node_count s = 0 \<and> reader_open s = False"
  using init_nodes_inv[OF assms, of rp] items_inv unfolding wf_skiplist_def by fastforce

lemma clear_nodes_path:
  "path h 0 p as None \<Longrightarrow> distinct as \<Longrightarrow> length as < fuel \<Longrightarrow>
    clear_nodes fuel h p = Ok (\<lambda>x. if x \<in> set as then None else h x)"
proof (induction as arbitrary: p fuel)
  case Nil
  then show ?case by (cases fuel) auto
next
  case (Cons a as)
  then obtain f where f: "fuel = Suc f" by (cases fuel) auto
  from Cons.prems obtain r where r: "p = Some a" "fwd h 0 a = Some r" "path h 0 r as None" by auto
  obtain n where "h a = Some n" using fwd_node[OF r(2)] by auto
  with Cons.IH[OF r(3), of f] Cons.prems r f show ?case
    by (auto simp: deref_def fun_eq_iff)
qed

lemma destroy_inv: "nodes_inv s xs \<Longrightarrow> SkipList_destroy s = Ok Map.empty"
proof -
  assume inv: "nodes_inv s xs"
  have "length (head s # xs) < walk_fuel s"
    using nodes_inv_length[OF inv] by (simp add: walk_fuel_def)
  moreover have "distinct (head s # xs)" using inv by (simp add: nodes_inv_def)
  ultimately have "SkipList_destroy s =
      Ok (\<lambda>x. if x \<in> set (head s # xs) then None else mem s x)"
    using clear_nodes_path[OF nodes_inv_path0[OF inv]] by (simp add: SkipList_destroy_def)
  moreover have "x \<notin> set (head s # xs) \<Longrightarrow> mem s x = None" for x
    using inv unfolding nodes_inv_def by blast
  ultimately show ?thesis by (auto simp: fun_eq_iff)
qed

end
