(* ===== verification/CppString.thy ===== *)
theory CppString
  imports Exceptions
begin

section \<open>The part of the C++ string library the server uses\<close>

text \<open>
  \<^verbatim>\<open>std::string\<close> is a list of bytes (\<^verbatim>\<open>char\<close>), a position is a natural number and
  \<^verbatim>\<open>npos\<close> is None.  The character classes are those of the C locale.
\<close>

named_theorems string_simps \<open>evaluation of the string functions\<close>

subsection \<open>Characters\<close>

definition isspace_c :: "char \<Rightarrow> bool" where
  "isspace_c c \<longleftrightarrow> c = CHR '' '' \<or> (9 \<le> (of_char c :: nat) \<and> (of_char c :: nat) \<le> 13)"

definition isdigit_c :: "char \<Rightarrow> bool" where
  "isdigit_c c \<longleftrightarrow> 48 \<le> (of_char c :: nat) \<and> (of_char c :: nat) \<le> 57"

definition toupper_c :: "char \<Rightarrow> char" where
  "toupper_c c = (if 97 \<le> (of_char c :: nat) \<and> (of_char c :: nat) \<le> 122
                  then char_of ((of_char c :: nat) - 32) else c)"

definition tolower_c :: "char \<Rightarrow> char" where
  "tolower_c c = (if 65 \<le> (of_char c :: nat) \<and> (of_char c :: nat) \<le> 90
                  then char_of ((of_char c :: nat) + 32) else c)"

definition digit_char :: "nat \<Rightarrow> char" where
  "digit_char n = ''0123456789'' ! n"

definition digit_val :: "char \<Rightarrow> nat" where
  "digit_val c = of_char c - 48"

definition CR :: char where "CR = CHR 0x0D"
definition LF :: char where "LF = CHR 0x0A"

definition CRLF :: string where "CRLF = [CR, LF]"

lemma CR_LF [simp]: "CR \<noteq> LF" "LF \<noteq> CR"
  by (simp_all add: CR_def LF_def)

lemma less_10_cases:
  "(n::nat) < 10 \<Longrightarrow> n = 0 \<or> n = 1 \<or> n = 2 \<or> n = 3 \<or> n = 4 \<or> n = 5 \<or> n = 6 \<or> n = 7 \<or> n = 8 \<or> n = 9"
  by auto

lemma digit_char_props:
  assumes "n < 10"
  shows "isdigit_c (digit_char n)" "digit_val (digit_char n) = n" "digit_char n \<noteq> CHR ''-''"
    "digit_char n \<noteq> CHR ''+''" "\<not> isspace_c (digit_char n)" "digit_char n \<noteq> CR"
  using less_10_cases[OF assms]
  by (auto simp: digit_char_def isdigit_c_def digit_val_def isspace_c_def CR_def)

lemma toupper_c_id: "\<not> (97 \<le> (of_char c :: nat) \<and> (of_char c :: nat) \<le> 122) \<Longrightarrow> toupper_c c = c"
  by (auto simp: toupper_c_def)

subsection \<open>Searching and cutting\<close>

text \<open>\<^verbatim>\<open>s.find(c)\<close>: the first position of a character.\<close>

fun find_char :: "char \<Rightarrow> string \<Rightarrow> nat option" where
  "find_char c [] = None"
| "find_char c (x # xs) = (if x = c then Some 0 else map_option Suc (find_char c xs))"

text \<open>\<^verbatim>\<open>s.find(sub)\<close>: the first position of a substring.\<close>

definition starts_with :: "string \<Rightarrow> string \<Rightarrow> bool" where
  "starts_with sub s \<longleftrightarrow> take (length sub) s = sub"

fun find_str :: "string \<Rightarrow> string \<Rightarrow> nat option" where
  "find_str sub [] = (if sub = [] then Some 0 else None)"
| "find_str sub (x # xs) =
     (if starts_with sub (x # xs) then Some 0 else map_option Suc (find_str sub xs))"

text \<open>\<^verbatim>\<open>s.substr(pos, len)\<close> throws when pos is past the end and clips len.\<close>

definition substr :: "string \<Rightarrow> nat \<Rightarrow> nat \<Rightarrow> (exn, string) outcome" where
  "substr s pos len =
     (if pos > length s then Throw (Std_exception ''basic_string::substr'')
      else Ok (take len (drop pos s)))"

lemma find_char_None: "find_char c s = None \<longleftrightarrow> c \<notin> set s"
  by (induction s) auto

lemma find_char_Some:
  "find_char c s = Some n \<longleftrightarrow> n < length s \<and> s ! n = c \<and> c \<notin> set (take n s)"
proof (induction s arbitrary: n)
  case (Cons x xs)
  show ?case by (cases n) (auto simp: Cons.IH)
qed simp

lemma find_char_append: "c \<notin> set a \<Longrightarrow> find_char c (a @ c # b) = Some (length a)"
  by (induction a) auto

lemma find_str_Some:
  "find_str sub s = Some n \<Longrightarrow> n \<le> length s \<and> starts_with sub (drop n s)"
proof (induction s arbitrary: n)
  case Nil
  then show ?case by (simp add: starts_with_def split: if_splits)
next
  case (Cons x xs)
  show ?case
  proof (cases "starts_with sub (x # xs)")
    case True
    with Cons.prems show ?thesis by simp
  next
    case False
    with Cons show ?thesis by auto
  qed
qed

lemma find_str_0: "find_str sub s = Some 0 \<longleftrightarrow> starts_with sub s"
  by (cases s) (auto simp: starts_with_def)

lemma starts_with_append [simp]: "starts_with sub (sub @ s)"
  by (simp add: starts_with_def)

subsection \<open>Numbers\<close>

fun nat_to_string :: "nat \<Rightarrow> string" where
  "nat_to_string n =
     (if n < 10 then [digit_char n] else nat_to_string (n div 10) @ [digit_char (n mod 10)])"

declare nat_to_string.simps [simp del, string_simps]

text \<open>\<^verbatim>\<open>std::to_string\<close> of an integer.\<close>

definition int_to_string :: "int \<Rightarrow> string" where
  "int_to_string i = (if i < 0 then CHR ''-'' # nat_to_string (nat (- i)) else nat_to_string (nat i))"

definition digits_val :: "string \<Rightarrow> nat" where
  "digits_val ds = foldl (\<lambda>n c. 10 * n + digit_val c) 0 ds"

text \<open>
  \<^verbatim>\<open>strtol\<close> in base 10, before any range check: white space, a sign, then as many digits as
  there are; None when there is no digit.
\<close>

definition strtol :: "string \<Rightarrow> int option" where
  "strtol s =
     (let s1 = dropWhile isspace_c s;
          neg = (s1 \<noteq> [] \<and> hd s1 = CHR ''-'');
          s2 = (if s1 \<noteq> [] \<and> (hd s1 = CHR ''-'' \<or> hd s1 = CHR ''+'') then tl s1 else s1);
          ds = takeWhile isdigit_c s2
      in if ds = [] then None
         else Some (if neg then - int (digits_val ds) else int (digits_val ds)))"

text \<open>
  \<^verbatim>\<open>std::stoi\<close> and \<^verbatim>\<open>std::stoll\<close>: \<^verbatim>\<open>invalid_argument\<close> and \<^verbatim>\<open>out_of_range\<close> both carry the name
  of the function as their text.
\<close>

definition int_min :: int where "int_min = - (2 ^ 31)"
definition int_max :: int where "int_max = 2 ^ 31 - 1"
definition int64_min :: int where "int64_min = - (2 ^ 63)"
definition int64_max :: int where "int64_max = 2 ^ 63 - 1"

definition stoi :: "string \<Rightarrow> (exn, int) outcome" where
  "stoi s = (case strtol s of None \<Rightarrow> Throw (Std_exception ''stoi'')
     | Some v \<Rightarrow> if v < int_min \<or> int_max < v then Throw (Std_exception ''stoi'') else Ok v)"

definition stoll :: "string \<Rightarrow> (exn, int) outcome" where
  "stoll s = (case strtol s of None \<Rightarrow> Throw (Std_exception ''stoll'')
     | Some v \<Rightarrow> if v < int64_min \<or> int64_max < v then Throw (Std_exception ''stoll'') else Ok v)"

lemmas int_limits = int_min_def int_max_def int64_min_def int64_max_def

lemma stoi_not_Fault [simp]: "stoi s \<noteq> Fault d"
  by (simp add: stoi_def split: option.split)

lemma stoll_not_Fault [simp]: "stoll s \<noteq> Fault d"
  by (simp add: stoll_def split: option.split)

lemma stoi_range: "stoi s = Ok v \<Longrightarrow> int_min \<le> v \<and> v \<le> int_max"
  by (auto simp: stoi_def split: option.splits if_splits)

lemma stoll_range: "stoll s = Ok v \<Longrightarrow> int64_min \<le> v \<and> v \<le> int64_max"
  by (auto simp: stoll_def split: option.splits if_splits)

lemma nat_to_string_digits: "\<forall>c\<in>set (nat_to_string n). isdigit_c c \<and> c \<noteq> CR"
proof (induction n rule: nat_to_string.induct)
  case (1 n)
  show ?case
  proof (cases "n < 10")
    case True
    then show ?thesis by (subst nat_to_string.simps) (simp add: digit_char_props)
  next
    case False
    with 1 show ?thesis by (subst nat_to_string.simps) (auto simp: digit_char_props)
  qed
qed

lemma nat_to_string_not_Nil [simp]: "nat_to_string n \<noteq> []"
  by (subst nat_to_string.simps) simp

lemma nat_to_string_hd:
  "hd (nat_to_string n) \<noteq> CHR ''-''" "hd (nat_to_string n) \<noteq> CHR ''+''"
  "\<not> isspace_c (hd (nat_to_string n))"
proof -
  have "isdigit_c (hd (nat_to_string n))"
    using nat_to_string_digits[of n] by (cases "nat_to_string n") auto
  then show "hd (nat_to_string n) \<noteq> CHR ''-''" "hd (nat_to_string n) \<noteq> CHR ''+''"
    "\<not> isspace_c (hd (nat_to_string n))"
    by (auto simp: isdigit_c_def isspace_c_def)
qed

lemma digits_val_snoc: "digits_val (ds @ [c]) = 10 * digits_val ds + digit_val c"
  by (simp add: digits_val_def)

lemma digits_val_to_string [simp]: "digits_val (nat_to_string n) = n"
proof (induction n rule: nat_to_string.induct)
  case (1 n)
  show ?case
  proof (cases "n < 10")
    case True
    then show ?thesis
      by (subst nat_to_string.simps) (simp add: digits_val_def digit_char_props)
  next
    case False
    with 1 show ?thesis
      by (subst nat_to_string.simps) (simp add: digits_val_snoc digit_char_props)
  qed
qed

lemma takeWhile_digits:
  assumes "rest = [] \<or> \<not> isdigit_c (hd rest)"
  shows "takeWhile isdigit_c (nat_to_string n @ rest) = nat_to_string n"
proof -
  have "takeWhile isdigit_c (nat_to_string n @ rest) = nat_to_string n @ takeWhile isdigit_c rest"
    using nat_to_string_digits by (intro takeWhile_append2) blast
  then show ?thesis using assms by (cases rest) auto
qed

lemma dropWhile_space_to_string:
  "dropWhile isspace_c (nat_to_string n @ rest) = nat_to_string n @ rest"
  using nat_to_string_hd[of n] by (cases "nat_to_string n") auto

lemma strtol_nat_to_string:
  assumes "rest = [] \<or> \<not> isdigit_c (hd rest)"
  shows "strtol (nat_to_string n @ rest) = Some (int n)"
  using nat_to_string_hd[of n] takeWhile_digits[OF assms, of n]
  by (simp add: strtol_def Let_def dropWhile_space_to_string)

text \<open>Round trip: the decimal form of an integer is read back, up to the next non-digit.\<close>

lemma strtol_int_to_string:
  assumes "rest = [] \<or> \<not> isdigit_c (hd rest)"
  shows "strtol (int_to_string i @ rest) = Some i"
proof (cases "i < 0")
  case True
  then show ?thesis
    using takeWhile_digits[OF assms, of "nat (- i)"]
    by (simp add: strtol_def Let_def int_to_string_def isspace_c_def)
next
  case False
  then show ?thesis using strtol_nat_to_string[OF assms, of "nat i"] by (simp add: int_to_string_def)
qed

lemma stoi_int_to_string [simp]:
  "int_min \<le> i \<Longrightarrow> i \<le> int_max \<Longrightarrow> stoi (int_to_string i) = Ok i"
  using strtol_int_to_string[of "[]" i] by (simp add: stoi_def)

lemma stoll_int_to_string [simp]:
  "int64_min \<le> i \<Longrightarrow> i \<le> int64_max \<Longrightarrow> stoll (int_to_string i) = Ok i"
  using strtol_int_to_string[of "[]" i] by (simp add: stoll_def)

lemma stoll_nat_to_string [simp]: "int n \<le> int64_max \<Longrightarrow> stoll (nat_to_string n) = Ok (int n)"
  using strtol_nat_to_string[of "[]" n] by (simp add: stoll_def int_limits)

lemma int_to_string_no_CR: "CR \<notin> set (int_to_string i)"
  using nat_to_string_digits by (auto simp: int_to_string_def CR_def)

lemma int_to_string_not_Nil [simp]: "int_to_string i \<noteq> []"
  by (simp add: int_to_string_def)

lemma nat_to_string_no_colon: "CHR '':'' \<notin> set (nat_to_string i)"
proof
  assume "CHR '':'' \<in> set (nat_to_string i)"
  then have "isdigit_c (CHR '':'')" using nat_to_string_digits by blast
  then show False by (simp add: isdigit_c_def)
qed

lemma int_to_string_no_colon: "CHR '':'' \<notin> set (int_to_string i)"
  using nat_to_string_no_colon by (simp add: int_to_string_def)

lemma int_to_string_inj: "int_to_string i = int_to_string j \<longleftrightarrow> i = j"
proof
  assume "int_to_string i = int_to_string j"
  then have "strtol (int_to_string i) = strtol (int_to_string j)" by simp
  then show "i = j"
    using strtol_int_to_string[of "[]" i] strtol_int_to_string[of "[]" j] by simp
qed simp

subsection \<open>Lines\<close>

text \<open>
  The lines \<^verbatim>\<open>std::getline(stream, line, delim)\<close> yields until the stream ends: the text between
  delimiters, and the rest after the last one when it is not empty.
\<close>

fun getlines_from :: "char \<Rightarrow> string \<Rightarrow> string \<Rightarrow> string list" where
  "getlines_from d acc [] = (if acc = [] then [] else [acc])"
| "getlines_from d acc (c # cs) =
     (if c = d then acc # getlines_from d [] cs else getlines_from d (acc @ [c]) cs)"

definition getlines :: "char \<Rightarrow> string \<Rightarrow> string list" where
  "getlines d s = getlines_from d [] s"

lemma getlines_from_line:
  "d \<notin> set l \<Longrightarrow> getlines_from d acc (l @ d # rest) = (acc @ l) # getlines_from d [] rest"
  by (induction l arbitrary: acc) auto

lemma getlines_line: "d \<notin> set l \<Longrightarrow> getlines d (l @ d # rest) = l # getlines d rest"
  by (simp add: getlines_def getlines_from_line)

lemma getlines_Nil [simp]: "getlines d [] = []"
  by (simp add: getlines_def)

lemma getlines_concat:
  "(\<And>l. l \<in> set ls \<Longrightarrow> d \<notin> set l) \<Longrightarrow> getlines d (concat (map (\<lambda>l. l @ [d]) ls)) = ls"
  by (induction ls) (simp_all add: getlines_line)

lemma getlines_from_no_delim: "d \<notin> set acc \<Longrightarrow> l \<in> set (getlines_from d acc s) \<Longrightarrow> d \<notin> set l"
  by (induction d acc s rule: getlines_from.induct) (auto split: if_splits)

lemma getlines_no_delim: "l \<in> set (getlines d s) \<Longrightarrow> d \<notin> set l"
  using getlines_from_no_delim[of d "[]" l s] by (simp add: getlines_def)

subsection \<open>atoi and the cutting of blanks\<close>

text \<open>
  \<^verbatim>\<open>atoi\<close>: no conversion gives 0.  Outside the range of int the standard leaves the result open;
  this is glibc's, \<^verbatim>\<open>strtol\<close> clamped to 64 bits and cut to 32.
\<close>

definition atoi :: "string \<Rightarrow> int" where
  "atoi s = (case strtol s of None \<Rightarrow> 0
     | Some v \<Rightarrow> sint (word_of_int (max int64_min (min int64_max v)) :: 32 word))"

definition isblank_c :: "char \<Rightarrow> bool" where
  "isblank_c c \<longleftrightarrow> c = CHR '' '' \<or> c = CHR 0x09"

definition trim_with :: "(char \<Rightarrow> bool) \<Rightarrow> string \<Rightarrow> string" where
  "trim_with P s = rev (dropWhile P (rev (dropWhile P s)))"

lemma sint32_small: "int_min \<le> v \<Longrightarrow> v \<le> int_max \<Longrightarrow> sint (word_of_int v :: 32 word) = v"
  using signed_take_bit_int_eq_self[of 31 v] by (simp add: signed_of_int int_limits)

lemma atoi_int_to_string: "int_min \<le> v \<Longrightarrow> v \<le> int_max \<Longrightarrow> atoi (int_to_string v) = v"
  using strtol_int_to_string[of "[]" v] sint32_small[of v]
  by (simp add: atoi_def int_limits)

lemma trim_with_plain [simp]:
  "(\<And>c. c \<in> set s \<Longrightarrow> \<not> P c) \<Longrightarrow> trim_with P s = s"
proof -
  assume a: "\<And>c. c \<in> set s \<Longrightarrow> \<not> P c"
  have "dropWhile P xs = xs" if "set xs = set s" for xs
    using that a hd_in_set[of xs] by (auto simp: dropWhile_eq_self_iff)
  then show ?thesis by (simp add: trim_with_def)
qed

lemma trim_with_idem: "trim_with P (trim_with P s) = trim_with P s"
proof -
  let ?t = "dropWhile P s" and ?u = "trim_with P s"
  have u: "?u = rev (dropWhile P (rev ?t))" by (simp add: trim_with_def)
  obtain w where w: "?t = ?u @ w"
    unfolding u by (metis rev_append rev_rev_ident takeWhile_dropWhile_id)
  have "dropWhile P ?u = ?u"
  proof (cases "?u = []")
    case False
    with w have "?t \<noteq> []" "List.hd ?u = List.hd ?t" by (cases ?u; simp)+
    then have "\<not> P (List.hd ?u)" using hd_dropWhile[of P s] by simp
    then show ?thesis by (simp add: dropWhile_eq_self_iff)
  qed simp
  moreover have "rev (dropWhile P (rev ?u)) = ?u" by (simp add: u)
  ultimately show ?thesis by (metis trim_with_def)
qed

end
