(* ===== verification/Persistence.thy ===== *)
theory Persistence
  imports SkipListSpec CppString
begin

section \<open>Display, dump and load (skiplist/skiplist.cpp)\<close>

text \<open>
  \<^verbatim>\<open>STORE_FILE\<close> is a file of the disk: its text if it exists, and whether it can be opened for
  writing (the directory \<^verbatim>\<open>store/\<close> may be missing).  A read that stops on an exception of
  \<^verbatim>\<open>stoi\<close> leaves \<^verbatim>\<open>file_reader_\<close> open, and an open stream refuses to be opened again; the
  flag \<^verbatim>\<open>reader_open\<close> of the list object records it.  A load that throws has already inserted the
  lines before the bad one, so what it throws is the exception together with the list.
\<close>

record store_file =
  content :: "string option"
  writable :: bool

subsection \<open>display_list\<close>

fun display_pairs :: "(int \<times> string) list \<Rightarrow> string" where
  "display_pairs [] = ''''"
| "display_pairs ((k, v) # kvs) = int_to_string k @ '':'' @ v @ '':'' @ display_pairs kvs"

fun display_levels :: "nat \<Rightarrow> skiplist \<Rightarrow> (exn, string) outcome" where
  "display_levels 0 s = Ok ''''"
| "display_levels (Suc i) s =
     obind (level_items i s) (\<lambda>kvs.
     obind (display_levels i s) (\<lambda>rest.
       Ok (''Level '' @ nat_to_string i @ '': '' @ display_pairs kvs @ [LF] @ rest)))"

definition display_list :: "skiplist \<Rightarrow> (exn, string) outcome" where
  "display_list s = display_levels (nat (max_level s + 1)) s"

subsection \<open>dump_file\<close>

definition dump_line :: "int \<times> string \<Rightarrow> string" where
  "dump_line kv = int_to_string (fst kv) @ '':'' @ snd kv @ '';''"

definition dump_file :: "skiplist \<Rightarrow> store_file \<Rightarrow> (exn, store_file) outcome" where
  "dump_file s d =
     obind (level_items 0 s) (\<lambda>kvs.
       Ok (if writable d then d\<lparr>content := Some (concat (map (\<lambda>kv. dump_line kv @ [LF]) kvs))\<rparr>
           else d))"

subsection \<open>load_file\<close>

definition is_valid_string :: "string \<Rightarrow> bool" where
  "is_valid_string str \<longleftrightarrow> str \<noteq> [] \<and> find_char (CHR '':'') str \<noteq> None"

text \<open>The out-parameters keep what they held when the line is not valid.\<close>

definition get_key_value_from_string :: "string \<Rightarrow> string \<times> string \<Rightarrow> string \<times> string" where
  "get_key_value_from_string str kv =
     (if \<not> is_valid_string str then kv
      else case find_char (CHR '':'') str of
             None \<Rightarrow> kv
           | Some p \<Rightarrow> (take p str, drop (p + 1) str))"

fun load_lines :: "(nat \<Rightarrow> nat) \<Rightarrow> string list \<Rightarrow> string \<times> string \<Rightarrow> skiplist \<Rightarrow>
    (exn \<times> skiplist, skiplist) outcome" where
  "load_lines rnd [] kv s = Ok s"
| "load_lines rnd (line # lines) kv s =
     (let kv' = get_key_value_from_string line kv
      in if fst kv' = [] \<or> snd kv' = [] then load_lines rnd lines kv' s
         else case stoi (fst kv') of
                Throw e \<Rightarrow> Throw (e, s)
              | Fault d \<Rightarrow> Fault d
              | Ok k \<Rightarrow>
                  (case insert_element rnd k (snd kv') s of
                     Throw e \<Rightarrow> Throw (e, s)
                   | Fault d \<Rightarrow> Fault d
                   | Ok (r, s') \<Rightarrow> load_lines rnd lines kv' s'))"

definition load_file :: "(nat \<Rightarrow> nat) \<Rightarrow> store_file \<Rightarrow> skiplist \<Rightarrow>
    (exn \<times> skiplist, skiplist) outcome" where
  "load_file rnd d s =
     (if reader_open s then Ok (s\<lparr>reader_open := False\<rparr>)
      else case content d of
             None \<Rightarrow> Ok s
           | Some txt \<Rightarrow>
               obind (load_lines rnd (getlines LF txt) ('''', '''') (s\<lparr>reader_open := True\<rparr>))
                 (\<lambda>s'. Ok (s'\<lparr>reader_open := False\<rparr>)))"

text \<open>
  A restart of the process: the contents are dumped at shutdown, a new list is constructed and
  loads the file.
\<close>

definition restart :: "(nat \<Rightarrow> nat) \<Rightarrow> int \<Rightarrow> store_file \<Rightarrow> skiplist \<Rightarrow>
    (exn \<times> skiplist, skiplist) outcome" where
  "restart rnd lvl d s =
     (case dump_file s d of
        Ok d' \<Rightarrow> (case SkipList_init lvl (rand_pos s) of
                    Ok s0 \<Rightarrow> load_file rnd d' s0
                  | Throw e \<Rightarrow> Throw (e, s) | Fault f \<Rightarrow> Fault f)
      | Throw e \<Rightarrow> Throw (e, s) | Fault f \<Rightarrow> Fault f)"

fun restarts :: "nat \<Rightarrow> (nat \<Rightarrow> nat) \<Rightarrow> int \<Rightarrow> store_file \<Rightarrow> skiplist \<Rightarrow>
    (exn \<times> skiplist, skiplist) outcome" where
  "restarts 0 rnd lvl d s = Ok s"
| "restarts (Suc n) rnd lvl d s = obind (restart rnd lvl d s) (\<lambda>s'. restarts n rnd lvl d s')"

subsection \<open>The reader flag is independent of the list\<close>

lemma store_ok_reader [simp]: "store_ok rnd (s\<lparr>reader_open := b\<rparr>) = store_ok rnd s"
  by (simp add: store_ok_def wf_skiplist_def nodes_inv_def)

lemma items_reader [simp]: "items (s\<lparr>reader_open := b\<rparr>) = items s"
  by (simp add: items_def level_items_def walk_fuel_def)

lemma contents_reader [simp]: "contents_of (s\<lparr>reader_open := b\<rparr>) = contents_of s"
  by (simp add: contents_of_def)

lemma insert_new_reader:
  "insert_new rnd k v upd s = Ok s' \<Longrightarrow> reader_open s' = reader_open s"
  by (auto simp: insert_new_def get_random_level_def create_node_def outcome_simps
      split: option.splits if_splits)

lemma insert_element_reader:
  "insert_element rnd k v s = Ok (r, s') \<Longrightarrow> reader_open s' = reader_open s"
  by (auto simp: insert_element_def outcome_simps insert_new_reader
      split: option.splits if_splits)

subsection \<open>One line\<close>

lemma split_at_colon:
  assumes "CHR '':'' \<notin> set a"
  shows "get_key_value_from_string (a @ CHR '':'' # b) kv = (a, b)"
  using find_char_append[OF assms, of b]
  by (simp add: get_key_value_from_string_def is_valid_string_def)

lemma dump_line_read: "get_key_value_from_string (dump_line (k, v)) kv = (int_to_string k, v @ '';'')"
  using split_at_colon[OF int_to_string_no_colon[of k], of "v @ '';''" kv] by (simp add: dump_line_def)

definition int_key :: "int \<Rightarrow> bool" where
  "int_key k \<longleftrightarrow> int_min \<le> k \<and> k \<le> int_max"

lemma int_to_string_no_LF: "LF \<notin> set (int_to_string i)"
proof
  assume "LF \<in> set (int_to_string i)"
  then have "isdigit_c LF"
    using nat_to_string_digits by (auto simp: int_to_string_def LF_def split: if_splits)
  then show False by (simp add: isdigit_c_def LF_def)
qed

lemma dump_line_no_LF: "LF \<notin> set v \<Longrightarrow> LF \<notin> set (dump_line (k, v))"
  using int_to_string_no_LF by (auto simp: dump_line_def LF_def)

subsection \<open>Loading what was dumped\<close>

lemma map_op_add:
  "map_of (kvs) ++ map_op (Put k v) m = map_of ((k, v) # kvs) ++ m"
  by (auto simp: fun_eq_iff map_add_def split: option.splits)

abbreviation with_semicolon :: "int \<times> string \<Rightarrow> int \<times> string" where
  "with_semicolon kv \<equiv> (fst kv, snd kv @ '';'')"

lemma load_lines_dump:
  assumes "store_ok rnd s" and "\<forall>kv\<in>set kvs. int_key (fst kv)"
  shows "\<exists>s'. load_lines rnd (map dump_line kvs) kv0 s = Ok s' \<and> store_ok rnd s' \<and>
    contents_of s' = map_of (map with_semicolon kvs) ++ contents_of s"
  using assms
proof (induction kvs arbitrary: s kv0)
  case Nil
  then show ?case by simp
next
  case (Cons p kvs)
  obtain k v where p: "p = (k, v)" by (cases p)
  obtain r s1 where ins: "insert_element rnd k (v @ '';'') s = Ok (r, s1)" "store_ok rnd s1"
    "contents_of s1 = map_op (Put k (v @ '';'')) (contents_of s)"
    using sl.ins_total[OF Cons.prems(1)] by blast
  have "\<exists>s'. load_lines rnd (map dump_line kvs) (int_to_string k, v @ '';'') s1 = Ok s' \<and>
      store_ok rnd s' \<and> contents_of s' = map_of (map with_semicolon kvs) ++ contents_of s1"
    using Cons.IH[OF ins(2)] Cons.prems(2) by simp
  then obtain s' where "load_lines rnd (map dump_line kvs) (int_to_string k, v @ '';'') s1 = Ok s'"
    "store_ok rnd s'" "contents_of s' = map_of (map with_semicolon kvs) ++ contents_of s1" by blast
  moreover have "stoi (int_to_string k) = Ok k" using Cons.prems(2) p by (simp add: int_key_def)
  ultimately show ?case
    using ins map_op_add[of "map with_semicolon kvs" k "v @ '';''" "contents_of s"]
    by (simp add: p dump_line_read fun_upd_def)
qed

lemma wf_level_items: "wf_skiplist s \<Longrightarrow> level_items 0 s = Ok (items s)"
  using level_items_inv items_inv by (fastforce simp: wf_skiplist_def)

lemma dump_file_text:
  "wf_skiplist s \<Longrightarrow> writable d \<Longrightarrow>
     dump_file s d = Ok (d\<lparr>content := Some (concat (map (\<lambda>kv. dump_line kv @ [LF]) (items s)))\<rparr>)"
  by (simp add: dump_file_def wf_level_items)

definition plain_items :: "skiplist \<Rightarrow> bool" where
  "plain_items s \<longleftrightarrow> (\<forall>kv\<in>set (items s). int_key (fst kv) \<and> LF \<notin> set (snd kv))"

lemma getlines_dump:
  assumes "plain_items s"
  shows "getlines LF (concat (map (\<lambda>kv. dump_line kv @ [LF]) (items s))) = map dump_line (items s)"
proof -
  have "getlines LF (concat (map (\<lambda>l. l @ [LF]) (map dump_line (items s)))) =
      map dump_line (items s)"
    using assms dump_line_no_LF by (intro getlines_concat) (auto simp: plain_items_def)
  then show ?thesis by (simp add: comp_def)
qed

lemma map_of_with_semicolon:
  "map_of (map with_semicolon kvs) = map_option (\<lambda>v. v @ '';'') \<circ> map_of kvs"
  by (induction kvs) (auto simp: fun_eq_iff)

lemma load_of_dump:
  assumes "wf_skiplist s" "plain_items s" "store_ok rnd t" "reader_open t = False" "writable d"
    and "dump_file s d = Ok d'"
  shows "\<exists>t'. load_file rnd d' t = Ok t' \<and> store_ok rnd t' \<and> reader_open t' = False \<and>
    contents_of t' = (map_option (\<lambda>v. v @ '';'') \<circ> contents_of s) ++ contents_of t"
proof -
  have c: "content d' = Some (concat (map (\<lambda>kv. dump_line kv @ [LF]) (items s)))"
    using dump_file_text assms(1,5,6) by auto
  have "store_ok rnd (t\<lparr>reader_open := True\<rparr>)" using assms(3) by simp
  then obtain t1 where "load_lines rnd (map dump_line (items s)) ('''', '''')
        (t\<lparr>reader_open := True\<rparr>) = Ok t1" "store_ok rnd t1"
      "contents_of t1 = map_of (map with_semicolon (items s)) ++ contents_of t"
    using load_lines_dump[of rnd "t\<lparr>reader_open := True\<rparr>" "items s" "('''', '''')"] assms(2)
    by (auto simp: plain_items_def)
  then show ?thesis
    using assms(4) c getlines_dump[OF assms(2)] map_of_with_semicolon[of "items s"]
    by (simp add: load_file_def contents_of_def[of s])
qed

lemma set_map_of_eq:
  assumes "distinct (map fst xs)" "distinct (map fst ys)" "map_of xs = map_of ys"
  shows "set xs = set ys"
  using assms by (metis map_of_eqI map_of_inject_set)

lemma items_of_contents:
  assumes "wf_skiplist s" "sorted_wrt (<) (map fst kvs)" "contents_of s = map_of kvs"
  shows "items s = kvs"
proof -
  have *: "sorted (map fst xs) \<and> distinct (map fst xs)"
    if "sorted_wrt (<) (map fst xs)" for xs :: "(int \<times> string) list"
    using that by (simp add: strict_sorted_iff)
  have "set (items s) = set kvs"
    using assms * wf_sorted by (intro set_map_of_eq) (auto simp: contents_of_def)
  moreover have "inj_on fst (set (items s))"
    using *[OF wf_sorted[OF assms(1)]] by (simp add: distinct_map)
  ultimately show ?thesis
    using *[OF assms(2)] *[OF wf_sorted[OF assms(1)]]
    by (intro map_sorted_distinct_set_unique[of fst]) auto
qed

lemma load_into_empty:
  assumes "wf_skiplist s" "plain_items s" "store_ok rnd t" "reader_open t = False"
    and "items t = []" "writable d" "dump_file s d = Ok d'"
  obtains t' where "load_file rnd d' t = Ok t'" "store_ok rnd t'" "reader_open t' = False"
    "items t' = map with_semicolon (items s)"
proof -
  obtain t' where t': "load_file rnd d' t = Ok t'" "store_ok rnd t'" "reader_open t' = False"
    "contents_of t' = (map_option (\<lambda>v. v @ '';'') \<circ> contents_of s) ++ contents_of t"
    using load_of_dump[OF assms(1-4,6,7)] by blast
  have "items t' = map with_semicolon (items s)"
  proof (rule items_of_contents)
    show "sorted_wrt (<) (map fst (map with_semicolon (items s)))"
      using wf_sorted[OF assms(1)] by (simp add: comp_def)
    show "contents_of t' = map_of (map with_semicolon (items s))"
      using t'(4) assms(5) by (simp add: map_of_with_semicolon contents_of_def)
  qed (use t'(2) in \<open>simp add: store_ok_def\<close>)
  with t' that show ?thesis by blast
qed

lemma restart_Ok:
  assumes "store_ok rnd s" "plain_items s" "0 \<le> lvl" "writable d"
  obtains t where "restart rnd lvl d s = Ok t" "store_ok rnd t"
    "items t = map with_semicolon (items s)"
proof -
  have wf: "wf_skiplist s" "rand_fair rnd" using assms(1) by (simp_all add: store_ok_def)
  obtain s0 where s0: "SkipList_init lvl (rand_pos s) = Ok s0" "wf_skiplist s0" "items s0 = []"
    "reader_open s0 = False" using init_Ok[OF assms(3)] by blast
  obtain d' where d': "dump_file s d = Ok d'" using dump_file_text[OF wf(1) assms(4)] by blast
  have "store_ok rnd s0" using s0 wf by (simp add: store_ok_def)
  then obtain t where "load_file rnd d' s0 = Ok t" "store_ok rnd t"
      "items t = map with_semicolon (items s)"
    using load_into_empty[OF wf(1) assms(2) _ s0(4) s0(3) assms(4) d'] by blast
  with that s0(1) d' show ?thesis by (simp add: restart_def)
qed

subsection \<open>Properties\<close>

text \<open>
  C31. Persistence is not a round trip, even for a list whose keys are 32-bit numbers and whose values
  have no line end.  Dumping such a list and loading the file into a new one keeps every key and puts a
  semicolon behind every value, once per restart: after n restarts each value ends in n semicolons.
\<close>
theorem restarts_accumulate_semicolons:
  assumes "store_ok rnd s" and "plain_items s" and "0 \<le> lvl" and "writable d"
  shows "\<exists>t. restarts n rnd lvl d s = Ok t \<and>
    items t = map (\<lambda>kv. (fst kv, snd kv @ replicate n CHR '';'')) (items s)"
  using assms(1,2)
proof (induction n arbitrary: s)
  case (Suc n)
  obtain t1 where t1: "restart rnd lvl d s = Ok t1" "store_ok rnd t1"
    "items t1 = map with_semicolon (items s)" using restart_Ok[OF Suc.prems assms(3,4)] by blast
  have "plain_items t1" using Suc.prems(2) t1(3) by (auto simp: plain_items_def LF_def)
  from Suc.IH[OF t1(2) this] t1(1,3) show ?case by (auto simp: replicate_app_Cons_same)
qed simp

theorem restarts_accumulate_semicolons_witness:
  "\<exists>s0 s t. SkipList_init 4 0 = Ok s0 \<and> insert_element (\<lambda>_. 0) 7 ''x'' s0 = Ok (0, s) \<and>
    restarts 2 (\<lambda>_. 0) 4 \<lparr>content = None, writable = True\<rparr> s = Ok t \<and> items t = [(7, ''x;;'')]"
proof -
  have fair: "rand_fair (\<lambda>_. 0)" by (simp add: rand_fair_def rand_ends_def)
  obtain s0 where s0: "SkipList_init 4 0 = Ok s0" "wf_skiplist s0" "items s0 = []"
    using init_Ok[of 4 0] by auto
  with insert_absent[OF s0(2), of "\<lambda>_. 0" 7 "''x''"] fair obtain s where
    s: "insert_element (\<lambda>_. 0) 7 ''x'' s0 = Ok (0, s)" "wf_skiplist s" "items s = [(7, ''x'')]"
    by (auto simp: ins_sorted_def rand_fair_def)
  have "plain_items s" "store_ok (\<lambda>_. 0) s"
    using s fair by (simp_all add: plain_items_def int_key_def int_limits LF_def store_ok_def)
  from restarts_accumulate_semicolons[OF this(2,1), of 4 "\<lparr>content = None, writable = True\<rparr>" 2]
  show ?thesis using s0(1) s by (auto simp: numeral_2_eq_2)
qed

text \<open>
  C40. A value with a line end in it, which SET accepts, does not survive.  When what follows the line end has
  no colon, a restart leaves the part before it, without even the semicolon.
\<close>
theorem line_feed_cuts_value:
  assumes "store_ok rnd s" and "items s = [(k, a @ LF # b)]" and "int_key k" and "a \<noteq> []"
    and "LF \<notin> set a \<and> LF \<notin> set b \<and> CHR '':'' \<notin> set b" and "0 \<le> lvl" and "writable d"
  shows "\<exists>t. restart rnd lvl d s = Ok t \<and> items t = [(k, a)]"
proof -
  have wf: "wf_skiplist s" "rand_fair rnd" using assms(1) by (simp_all add: store_ok_def)
  obtain s0 where s0: "SkipList_init lvl (rand_pos s) = Ok s0" "wf_skiplist s0" "items s0 = []"
    "reader_open s0 = False" using init_Ok[OF assms(6)] by blast
  let ?s = "s0\<lparr>reader_open := True\<rparr>" and ?x = "int_to_string k @ '':'' @ a" and ?y = "b @ '';''"
  have "store_ok rnd s0" "contents_of s0 = Map.empty" using s0 wf(2) by (simp_all add: store_ok_def contents_of_def)
  then have ok: "store_ok rnd ?s" "contents_of ?s = Map.empty" by simp_all
  from sl.ins_total[OF ok(1), of k a] obtain r s1 where s1: "insert_element rnd k a ?s = Ok (r, s1)"
    "store_ok rnd s1" "contents_of s1 = [k \<mapsto> a]" using ok(2) by auto
  have is1: "items s1 = [(k, a)]" using s1(2,3) by (intro items_of_contents) (simp_all add: store_ok_def)
  then have again: "insert_element rnd k a s1 = Ok (1, s1)"
    using insert_present[of s1 k rnd a] s1(2) by (simp add: store_ok_def)
  have "getlines LF (concat (map (\<lambda>l. l @ [LF]) [?x, ?y])) = [?x, ?y]"
    using assms(5) int_to_string_no_LF[of k] by (intro getlines_concat) (auto simp: LF_def)
  moreover have "dump_file s d = Ok (d\<lparr>content := Some (concat (map (\<lambda>l. l @ [LF]) [?x, ?y]))\<rparr>)"
    using dump_file_text[OF wf(1) assms(7)] by (simp add: assms(2) dump_line_def)
  moreover have "get_key_value_from_string ?x kv = (int_to_string k, a)" for kv
    using split_at_colon[OF int_to_string_no_colon[of k], of a kv] by simp
  moreover have "get_key_value_from_string ?y kv = kv" for kv
    using assms(5) find_char_None[of "CHR '':''" ?y] by (simp add: get_key_value_from_string_def is_valid_string_def)
  moreover have "stoi (int_to_string k) = Ok k" using assms(3) by (simp add: int_key_def)
  moreover have "int_to_string k \<noteq> []" by simp
  ultimately have "restart rnd lvl d s = Ok (s1\<lparr>reader_open := False\<rparr>)"
    using s0(1,4) s1(1) again assms(4) by (simp add: restart_def load_file_def Let_def del: concat.simps list.map)
  then show ?thesis using is1 by simp
qed

theorem line_feed_cuts_value_witness:
  "\<exists>s t. items s = [(7, ''ab'' @ LF # ''cd'')] \<and>
    restart (\<lambda>_. 0) 4 \<lparr>content = None, writable = True\<rparr> s = Ok t \<and> items t = [(7, ''ab'')]"
proof -
  have fair: "rand_fair (\<lambda>_. 0)" by (simp add: rand_fair_def rand_ends_def)
  obtain s0 where "wf_skiplist s0" "items s0 = []" using init_Ok[of 4 0] by auto
  with insert_absent[of s0 "\<lambda>_. 0" 7 "''ab'' @ LF # ''cd''"] fair obtain s where
    s: "wf_skiplist s" "items s = [(7, ''ab'' @ LF # ''cd'')]" by (auto simp: ins_sorted_def rand_fair_def)
  have "\<exists>t. restart (\<lambda>_. 0) 4 \<lparr>content = None, writable = True\<rparr> s = Ok t \<and> items t = [(7, ''ab'')]"
    by (rule line_feed_cuts_value[OF _ s(2)]) (use s(1) fair in \<open>simp_all add: store_ok_def int_key_def int_limits LF_def\<close>)
  with s(2) show ?thesis by blast
qed

text \<open>
  Loading merges and never updates.  Loading a dump of s into a list t keeps what t holds
  under the keys of t and adds the dumped pairs (with their semicolons) under the others.
\<close>
theorem load_keeps_present_keys:
  assumes "wf_skiplist s" and "plain_items s" and "store_ok rnd t" and "reader_open t = False"
    and "writable d" and "dump_file s d = Ok d'"
  shows "\<exists>t'. load_file rnd d' t = Ok t' \<and>
    (\<forall>k v. contents_of t' k = Some v \<longleftrightarrow>
      contents_of t k = Some v \<or>
      contents_of t k = None \<and> (\<exists>w. contents_of s k = Some w \<and> v = w @ '';''))"
  using load_of_dump[OF assms] by (auto simp: map_add_def split: option.splits)

theorem load_keeps_present_keys_witness:
  "\<exists>t s d' t'. SkipList_init 4 0 = Ok t \<and> insert_element (\<lambda>_. 0) 7 ''x'' t = Ok (0, s) \<and>
    dump_file s \<lparr>content = None, writable = True\<rparr> = Ok d' \<and> load_file (\<lambda>_. 0) d' s = Ok t' \<and>
    contents_of t' 7 = Some ''x''"
proof -
  have fair: "rand_fair (\<lambda>_. 0)" by (simp add: rand_fair_def rand_ends_def)
  obtain t where t: "SkipList_init 4 0 = Ok t" "wf_skiplist t" "items t = []" "reader_open t = False"
    using init_Ok[of 4 0] by auto
  with insert_absent[OF t(2), of "\<lambda>_. 0" 7 "''x''"] fair obtain s where
    s: "insert_element (\<lambda>_. 0) 7 ''x'' t = Ok (0, s)" "wf_skiplist s" "items s = [(7, ''x'')]"
    by (auto simp: ins_sorted_def rand_fair_def)
  have ok: "plain_items s" "store_ok (\<lambda>_. 0) s"
    using s fair by (simp_all add: plain_items_def int_key_def int_limits LF_def store_ok_def)
  have r: "reader_open s = False" using insert_element_reader[OF s(1)] t(4) by simp
  have d: "dump_file s \<lparr>content = None, writable = True\<rparr> = Ok (\<lparr>content = None, writable = True\<rparr>
      \<lparr>content := Some (concat (map (\<lambda>kv. dump_line kv @ [LF]) (items s)))\<rparr>)"
    by (rule dump_file_text[OF s(2)]) simp
  have "contents_of s 7 = Some ''x''" by (simp add: contents_of_def s(3))
  with load_keeps_present_keys[OF s(2) ok r _ d] t(1) s(1) d show ?thesis by auto
qed

lemma load_lines_append:
  "load_lines rnd ls kv s = Ok s' \<Longrightarrow>
    load_lines rnd (ls @ ls') kv s =
      load_lines rnd ls' (foldl (\<lambda>kv l. get_key_value_from_string l kv) kv ls) s'"
proof (induction ls arbitrary: kv s)
  case (Cons l ls)
  obtain k v where "get_key_value_from_string l kv = (k, v)" by fastforce
  with Cons show ?case by (auto simp: Let_def split: outcome.splits if_splits)
qed simp

lemma load_lines_reader:
  "load_lines rnd ls kv s = Ok s' \<Longrightarrow> reader_open s' = reader_open s"
proof (induction ls arbitrary: kv s)
  case (Cons l ls)
  then show ?case
    by (simp add: Let_def insert_element_reader split: outcome.splits if_splits prod.splits)
qed simp

text \<open>
  A malformed key aborts a load half way and disables the next one.  When a line has a
  nonempty part before its colon that \<^verbatim>\<open>stoi\<close> rejects, the load throws after the lines before it
  were inserted, the rest of the file is not read, and since the reader is still open the next
  load, of whatever file, reads nothing.
\<close>
theorem load_failure_blocks_next_load:
  assumes "store_ok rnd s" and "reader_open s = False"
    and "content d = Some (concat (map (\<lambda>l. l @ [LF]) (map dump_line kvs @ (a @ '':'' @ b) # rest)))"
    and "\<forall>l\<in>set (map dump_line kvs @ (a @ '':'' @ b) # rest). LF \<notin> set l"
    and "\<forall>kv\<in>set kvs. int_key (fst kv)"
    and "stoi a = Throw e" and "a \<noteq> []" and "b \<noteq> []" and "CHR '':'' \<notin> set a"
  shows "\<exists>s'. load_file rnd d s = Throw (e, s') \<and>
    contents_of s' = map_of (map with_semicolon kvs) ++ contents_of s \<and>
    load_file rnd d2 s' = Ok (s'\<lparr>reader_open := False\<rparr>)"
proof -
  let ?s = "s\<lparr>reader_open := True\<rparr>" and ?ls = "map dump_line kvs"
  have "store_ok rnd ?s" using assms(1) by simp
  then obtain s' where s': "load_lines rnd ?ls ('''', '''') ?s = Ok s'"
    "contents_of s' = map_of (map with_semicolon kvs) ++ contents_of s"
    using load_lines_dump[of rnd ?s kvs "('''', '''')"] assms(5) by auto
  obtain kv where kv: "load_lines rnd (?ls @ (a @ '':'' @ b) # rest) ('''', '''') ?s =
      load_lines rnd ((a @ '':'' @ b) # rest) kv s'"
    using load_lines_append[OF s'(1)] by blast
  have "get_key_value_from_string (a @ '':'' @ b) kv = (a, b)"
    using split_at_colon[OF assms(9), of b kv] by simp
  then have "load_lines rnd ((a @ '':'' @ b) # rest) kv s' = Throw (e, s')"
    using assms(6-8) by (simp add: Let_def)
  moreover have "getlines LF (the (content d)) = ?ls @ (a @ '':'' @ b) # rest"
    unfolding assms(3) option.sel by (rule getlines_concat) (use assms(4) in blast)
  ultimately have "load_file rnd d s = Throw (e, s')"
    using kv assms(2,3) by (simp add: load_file_def)
  moreover have "reader_open s'" using load_lines_reader[OF s'(1)] by simp
  ultimately show ?thesis using s'(2) by (auto simp: load_file_def)
qed

theorem load_failure_blocks_next_load_witness:
  "\<exists>s s'. SkipList_init 4 0 = Ok s \<and>
    load_file (\<lambda>_. 0) \<lparr>content = Some (''x:1'' @ [LF]), writable = True\<rparr> s =
      Throw (Std_exception ''stoi'', s') \<and>
    load_file (\<lambda>_. 0) \<lparr>content = Some (''1:1'' @ [LF]), writable = True\<rparr> s' =
      Ok (s'\<lparr>reader_open := False\<rparr>)"
proof -
  have fair: "rand_fair (\<lambda>_. 0)" by (simp add: rand_fair_def rand_ends_def)
  obtain s where s: "SkipList_init 4 0 = Ok s" "wf_skiplist s" "reader_open s = False"
    using init_Ok[of 4 0] by auto
  then have ok: "store_ok (\<lambda>_. 0) s" using fair by (simp add: store_ok_def)
  have bad: "stoi ''x'' = Throw (Std_exception ''stoi'')"
    by (simp add: stoi_def strtol_def Let_def isspace_c_def isdigit_c_def)
  from load_failure_blocks_next_load[OF ok s(3), of "\<lparr>content = Some (''x:1'' @ [LF]), writable = True\<rparr>"
      "[]" "''x''" "''1''" "[]" "Std_exception ''stoi''" "\<lparr>content = Some (''1:1'' @ [LF]), writable = True\<rparr>"]
  show ?thesis using s(1) bad by (auto simp: LF_def)
qed

subsection \<open>display_list shows the same line for every level\<close>

fun level_lines :: "nat \<Rightarrow> string \<Rightarrow> string" where
  "level_lines 0 line = ''''"
| "level_lines (Suc i) line = ''Level '' @ nat_to_string i @ '': '' @ line @ [LF] @ level_lines i line"

lemma display_levels_wf:
  assumes "nodes_inv s xs"
  shows "n \<le> Suc (nat (max_level s)) \<Longrightarrow>
    display_levels n s = Ok (level_lines n (display_pairs (items s)))"
  by (induction n) (simp_all add: level_items_inv[OF assms] items_inv[OF assms])

lemma display_list_wf:
  "wf_skiplist s \<Longrightarrow>
    display_list s = Ok (level_lines (nat (max_level s + 1)) (display_pairs (items s)))"
  using display_levels_wf[of s _ "nat (max_level s + 1)"]
  by (auto simp: wf_skiplist_def display_list_def nodes_inv_def nat_add_distrib)

end
