(* ===== verification/RedisProtocol.thy ===== *)
theory RedisProtocol
  imports CppString
begin

section \<open>The RESP codec (network/redis_protocol.h, network/redis_protocol.cpp)\<close>

text \<open>
  A \<^verbatim>\<open>RedisValue\<close> is a variant of a string, a 64-bit integer and a vector of shared pointers;
  a null pointer in a vector is None.  Simple strings, errors and bulk strings all parse to the
  string alternative.  A function that returns a null \<^verbatim>\<open>RedisValuePtr\<close> returns None; the
  exceptions of \<^verbatim>\<open>stoll\<close> are caught where the code catches them.  Positions are \<^verbatim>\<open>size_t\<close>: sums
  of a position inside the data and a length below \<open>2 ^ 63\<close> do not wrap, so they are naturals.
\<close>

datatype redis_type =
  SIMPLE_STRING | ERROR | INTEGER | BULK_STRING | ARRAY | NULL_BULK_STRING

datatype resp = RString string | RInteger int | RArray "resp option list"

record redis_command =
  command :: string
  arguments :: "string list"

definition empty_command :: redis_command where
  "empty_command = \<lparr>command = '''', arguments = []\<rparr>"

subsection \<open>Creating replies\<close>

definition createSimpleString :: "string \<Rightarrow> string" where
  "createSimpleString str = ''+'' @ str @ CRLF"

definition createError :: "string \<Rightarrow> string" where
  "createError err = ''-'' @ err @ CRLF"

definition createInteger :: "int \<Rightarrow> string" where
  "createInteger v = '':'' @ int_to_string v @ CRLF"

definition createBulkString :: "string \<Rightarrow> string" where
  "createBulkString str = ''$'' @ nat_to_string (length str) @ CRLF @ str @ CRLF"

definition createNullBulkString :: string where
  "createNullBulkString = ''$-1'' @ CRLF"

definition createArray :: "string list \<Rightarrow> string" where
  "createArray values = ''*'' @ nat_to_string (length values) @ CRLF @ concat (map createBulkString values)"

definition createEmptyArray :: string where
  "createEmptyArray = ''*0'' @ CRLF"

text \<open>An array becomes an array of bulk strings that hold the serialized elements.\<close>

fun serialize :: "resp \<Rightarrow> string" and serialize_items :: "resp option list \<Rightarrow> string list" where
  "serialize (RString s) = createBulkString s"
| "serialize (RInteger i) = createInteger i"
| "serialize (RArray items) = createArray (serialize_items items)"
| "serialize_items [] = []"
| "serialize_items (None # xs) = serialize_items xs"
| "serialize_items (Some v # xs) = serialize v # serialize_items xs"

subsection \<open>Reading\<close>

text \<open>\<^verbatim>\<open>readLine\<close>: up to a carriage return; the line end is skipped only when both bytes are there.\<close>

definition readLine :: "string \<Rightarrow> nat \<Rightarrow> string \<times> nat" where
  "readLine data pos =
     (let line = takeWhile (\<lambda>c. c \<noteq> CR) (drop pos data);
          p = pos + length line
      in (line, if p + 1 < length data \<and> data ! p = CR \<and> data ! (p + 1) = LF then p + 2 else p))"

definition readBytes :: "string \<Rightarrow> nat \<Rightarrow> nat \<Rightarrow> string \<times> nat" where
  "readBytes data pos len =
     (if pos + len > length data then ('''', pos)
      else (take len (drop pos data), pos + len))"

definition parseSimpleString :: "string \<Rightarrow> resp option" where
  "parseSimpleString data = Some (RString (fst (readLine data 1)))"

definition parseError :: "string \<Rightarrow> resp option" where
  "parseError data = Some (RString (fst (readLine data 1)))"

definition parseInteger :: "string \<Rightarrow> resp option" where
  "parseInteger data =
     (case stoll (fst (readLine data 1)) of Ok v \<Rightarrow> Some (RInteger v) | _ \<Rightarrow> None)"

text \<open>
  The position each of these functions leaves in its reference parameter is not read by \<^verbatim>\<open>parse\<close>,
  which owns it, so only the value is kept.
\<close>

definition parseBulkString :: "string \<Rightarrow> resp option" where
  "parseBulkString data =
     (let (length_str, pos) = readLine data 1
      in if length_str = ''-1'' then None
         else case stoll length_str of
                Ok len \<Rightarrow> if len < 0 \<or> pos + nat len + 2 > length data then None
                          else Some (RString (fst (readBytes data pos (nat len))))
              | _ \<Rightarrow> None)"

text \<open>
  \<^verbatim>\<open>parse\<close> and the loop of \<^verbatim>\<open>parseArray\<close>, which moves on by the length of what it would itself
  write for the value it has just read.
\<close>

function (sequential) parse :: "string \<Rightarrow> resp option"
  and parse_elems :: "string \<Rightarrow> nat \<Rightarrow> nat \<Rightarrow> resp list" where
  "parse [] = None"
| "parse (t # data) =
     (if t = CHR ''+'' then parseSimpleString (t # data)
      else if t = CHR ''-'' then parseError (t # data)
      else if t = CHR '':'' then parseInteger (t # data)
      else if t = CHR ''$'' then parseBulkString (t # data)
      else if t = CHR ''*'' then
        (case readLine (t # data) 1 of (length_str, pos) \<Rightarrow>
           case stoll length_str of
             Ok len \<Rightarrow> if len < 0 then None
                       else Some (RArray (map Some (parse_elems (t # data) pos (nat len))))
           | _ \<Rightarrow> None)
      else None)"
| "parse_elems data pos 0 = []"
| "parse_elems data pos (Suc n) =
     (if pos \<ge> length data then []
      else case parse (drop pos data) of
             None \<Rightarrow> []
           | Some v \<Rightarrow> v # parse_elems data (pos + length (serialize v)) n)"
  by pat_completeness auto

lemma readLine_ge: "readLine data pos = (l, p) \<Longrightarrow> pos \<le> p"
  by (auto simp: readLine_def Let_def split: if_splits)

termination parse
  by (relation "measures [case_sum length (\<lambda>(d, p, n). length d - p),
        case_sum (\<lambda>_. 0) (\<lambda>_. 1), case_sum (\<lambda>_. 0) (\<lambda>(d, p, n). n)]")
    (auto dest!: readLine_ge[OF sym])

declare parse.simps(2) [simp del] parse_elems.simps(2) [simp del]

definition isValidRESP :: "string \<Rightarrow> bool" where
  "isValidRESP data = (case data of [] \<Rightarrow> False
     | t # _ \<Rightarrow> t = CHR ''+'' \<or> t = CHR ''-'' \<or> t = CHR '':'' \<or> t = CHR ''$'' \<or> t = CHR ''*'')"

fun getTypeString :: "redis_type \<Rightarrow> string" where
  "getTypeString SIMPLE_STRING = ''Simple String''"
| "getTypeString ERROR = ''Error''"
| "getTypeString INTEGER = ''Integer''"
| "getTypeString BULK_STRING = ''Bulk String''"
| "getTypeString ARRAY = ''Array''"
| "getTypeString NULL_BULK_STRING = ''Null Bulk String''"

subsection \<open>parseCommand\<close>

fun string_elems :: "resp option list \<Rightarrow> string list" where
  "string_elems [] = []"
| "string_elems (Some (RString s) # xs) = s # string_elems xs"
| "string_elems (_ # xs) = string_elems xs"

definition parseCommand :: "string \<Rightarrow> redis_command" where
  "parseCommand data =
     (case parse data of
        Some (RArray (x # xs)) \<Rightarrow>
          \<lparr>command = (case x of Some (RString s) \<Rightarrow> map toupper_c s | _ \<Rightarrow> ''''),
           arguments = string_elems xs\<rparr>
      | _ \<Rightarrow> empty_command)"

subsection \<open>Lines\<close>

lemma readLine_line:
  assumes "CR \<notin> set l"
  shows "readLine (a @ l @ CRLF @ r) (length a) = (l, length a + length l + 2)"
proof -
  have "takeWhile (\<lambda>c. c \<noteq> CR) (l @ CRLF @ r) = l @ takeWhile (\<lambda>c. c \<noteq> CR) (CRLF @ r)"
    using assms by (intro takeWhile_append2) auto
  then have l: "takeWhile (\<lambda>c. c \<noteq> CR) (l @ CRLF @ r) = l" by (simp add: CRLF_def)
  have "(a @ l @ CRLF @ r) ! (length a + length l) = CR"
    "(a @ l @ CRLF @ r) ! (length a + length l + 1) = LF"
    by (simp_all add: nth_append CRLF_def)
  then show ?thesis using l by (simp add: readLine_def Let_def CRLF_def)
qed

lemma readLine_1: "CR \<notin> set l \<Longrightarrow> readLine (t # l @ CRLF @ r) 1 = (l, Suc (length l) + 2)"
  using readLine_line[of l "[t]" r] by simp

lemma nat_to_string_no_CR: "CR \<notin> set (nat_to_string n)"
  using nat_to_string_digits by blast

lemma nat_to_string_not_minus: "nat_to_string n \<noteq> CHR ''-'' # s"
  using nat_to_string_hd(1)[of n] by (metis list.sel(1))

subsection \<open>Each reply parses back\<close>

lemma parse_CR: "parse (CR # xs) = None"
  by (simp add: parse.simps(2) CR_def)

lemma parse_simple: "parse (createSimpleString s @ r) = Some (RString s)" if "CR \<notin> set s"
  using readLine_1[OF that, of "CHR ''+''" r]
  by (simp add: createSimpleString_def parse.simps(2) parseSimpleString_def)

lemma parse_error: "parse (createError s @ r) = Some (RString s)" if "CR \<notin> set s"
  using readLine_1[OF that, of "CHR ''-''" r]
  by (simp add: createError_def parse.simps(2) parseError_def)

definition int64 :: "int \<Rightarrow> bool" where
  "int64 i \<longleftrightarrow> int64_min \<le> i \<and> i \<le> int64_max"

lemma parse_integer: "parse (createInteger i @ r) = Some (RInteger i)" if "int64 i"
  using readLine_1[OF int_to_string_no_CR[of i], of "CHR '':''" r] that
  by (simp add: createInteger_def parse.simps(2) parseInteger_def int64_def)

lemma parse_null: "parse (createNullBulkString @ r) = None"
  using readLine_1[of "''-1''" "CHR ''$''" r]
  by (simp add: createNullBulkString_def parse.simps(2) parseBulkString_def CR_def)

lemma parse_bulk:
  assumes "int (length s) \<le> int64_max"
  shows "parse (createBulkString s @ r) = Some (RString s)"
proof -
  let ?n = "nat_to_string (length s)"
  have "readLine (CHR ''$'' # ?n @ CRLF @ s @ CRLF @ r) 1 = (?n, Suc (length ?n) + 2)"
    using readLine_1[OF nat_to_string_no_CR] by blast
  then show ?thesis
    using assms nat_to_string_not_minus[of "length s"]
    by (simp add: createBulkString_def parse.simps(2) parseBulkString_def readBytes_def CRLF_def)
qed

subsection \<open>Arrays of framed elements\<close>

text \<open>
  \<^verbatim>\<open>parseArray\<close> finds the next element by the length of its own rendering of the last one.  It is
  in step with the input exactly for element encodings that are the rendering: the locale
  \<^verbatim>\<open>framed\<close> states it for an encoding enc of elements of type 'a with values val.
\<close>

locale framed =
  fixes enc :: "'a \<Rightarrow> string" and val :: "'a \<Rightarrow> resp" and ok :: "'a \<Rightarrow> bool"
  assumes parse_enc: "ok x \<Longrightarrow> parse (enc x @ r) = Some (val x)"
    and serialize_val: "ok x \<Longrightarrow> serialize (val x) = enc x"
begin

lemma enc_not_Nil: "ok x \<Longrightarrow> enc x \<noteq> []"
  using parse_enc[of x "[]"] by auto

lemma parse_elems_framed:
  assumes "\<forall>x\<in>set xs. ok x"
  shows "parse_elems (pre @ concat (map enc xs) @ r) (length pre) (length xs + m) =
    map val xs @ parse_elems (pre @ concat (map enc xs) @ r) (length (pre @ concat (map enc xs))) m"
  using assms
proof (induction xs arbitrary: pre)
  case (Cons x xs)
  have x: "ok x" using Cons.prems by simp
  have "parse (enc x @ concat (map enc xs) @ r) = Some (val x)" by (rule parse_enc[OF x])
  moreover have "length pre < length (pre @ enc x)" using enc_not_Nil[OF x] by simp
  ultimately have "parse_elems (pre @ concat (map enc (x # xs)) @ r) (length pre) (length (x # xs) + m) =
      val x # parse_elems ((pre @ enc x) @ concat (map enc xs) @ r) (length (pre @ enc x)) (length xs + m)"
    by (simp add: parse_elems.simps(2) serialize_val[OF x])
  then show ?case using Cons.IH[of "pre @ enc x"] Cons.prems by simp
qed simp

end

definition array_header :: "nat \<Rightarrow> string" where
  "array_header n = ''*'' @ nat_to_string n @ CRLF"

lemma parse_array_header:
  assumes "int n \<le> int64_max"
  shows "parse (array_header n @ r) =
    Some (RArray (map Some (parse_elems (array_header n @ r) (length (array_header n)) n)))"
proof -
  let ?n = "nat_to_string n"
  have "readLine (CHR ''*'' # ?n @ CRLF @ r) 1 = (?n, Suc (length ?n) + 2)"
    using readLine_1[OF nat_to_string_no_CR] by blast
  then show ?thesis
    using assms by (simp add: array_header_def parse.simps(2) CRLF_def)
qed

lemma length_array_header: "1 < length (array_header n)"
  by (simp add: array_header_def)

context framed begin

text \<open>n elements are announced, the first of them are well framed, the rest of the data is r.\<close>

lemma parse_framed_array:
  fixes r :: string
  assumes "\<forall>x\<in>set xs. ok x" and "int (length xs + m) \<le> int64_max"
  defines "data \<equiv> array_header (length xs + m) @ concat (map enc xs) @ r"
  shows "parse data = Some (RArray (map Some (map val xs @
    parse_elems data (length data - length r) m)))"
  using parse_elems_framed[OF assms(1), of "array_header (length xs + m)" r m]
    parse_array_header[OF assms(2), of "concat (map enc xs) @ r"]
  by (simp add: data_def)

lemma parse_framed_all:
  assumes "\<forall>x\<in>set xs. ok x" and "int (length xs) \<le> int64_max"
  shows "parse (array_header (length xs) @ concat (map enc xs) @ r) =
    Some (RArray (map (Some \<circ> val) xs))"
  using parse_framed_array[of xs 0 r] assms by simp

text \<open>What follows the well framed elements does not parse: the array ends there.\<close>

lemma parse_framed_stops:
  assumes "\<forall>x\<in>set xs. ok x" and "int (length xs + m) \<le> int64_max" and "parse r = None"
  shows "parse (array_header (length xs + m) @ concat (map enc xs) @ r) =
    Some (RArray (map (Some \<circ> val) xs))"
proof -
  have "parse_elems (pre @ r) (length pre) m = []" for pre
    using assms(3) by (cases m) (auto simp: parse_elems.simps(2))
  then have "parse_elems (array_header (length xs + m) @ concat (map enc xs) @ r)
      (length (array_header (length xs + m) @ concat (map enc xs))) m = []"
    by (metis append_assoc)
  then show ?thesis using parse_framed_array[OF assms(1,2), of r] by simp
qed

end

text \<open>Bulk strings and integers are framed; simple strings and arrays are not.\<close>

definition short :: "string \<Rightarrow> bool" where
  "short s \<longleftrightarrow> int (length s) \<le> int64_max"

interpretation bulk: framed createBulkString RString short
  by unfold_locales (simp_all add: short_def parse_bulk)

interpretation ints: framed createInteger RInteger int64
  by unfold_locales (simp_all add: parse_integer)

fun flat :: "resp \<Rightarrow> bool" where
  "flat (RString s) = short s"
| "flat (RInteger i) = int64 i"
| "flat (RArray xs) = False"

interpretation flat: framed serialize "\<lambda>v. v" flat
proof
  fix x r assume "flat x"
  then show "parse (serialize x @ r) = Some x"
    by (cases x) (simp_all add: short_def parse_bulk parse_integer)
qed simp

lemma createArray_header: "createArray xs = array_header (length xs) @ concat (map createBulkString xs)"
  by (simp add: createArray_def array_header_def)

lemma string_elems_strings [simp]: "string_elems (map (Some \<circ> RString) xs) = xs"
  by (induction xs) auto

lemma serialize_items_strings [simp]:
  "serialize_items (map (Some \<circ> RString) xs) = map createBulkString xs"
  by (induction xs) auto

lemma parse_createArray:
  assumes "\<forall>x\<in>set xs. short x" "int (length xs) \<le> int64_max"
  shows "parse (createArray xs @ r) = Some (RArray (map (Some \<circ> RString) xs))"
  using bulk.parse_framed_all[OF assms, of r] by (simp add: createArray_header)

subsection \<open>A cut bulk string does not parse\<close>

lemma readLine_no_line:
  assumes "CR \<notin> set l" "r = [] \<or> r = [CR]"
  shows "readLine (t # l @ r) 1 = (l, Suc (length l))"
proof -
  have "takeWhile (\<lambda>c. c \<noteq> CR) (l @ r) = l @ takeWhile (\<lambda>c. c \<noteq> CR) r"
    using assms(1) by (intro takeWhile_append2) auto
  then have "takeWhile (\<lambda>c. c \<noteq> CR) (l @ r) = l" using assms(2) by auto
  then show ?thesis using assms(2) by (auto simp: readLine_def Let_def)
qed

lemma parse_cut_header:
  assumes "CR \<notin> set l" "r = [] \<or> r = [CR]"
  shows "parse (CHR ''$'' # l @ r) = None"
proof -
  have "length r < 2" using assms(2) by auto
  then show ?thesis using readLine_no_line[OF assms, of "CHR ''$''"]
    by (auto simp: parse.simps(2) parseBulkString_def split: outcome.splits)
qed

lemma take_prefix_cases:
  assumes "m < length (a @ b)"
  obtains "m < length a" "take m (a @ b) = take m a"
  | m' where "m = length a + m'" "m' < length b" "take m (a @ b) = a @ take m' b"
proof (cases "m < length a")
  case False
  then have "m = length a + (m - length a)" "m - length a < length b" using assms by auto
  with that(2) show ?thesis by auto
qed (use that(1) in simp)

lemma parse_cut_bulk:
  assumes "m < length (createBulkString s)" "short s"
  shows "parse (take m (createBulkString s)) = None"
proof (cases m)
  case (Suc j)
  let ?n = "nat_to_string (length s)"
  have j: "j < length (?n @ CRLF @ s @ CRLF)"
    "take m (createBulkString s) = CHR ''$'' # take j (?n @ CRLF @ s @ CRLF)"
    using assms(1) Suc by (simp_all add: createBulkString_def)
  from take_prefix_cases[OF j(1)] show ?thesis
  proof cases
    case 1
    have "CR \<notin> set (take j ?n)" using nat_to_string_no_CR by (meson in_set_takeD)
    with 1 show ?thesis using parse_cut_header[of "take j ?n" "[]"] j(2) by simp
  next
    case (2 j')
    show ?thesis
    proof (cases "j' < 2")
      case True
      then have "take j' (CRLF @ s @ CRLF) = [] \<or> take j' (CRLF @ s @ CRLF) = [CR]"
        by (cases j') (auto simp: CRLF_def less_Suc_eq)
      then show ?thesis using parse_cut_header[OF nat_to_string_no_CR] 2 j(2) by simp
    next
      case False
      then obtain i where i: "j' = 2 + i" by (metis le_Suc_ex not_less)
      have "take j' (CRLF @ s @ CRLF) = CRLF @ take i (s @ CRLF)" using i by (simp add: CRLF_def)
      moreover have "i < length s + 2" using 2(2) i by (simp add: CRLF_def)
      moreover have "readLine (CHR ''$'' # ?n @ CRLF @ take i (s @ CRLF)) 1 = (?n, Suc (length ?n) + 2)"
        by (rule readLine_1[OF nat_to_string_no_CR])
      ultimately show ?thesis
        using 2 j(2) assms(2) by (auto simp: parse.simps(2) parseBulkString_def short_def CRLF_def)
    qed
  qed
qed simp

lemma take_concat_map:
  assumes "m < length (concat (map f xs))"
  shows "\<exists>k j. k < length xs \<and> j < length (f (xs ! k)) \<and>
    m = length (concat (map f (take k xs))) + j \<and>
    take m (concat (map f xs)) = concat (map f (take k xs)) @ take j (f (xs ! k))"
  using assms
proof (induction xs arbitrary: m)
  case (Cons x xs)
  show ?case
  proof (cases "m < length (f x)")
    case True
    then show ?thesis by (intro exI[of _ 0] exI[of _ m]) simp
  next
    case False
    then have "m - length (f x) < length (concat (map f xs))" using Cons.prems by auto
    from Cons.IH[OF this] obtain k j where "k < length xs" "j < length (f (xs ! k))"
      "m - length (f x) = length (concat (map f (take k xs))) + j"
      "take (m - length (f x)) (concat (map f xs)) = concat (map f (take k xs)) @ take j (f (xs ! k))"
      by blast
    then show ?thesis using False by (intro exI[of _ "Suc k"] exI[of _ j]) auto
  qed
qed simp

lemma cut_prefix_bounds:
  assumes "\<forall>x\<in>set xs. short x" and "int (length xs) \<le> int64_max"
    and "length (array_header (length xs)) \<le> m" and "m < length (createArray xs)"
  shows "\<exists>k < length xs. parse (take m (createArray xs)) = Some (RArray (map (Some \<circ> RString) (take k xs)))
    \<and> length (array_header (length xs) @ concat (map createBulkString (take k xs))) \<le> m
    \<and> m < length (array_header (length xs) @ concat (map createBulkString (take (Suc k) xs)))"
proof -
  let ?h = "array_header (length xs)"
  obtain i where i: "m = length ?h + i" using assms(3) le_Suc_ex by blast
  then have "i < length (concat (map createBulkString xs))"
    using assms(4) by (simp add: createArray_header)
  from take_concat_map[OF this] obtain k j where k: "k < length xs" "j < length (createBulkString (xs ! k))"
    "i = length (concat (map createBulkString (take k xs))) + j"
    "take i (concat (map createBulkString xs)) =
      concat (map createBulkString (take k xs)) @ take j (createBulkString (xs ! k))"
    by blast
  have n: "length (take k xs) + (length xs - k) = length xs" using k(1) by simp
  have "parse (take j (createBulkString (xs ! k))) = None"
    using parse_cut_bulk[OF k(2)] assms(1) k(1) by simp
  moreover have "\<forall>x\<in>set (take k xs). short x" using assms(1) by (meson in_set_takeD)
  ultimately have "parse (take m (createArray xs)) = Some (RArray (map (Some \<circ> RString) (take k xs)))"
    using bulk.parse_framed_stops[of "take k xs" "length xs - k"] assms(2) n i k(4)
    by (simp add: createArray_header)
  then show ?thesis using k i by (intro exI[of _ k]) (auto simp: take_Suc_conv_app_nth)
qed

lemma cut_prefix:
  assumes "\<forall>x\<in>set xs. short x" "int (length xs) \<le> int64_max"
    and "length (array_header (length xs)) \<le> m" "m < length (createArray xs)"
  shows "\<exists>k < length xs. parse (take m (createArray xs)) = Some (RArray (map (Some \<circ> RString) (take k xs)))"
  using cut_prefix_bounds[OF assms] by blast

subsection \<open>Properties\<close>

text \<open>
  Round trip of arrays.  An array header for n elements followed by the renderings of n
  strings and integers parses to exactly those elements; bytes that follow (a pipelined second
  request) are dropped.
\<close>
theorem flat_array_roundtrip:
  assumes "\<forall>v\<in>set vs. flat v" and "int (length vs) \<le> int64_max"
  shows "parse (array_header (length vs) @ concat (map serialize vs) @ rest) =
    Some (RArray (map Some vs))"
  using flat.parse_framed_all[OF assms, of rest] by (simp add: comp_def)

theorem flat_array_roundtrip_witness:
  "parse (array_header 2 @ (createBulkString ''GET'' @ createInteger (-5)) @ ''*1'') =
     Some (RArray [Some (RString ''GET''), Some (RInteger (-5))])"
  using flat_array_roundtrip[of "[RString ''GET'', RInteger (-5)]" "''*1''"]
  by (simp add: short_def int64_def int_limits numeral_2_eq_2)

text \<open>
  C23. Round trip of commands.  What a client sends for a command and its arguments is read back
  as the command in upper case and the same arguments, whatever follows.
\<close>
theorem command_roundtrip:
  assumes "\<forall>x\<in>set (c # args). short x" and "int (length (c # args)) \<le> int64_max"
  shows "parseCommand (createArray (c # args) @ rest) =
    \<lparr>command = map toupper_c c, arguments = args\<rparr>"
  using parse_createArray[OF assms, of rest] by (simp add: parseCommand_def)

theorem command_roundtrip_witness:
  "parseCommand (createArray [''set'', ''1'', ''x''] @ ''junk'') =
     \<lparr>command = ''SET'', arguments = [''1'', ''x'']\<rparr>"
proof -
  have "map toupper_c ''set'' = ''SET''" by code_simp
  then show ?thesis
    using command_roundtrip[of "''set''" "[''1'', ''x'']" "''junk''"]
    by (simp add: short_def int_limits)
qed

text \<open>
  A request cut in transit is executed with the arguments that arrived.  Any cut behind the
  header of a request parses to an array of the elements that arrived completely: the missing
  rest is not reported, so the codec cannot tell a partial request from a shorter one.
\<close>
theorem cut_request_runs_short:
  assumes "\<forall>x\<in>set xs. short x" and "int (length xs) \<le> int64_max"
    and "length (array_header (length xs)) \<le> m" and "m < length (createArray xs)"
  shows "\<exists>k < length xs. parse (take m (createArray xs)) = Some (RArray (map (Some \<circ> RString) (take k xs)))
    \<and> length (array_header (length xs) @ concat (map createBulkString (take k xs))) \<le> m
    \<and> m < length (array_header (length xs) @ concat (map createBulkString (take (Suc k) xs)))"
  by (rule cut_prefix_bounds[OF assms])

theorem cut_request_runs_short_witness:
  "\<exists>k < 2. parse (take 12 (createArray [''DEL'', ''1''])) =
    Some (RArray (map (Some \<circ> RString) (take k [''DEL'', ''1''])))"
proof -
  have "\<forall>x\<in>set [''DEL'', ''1'']. short x" "int (length [''DEL'', ''1'']) \<le> int64_max"
    by (simp_all add: short_def int_limits)
  moreover have "length (array_header (length [''DEL'', ''1''])) \<le> 12"
    "12 < length (createArray [''DEL'', ''1''])"
    by (simp_all add: array_header_def createArray_def createBulkString_def CRLF_def nat_to_string.simps)
  ultimately have "\<exists>k < length [''DEL'', ''1'']. parse (take 12 (createArray [''DEL'', ''1''])) =
      Some (RArray (map (Some \<circ> RString) (take k [''DEL'', ''1''])))"
    using cut_request_runs_short[of "[''DEL'', ''1'']" 12] by blast
  then show ?thesis by (simp add: numeral_2_eq_2)
qed

text \<open>
  A null bulk string ends an array.  The elements before it are kept, it and everything after
  it are lost, although the header announced them.
\<close>
theorem null_bulk_ends_array:
  assumes "\<forall>x\<in>set xs. short x" and "int (length xs + m) \<le> int64_max"
  shows "parse (array_header (length xs + m) @ concat (map createBulkString xs) @
      createNullBulkString @ rest) = Some (RArray (map (Some \<circ> RString) xs))"
  by (rule bulk.parse_framed_stops[OF assms parse_null])

theorem null_bulk_ends_array_witness:
  "parse (array_header 3 @ concat (map createBulkString [''SET'']) @ createNullBulkString @
     createBulkString ''x'') = Some (RArray [Some (RString ''SET'')])"
  using null_bulk_ends_array[of "[''SET'']" 2 "createBulkString ''x''"]
  by (simp add: short_def int_limits numeral_3_eq_3)

text \<open>
  serialize is not the inverse of parse.  A parsed array of strings serializes to an array
  whose elements are the encodings of the strings: parsing it again gives each string wrapped
  in one more layer of RESP.
\<close>
theorem serialize_adds_a_layer:
  assumes "parse data = Some (RArray (map (Some \<circ> RString) xs))"
    and "\<forall>x\<in>set xs. short (createBulkString x)" and "int (length xs) \<le> int64_max"
  shows "parse (serialize (the (parse data))) =
    Some (RArray (map (Some \<circ> RString \<circ> createBulkString) xs))"
  using parse_createArray[of "map createBulkString xs" "[]"] assms by simp

theorem serialize_adds_a_layer_witness:
  "parse (serialize (the (parse (createArray [''PING''])))) =
    Some (RArray [Some (RString (createBulkString ''PING''))])"
proof -
  have s: "short ''PING''" "int (length [''PING'']) \<le> int64_max" by (simp_all add: short_def int_limits)
  have "parse (createArray [''PING'']) = Some (RArray (map (Some \<circ> RString) [''PING'']))"
    using parse_createArray[of "[''PING'']" "[]"] s by simp
  from serialize_adds_a_layer[OF this] show ?thesis
    by (simp add: short_def int_limits createBulkString_def CRLF_def nat_to_string.simps)
qed

text \<open>
  Only arrays are commands.  Data that yields a command name or an argument begins with an
  asterisk and is valid RESP: an inline command, or a logged line of plain text, gives the
  empty command.
\<close>
theorem only_arrays_are_commands:
  assumes "parseCommand data \<noteq> empty_command"
  shows "\<exists>rest. data = CHR ''*'' # rest \<and> isValidRESP data"
proof (cases data)
  case Nil
  then show ?thesis using assms by (simp add: parseCommand_def)
next
  case (Cons t rest)
  have "t = CHR ''*''"
  proof (rule ccontr)
    assume "t \<noteq> CHR ''*''"
    then have "parse data \<noteq> Some (RArray xs)" for xs
      by (auto simp: Cons parse.simps(2) parseSimpleString_def parseError_def parseInteger_def
          parseBulkString_def split: outcome.splits prod.splits if_splits)
    then have "parseCommand data = empty_command"
      by (auto simp: parseCommand_def split: option.split resp.split)
    with assms show False by simp
  qed
  with Cons show ?thesis by (simp add: isValidRESP_def)
qed

theorem only_arrays_are_commands_witness:
  "\<exists>rest. createArray [''PING''] = CHR ''*'' # rest \<and> isValidRESP (createArray [''PING''])"
proof (rule only_arrays_are_commands)
  have "parseCommand (createArray [''PING''] @ []) = \<lparr>command = map toupper_c ''PING'', arguments = []\<rparr>"
    using parse_createArray[of "[''PING'']" "[]"] by (simp add: parseCommand_def short_def int_limits)
  then show "parseCommand (createArray [''PING'']) \<noteq> empty_command" by (simp add: empty_command_def)
qed

end
