(* ===== verification/Configuration.thy ===== *)
theory Configuration
  imports CppString "HOL-Library.List_Lexorder" "HOL-Library.Char_ord"
begin

section \<open>Configuration (config/config.h, config/config.cpp)\<close>

text \<open>
  The singleton \<^verbatim>\<open>Config\<close> holds four structures, a \<^verbatim>\<open>std::map\<close> of custom entries (an association
  list in the order of its keys) and the mutex \<^verbatim>\<open>config_mutex_\<close>, which is not recursive:
  \<open>locked\<close> says that the calling thread holds it, and locking it again is the fault Deadlock.
  A throw keeps the entries read so far, so what is thrown is the exception and the state; the
  lock guard releases the mutex on both ways out.
\<close>

record server_config =
  port :: int
  host :: string
  max_connections :: int
  thread_pool_size :: int
  enable_cluster :: bool
  cluster_nodes :: string

record skiplist_config =
  cfg_max_level :: int
  data_file :: string
  enable_persistence :: bool
  persistence_interval :: int

record log_config =
  cfg_log_level :: string
  cfg_log_file :: string
  enable_console :: bool
  cfg_max_file_size :: int
  cfg_max_files :: int

record aof_config =
  enable_aof :: bool
  aof_file :: string
  aof_fsync :: string
  aof_fsync_interval :: int

record config =
  server_cfg :: server_config
  skiplist_cfg :: skiplist_config
  log_cfg :: log_config
  aof_cfg :: aof_config
  custom_config :: "(string \<times> string) list"
  locked :: bool

definition default_config :: config where
  "default_config = \<lparr>
     server_cfg = \<lparr>port = 6379, host = ''0.0.0.0'', max_connections = 1000, thread_pool_size = 4,
                   enable_cluster = False, cluster_nodes = ''''\<rparr>,
     skiplist_cfg = \<lparr>cfg_max_level = 18, data_file = ''store/dumpFile'', enable_persistence = True,
                     persistence_interval = 60\<rparr>,
     log_cfg = \<lparr>cfg_log_level = ''INFO'', cfg_log_file = ''logs/skiplist.log'', enable_console = True,
                cfg_max_file_size = 100 * 1024 * 1024, cfg_max_files = 10\<rparr>,
     aof_cfg = \<lparr>enable_aof = False, aof_file = ''store/appendonly.aof'', aof_fsync = ''everysec'',
                aof_fsync_interval = 1\<rparr>,
     custom_config = [], locked = False\<rparr>"

type_synonym 'a config_op = "config \<Rightarrow> (exn \<times> config, 'a \<times> config) outcome"

definition config_guard :: "'a config_op \<Rightarrow> 'a config_op" where
  "config_guard body c =
     (if locked c then Fault Deadlock
      else case body (c\<lparr>locked := True\<rparr>) of
             Ok (a, c') \<Rightarrow> Ok (a, c'\<lparr>locked := False\<rparr>)
           | Throw (e, c') \<Rightarrow> Throw (e, c'\<lparr>locked := False\<rparr>)
           | Fault d \<Rightarrow> Fault d)"

text \<open>\<^verbatim>\<open>m[k] = v\<close> on a \<^verbatim>\<open>std::map\<close>.\<close>

fun map_put :: "string \<Rightarrow> string \<Rightarrow> (string \<times> string) list \<Rightarrow> (string \<times> string) list" where
  "map_put k v [] = [(k, v)]"
| "map_put k v ((k', v') # m) =
     (if k = k' then (k, v) # m
      else if k < k' then (k, v) # (k', v') # m
      else (k', v') # map_put k v m)"

subsection \<open>Typed access\<close>

definition getString :: "string \<Rightarrow> string \<Rightarrow> string config_op" where
  "getString key default_value =
     config_guard (\<lambda>c. Ok (case map_of (custom_config c) key of
         Some v \<Rightarrow> v | None \<Rightarrow> default_value, c))"

definition getInt :: "string \<Rightarrow> int \<Rightarrow> int config_op" where
  "getInt key default_value c =
     obind (getString key '''' c) (\<lambda>(value, c').
       if value = [] then Ok (default_value, c')
       else case stoi value of Ok n \<Rightarrow> Ok (n, c')
          | Throw e \<Rightarrow> Ok (default_value, c') | Fault d \<Rightarrow> Fault d)"

definition getBool :: "string \<Rightarrow> bool \<Rightarrow> bool config_op" where
  "getBool key default_value c =
     obind (getString key '''' c) (\<lambda>(value, c').
       if value = [] then Ok (default_value, c')
       else let v = map tolower_c value
            in Ok (v = ''true'' \<or> v = ''1'' \<or> v = ''yes'', c'))"

definition setString :: "string \<Rightarrow> string \<Rightarrow> unit config_op" where
  "setString key value =
     config_guard (\<lambda>c. Ok ((), c\<lparr>custom_config := map_put key value (custom_config c)\<rparr>))"

definition setInt :: "string \<Rightarrow> int \<Rightarrow> unit config_op" where
  "setInt key value = setString key (int_to_string value)"

definition bool_word :: "bool \<Rightarrow> string" where
  "bool_word b = (if b then ''true'' else ''false'')"

definition setBool :: "string \<Rightarrow> bool \<Rightarrow> unit config_op" where
  "setBool key value = setString key (bool_word value)"

definition setServerConfig :: "server_config \<Rightarrow> unit config_op" where
  "setServerConfig x = config_guard (\<lambda>c. Ok ((), c\<lparr>server_cfg := x\<rparr>))"

definition setSkipListConfig :: "skiplist_config \<Rightarrow> unit config_op" where
  "setSkipListConfig x = config_guard (\<lambda>c. Ok ((), c\<lparr>skiplist_cfg := x\<rparr>))"

definition setLogConfig :: "log_config \<Rightarrow> unit config_op" where
  "setLogConfig x = config_guard (\<lambda>c. Ok ((), c\<lparr>log_cfg := x\<rparr>))"

definition setAOFConfig :: "aof_config \<Rightarrow> unit config_op" where
  "setAOFConfig x = config_guard (\<lambda>c. Ok ((), c\<lparr>aof_cfg := x\<rparr>))"

subsection \<open>applyCustomConfig\<close>

text \<open>\<^verbatim>\<open>if (custom_config_.find(key) != end) field = getX(key, field);\<close>\<close>

definition apply_key :: "(string \<Rightarrow> 'a \<Rightarrow> 'a config_op) \<Rightarrow> string \<Rightarrow> (config \<Rightarrow> 'a) \<Rightarrow>
    ('a \<Rightarrow> config \<Rightarrow> config) \<Rightarrow> unit config_op" where
  "apply_key getX key field upd c =
     (if map_of (custom_config c) key = None then Ok ((), c)
      else obind (getX key (field c) c) (\<lambda>(v, c'). Ok ((), upd v c')))"

definition then_apply :: "unit config_op \<Rightarrow> unit config_op \<Rightarrow> unit config_op" where
  "then_apply f g c = obind (f c) (\<lambda>(u, c'). g c')"

fun apply_all :: "unit config_op list \<Rightarrow> unit config_op" where
  "apply_all [] c = Ok ((), c)"
| "apply_all (f # fs) c = then_apply f (apply_all fs) c"

definition applyServer :: "unit config_op list" where
  "applyServer =
    [apply_key getInt ''port'' (port \<circ> server_cfg) (\<lambda>v c. c\<lparr>server_cfg := (server_cfg c)\<lparr>port := v\<rparr>\<rparr>),
     apply_key getString ''host'' (host \<circ> server_cfg) (\<lambda>v c. c\<lparr>server_cfg := (server_cfg c)\<lparr>host := v\<rparr>\<rparr>),
     apply_key getInt ''max_connections'' (max_connections \<circ> server_cfg)
       (\<lambda>v c. c\<lparr>server_cfg := (server_cfg c)\<lparr>max_connections := v\<rparr>\<rparr>),
     apply_key getInt ''thread_pool_size'' (thread_pool_size \<circ> server_cfg)
       (\<lambda>v c. c\<lparr>server_cfg := (server_cfg c)\<lparr>thread_pool_size := v\<rparr>\<rparr>),
     apply_key getBool ''enable_cluster'' (enable_cluster \<circ> server_cfg)
       (\<lambda>v c. c\<lparr>server_cfg := (server_cfg c)\<lparr>enable_cluster := v\<rparr>\<rparr>),
     apply_key getString ''cluster_nodes'' (cluster_nodes \<circ> server_cfg)
       (\<lambda>v c. c\<lparr>server_cfg := (server_cfg c)\<lparr>cluster_nodes := v\<rparr>\<rparr>)]"

definition applySkipList :: "unit config_op list" where
  "applySkipList =
    [apply_key getInt ''max_level'' (cfg_max_level \<circ> skiplist_cfg)
       (\<lambda>v c. c\<lparr>skiplist_cfg := (skiplist_cfg c)\<lparr>cfg_max_level := v\<rparr>\<rparr>),
     apply_key getString ''data_file'' (data_file \<circ> skiplist_cfg)
       (\<lambda>v c. c\<lparr>skiplist_cfg := (skiplist_cfg c)\<lparr>data_file := v\<rparr>\<rparr>),
     apply_key getBool ''enable_persistence'' (enable_persistence \<circ> skiplist_cfg)
       (\<lambda>v c. c\<lparr>skiplist_cfg := (skiplist_cfg c)\<lparr>enable_persistence := v\<rparr>\<rparr>),
     apply_key getInt ''persistence_interval'' (persistence_interval \<circ> skiplist_cfg)
       (\<lambda>v c. c\<lparr>skiplist_cfg := (skiplist_cfg c)\<lparr>persistence_interval := v\<rparr>\<rparr>)]"

definition applyLogAof :: "unit config_op list" where
  "applyLogAof =
    [apply_key getString ''log_level'' (cfg_log_level \<circ> log_cfg)
       (\<lambda>v c. c\<lparr>log_cfg := (log_cfg c)\<lparr>cfg_log_level := v\<rparr>\<rparr>),
     apply_key getString ''log_file'' (cfg_log_file \<circ> log_cfg)
       (\<lambda>v c. c\<lparr>log_cfg := (log_cfg c)\<lparr>cfg_log_file := v\<rparr>\<rparr>),
     apply_key getBool ''enable_console'' (enable_console \<circ> log_cfg)
       (\<lambda>v c. c\<lparr>log_cfg := (log_cfg c)\<lparr>enable_console := v\<rparr>\<rparr>),
     apply_key getBool ''enable_aof'' (enable_aof \<circ> aof_cfg)
       (\<lambda>v c. c\<lparr>aof_cfg := (aof_cfg c)\<lparr>enable_aof := v\<rparr>\<rparr>),
     apply_key getString ''aof_file'' (aof_file \<circ> aof_cfg)
       (\<lambda>v c. c\<lparr>aof_cfg := (aof_cfg c)\<lparr>aof_file := v\<rparr>\<rparr>),
     apply_key getString ''aof_fsync'' (aof_fsync \<circ> aof_cfg)
       (\<lambda>v c. c\<lparr>aof_cfg := (aof_cfg c)\<lparr>aof_fsync := v\<rparr>\<rparr>),
     apply_key getInt ''aof_fsync_interval'' (aof_fsync_interval \<circ> aof_cfg)
       (\<lambda>v c. c\<lparr>aof_cfg := (aof_cfg c)\<lparr>aof_fsync_interval := v\<rparr>\<rparr>)]"

definition applyCustomConfig :: "unit config_op" where
  "applyCustomConfig = apply_all (applyServer @ applySkipList @ applyLogAof)"

subsection \<open>loadFromFile\<close>

text \<open>The loop over the lines; the text of a file that cannot be opened is None.\<close>

fun config_lines :: "string list \<Rightarrow> config \<Rightarrow> (exn \<times> config, config) outcome" where
  "config_lines [] c = Ok c"
| "config_lines (line # lines) c =
     (if line = [] \<or> List.hd line = CHR ''#'' then config_lines lines c
      else case find_char (CHR ''='') line of
             Some pos \<Rightarrow>
               (let key = trim_with isblank_c (take pos line);
                    value = trim_with isblank_c (drop (pos + 1) line)
                in if key = [] then
                     Throw (Skiplist_exception (new_exn ConfigParseException
                       (''Empty key in config line: '' @ line)), c)
                   else config_lines lines (c\<lparr>custom_config := map_put key value (custom_config c)\<rparr>))
           | None \<Rightarrow>
               Throw (Skiplist_exception (new_exn ConfigParseException
                 (''Invalid config line format: '' @ line)), c))"

definition loadFromFile :: "string \<Rightarrow> string option \<Rightarrow> bool config_op" where
  "loadFromFile filename file =
     config_guard (\<lambda>c. case file of
         None \<Rightarrow> Throw (Skiplist_exception (new_exn ConfigFileNotFoundException filename), c)
       | Some txt \<Rightarrow>
           obind (config_lines (getlines LF txt) c) (\<lambda>c1.
           obind (applyCustomConfig c1) (\<lambda>(u, c2). Ok (True, c2))))"

subsection \<open>loadFromEnvironment\<close>

definition from_env :: "(string \<Rightarrow> string option) \<Rightarrow> string \<Rightarrow> (string \<Rightarrow> 'a) \<Rightarrow> 'a \<Rightarrow> 'a" where
  "from_env env var conv old = (case env var of Some s \<Rightarrow> conv s | None \<Rightarrow> old)"

definition loadFromEnvironment :: "(string \<Rightarrow> string option) \<Rightarrow> unit config_op" where
  "loadFromEnvironment env =
     config_guard (\<lambda>c. Ok ((), c\<lparr>
       server_cfg := (let s = server_cfg c in s\<lparr>
         port := from_env env ''SKIPLIST_PORT'' atoi (port s),
         host := from_env env ''SKIPLIST_HOST'' id (host s),
         max_connections := from_env env ''SKIPLIST_MAX_CONNECTIONS'' atoi (max_connections s),
         thread_pool_size := from_env env ''SKIPLIST_THREAD_POOL_SIZE'' atoi (thread_pool_size s),
         enable_cluster := from_env env ''SKIPLIST_ENABLE_CLUSTER'' (\<lambda>v. v = ''true'') (enable_cluster s),
         cluster_nodes := from_env env ''SKIPLIST_CLUSTER_NODES'' id (cluster_nodes s)\<rparr>),
       skiplist_cfg := (let k = skiplist_cfg c in k\<lparr>
         cfg_max_level := from_env env ''SKIPLIST_MAX_LEVEL'' atoi (cfg_max_level k),
         data_file := from_env env ''SKIPLIST_DATA_FILE'' id (data_file k),
         enable_persistence :=
           from_env env ''SKIPLIST_ENABLE_PERSISTENCE'' (\<lambda>v. v = ''true'') (enable_persistence k),
         persistence_interval :=
           from_env env ''SKIPLIST_PERSISTENCE_INTERVAL'' atoi (persistence_interval k)\<rparr>),
       log_cfg := (let l = log_cfg c in l\<lparr>
         cfg_log_level := from_env env ''SKIPLIST_LOG_LEVEL'' id (cfg_log_level l),
         cfg_log_file := from_env env ''SKIPLIST_LOG_FILE'' id (cfg_log_file l),
         enable_console := from_env env ''SKIPLIST_ENABLE_CONSOLE'' (\<lambda>v. v = ''true'') (enable_console l)\<rparr>)
     \<rparr>))"

subsection \<open>saveToFile\<close>

definition config_entry :: "string \<Rightarrow> string \<Rightarrow> string" where
  "config_entry k v = k @ ''='' @ v @ [LF]"

definition config_text :: "config \<Rightarrow> string" where
  "config_text c =
     (let s = server_cfg c; k = skiplist_cfg c; l = log_cfg c in
      ''# SkipList Configuration File'' @ [LF, LF]
      @ ''[Server]'' @ [LF]
      @ config_entry ''port'' (int_to_string (port s))
      @ config_entry ''host'' (host s)
      @ config_entry ''max_connections'' (int_to_string (max_connections s))
      @ config_entry ''thread_pool_size'' (int_to_string (thread_pool_size s))
      @ config_entry ''enable_cluster'' (bool_word (enable_cluster s))
      @ config_entry ''cluster_nodes'' (cluster_nodes s) @ [LF]
      @ ''[SkipList]'' @ [LF]
      @ config_entry ''max_level'' (int_to_string (cfg_max_level k))
      @ config_entry ''data_file'' (data_file k)
      @ config_entry ''enable_persistence'' (bool_word (enable_persistence k))
      @ config_entry ''persistence_interval'' (int_to_string (persistence_interval k)) @ [LF]
      @ ''[Log]'' @ [LF]
      @ config_entry ''log_level'' (cfg_log_level l)
      @ config_entry ''log_file'' (cfg_log_file l)
      @ config_entry ''enable_console'' (bool_word (enable_console l))
      @ config_entry ''max_file_size'' (int_to_string (cfg_max_file_size l))
      @ config_entry ''max_files'' (int_to_string (cfg_max_files l)) @ [LF]
      @ (if custom_config c = [] then ''''
         else ''[Custom]'' @ [LF] @ concat (map (\<lambda>(a, b). config_entry a b) (custom_config c))))"

text \<open>The result is the return value and the text written, None when the file cannot be created.\<close>

definition saveToFile :: "bool \<Rightarrow> (bool \<times> string option) config_op" where
  "saveToFile can_create =
     config_guard (\<lambda>c. Ok (if can_create then (True, Some (config_text c)) else (False, None), c))"

subsection \<open>The map of custom entries\<close>

lemma map_of_map_put: "map_of (map_put k v m) = (map_of m)(k \<mapsto> v)"
  by (induction m) (auto simp: fun_eq_iff)

lemma set_map_put: "fst ` set (map_put k v m) = insert k (fst ` set m)"
  by (induction k v m rule: map_put.induct) (simp_all add: insert_commute)

lemma map_put_sorted:
  "sorted_wrt (<) (map fst m) \<Longrightarrow> sorted_wrt (<) (map fst (map_put k v m))"
proof (induction m)
  case (Cons p m)
  obtain k' v' where p: "p = (k', v')" by (cases p)
  have less: "\<forall>x\<in>fst ` set m. k' < x" using Cons.prems p by auto
  show ?case
  proof (cases "k = k' \<or> k < k'")
    case True
    then show ?thesis using Cons.prems p less by (auto intro: less_trans)
  next
    case False
    then have "k' < k" by auto
    have "\<forall>x\<in>fst ` set (map_put k v m). k' < x" using less \<open>k' < k\<close> by (simp add: set_map_put)
    then show ?thesis using Cons False p by auto
  qed
qed simp

subsection \<open>Reading and writing under the mutex\<close>

lemma getString_unlocked:
  "\<not> locked c \<Longrightarrow> getString k d c = Ok (case map_of (custom_config c) k of Some v \<Rightarrow> v | None \<Rightarrow> d, c)"
  by (simp add: getString_def config_guard_def split: option.split)

lemma get_locked:
  assumes "locked c"
  shows "getString k d c = Fault Deadlock" "getInt k n c = Fault Deadlock" "getBool k b c = Fault Deadlock"
  using assms by (simp_all add: getString_def getInt_def getBool_def config_guard_def)

lemma setString_unlocked:
  "\<not> locked c \<Longrightarrow> setString k v c = Ok ((), c\<lparr>custom_config := map_put k v (custom_config c)\<rparr>)"
  by (simp add: setString_def config_guard_def)

subsection \<open>applyCustomConfig under the mutex\<close>

definition known_keys :: "string list" where
  "known_keys = [''port'', ''host'', ''max_connections'', ''thread_pool_size'', ''enable_cluster'',
     ''cluster_nodes'', ''max_level'', ''data_file'', ''enable_persistence'', ''persistence_interval'',
     ''log_level'', ''log_file'', ''enable_console'', ''enable_aof'', ''aof_file'', ''aof_fsync'',
     ''aof_fsync_interval'']"

definition has_known_key :: "config \<Rightarrow> bool" where
  "has_known_key c \<longleftrightarrow> (\<exists>k\<in>set known_keys. map_of (custom_config c) k \<noteq> None)"

definition stuck_on :: "string \<Rightarrow> unit config_op \<Rightarrow> bool" where
  "stuck_on k f \<longleftrightarrow> (\<forall>c. locked c \<longrightarrow>
     f c = (if map_of (custom_config c) k = None then Ok ((), c) else Fault Deadlock))"

lemma stuck_on_apply_key:
  "stuck_on k (apply_key getInt k fi ui)" "stuck_on k (apply_key getString k fs us)"
  "stuck_on k (apply_key getBool k fb ub)"
  by (simp_all add: stuck_on_def apply_key_def get_locked)

lemma apply_all_locked:
  assumes "list_all2 stuck_on ks fs" "locked c"
  shows "apply_all fs c =
    (if \<exists>k\<in>set ks. map_of (custom_config c) k \<noteq> None then Fault Deadlock else Ok ((), c))"
  using assms by (induction rule: list_all2_induct) (auto simp: then_apply_def stuck_on_def)

lemma applyCustomConfig_locked:
  assumes "locked c"
  shows "applyCustomConfig c = (if has_known_key c then Fault Deadlock else Ok ((), c))"
proof -
  have "list_all2 stuck_on known_keys (applyServer @ applySkipList @ applyLogAof)"
    by (simp add: known_keys_def applyServer_def applySkipList_def applyLogAof_def stuck_on_apply_key)
  from apply_all_locked[OF this assms] show ?thesis
    by (simp add: applyCustomConfig_def has_known_key_def)
qed

lemma config_lines_locked:
  "config_lines ls (c\<lparr>locked := b\<rparr>) =
    (case config_lines ls c of Ok c1 \<Rightarrow> Ok (c1\<lparr>locked := b\<rparr>)
     | Throw (e, c1) \<Rightarrow> Throw (e, c1\<lparr>locked := b\<rparr>) | Fault d \<Rightarrow> Fault d)"
proof (induction ls arbitrary: c)
  case (Cons l ls)
  have "config_lines ls (c\<lparr>locked := b, custom_config := m\<rparr>) =
      config_lines ls ((c\<lparr>custom_config := m\<rparr>)\<lparr>locked := b\<rparr>)" for m
    by (rule arg_cong) (cases c, simp)
  then show ?case using Cons.IH by (simp add: Let_def split: option.split)
qed simp

lemma config_lines_frame:
  "config_lines ls c = Ok c1 \<Longrightarrow> \<exists>m. c1 = c\<lparr>custom_config := m\<rparr>"
proof (induction ls arbitrary: c)
  case (Cons l ls)
  then show ?case by (fastforce simp: Let_def split: if_splits option.splits)
qed (simp, metis config.surjective config.update_convs(5))

lemma config_lines_skip:
  assumes "\<forall>l\<in>set pre. l = [] \<or> List.hd l = CHR ''#''"
  shows "config_lines (pre @ ls) c = config_lines ls c"
  using assms by (induction pre) auto

subsection \<open>Properties\<close>

text \<open>
  C30. Reading a configuration file never configures anything.  When the lines are well formed
  and one of them sets an option the server knows, \<^verbatim>\<open>applyCustomConfig\<close> locks the mutex the loader
  holds and the call never returns; when none does, the load succeeds and the four structures
  are what they were.
\<close>
theorem load_deadlocks_or_changes_nothing:
  assumes "\<not> locked c" and "config_lines (getlines LF txt) c = Ok c1"
  shows "loadFromFile f (Some txt) c = (if has_known_key c1 then Fault Deadlock else Ok (True, c1)) \<and>
    server_cfg c1 = server_cfg c \<and> skiplist_cfg c1 = skiplist_cfg c \<and>
    log_cfg c1 = log_cfg c \<and> aof_cfg c1 = aof_cfg c"
proof -
  obtain m where m: "c1 = c\<lparr>custom_config := m\<rparr>" using config_lines_frame[OF assms(2)] by blast
  have "config_lines (getlines LF txt) (c\<lparr>locked := True\<rparr>) = Ok (c1\<lparr>locked := True\<rparr>)"
    using assms(2) by (simp add: config_lines_locked)
  moreover have "has_known_key (c1\<lparr>locked := True\<rparr>) = has_known_key c1"
    by (simp add: has_known_key_def)
  ultimately show ?thesis using assms(1) m
    by (simp add: loadFromFile_def config_guard_def applyCustomConfig_locked)
qed

theorem load_deadlocks_or_changes_nothing_witness:
  "loadFromFile ''skiplist.conf'' (Some (''port=7000'' @ [LF])) default_config = Fault Deadlock"
proof -
  have "getlines LF (''port=7000'' @ [LF]) = [''port=7000'']"
    using getlines_line[of LF "''port=7000''" "[]"] by (simp add: LF_def)
  moreover have "trim_with isblank_c ''port'' = ''port''" "trim_with isblank_c ''7000'' = ''7000''"
    by (rule trim_with_plain, auto simp: isblank_c_def)+
  moreover have "custom_config default_config = []" by (simp add: default_config_def)
  ultimately have "config_lines (getlines LF (''port=7000'' @ [LF])) default_config =
      Ok (default_config\<lparr>custom_config := [(''port'', ''7000'')]\<rparr>)" by simp
  moreover have "\<not> locked default_config" by (simp add: default_config_def)
  moreover have "has_known_key (default_config\<lparr>custom_config := [(''port'', ''7000'')]\<rparr>)"
    by (simp add: has_known_key_def known_keys_def)
  ultimately show ?thesis
    using load_deadlocks_or_changes_nothing[of default_config "''port=7000'' @ [LF]" _ "''skiplist.conf''"]
    by metis
qed

text \<open>
  Section headers are rejected.  If the first line that is neither empty nor a comment has no
  equals sign, such as \<^verbatim>\<open>[Server]\<close> in the shipped \<^verbatim>\<open>skiplist.conf\<close>, loading throws a parse
  exception that names it, and no entry was read.
\<close>
theorem section_header_rejected:
  assumes "\<not> locked c" and "getlines LF txt = pre @ l # post"
    and "\<forall>x\<in>set pre. x = [] \<or> List.hd x = CHR ''#''"
    and "l \<noteq> []" and "List.hd l \<noteq> CHR ''#''" and "CHR ''='' \<notin> set l"
  shows "loadFromFile f (Some txt) c =
    Throw (Skiplist_exception (new_exn ConfigParseException (''Invalid config line format: '' @ l)), c)"
proof -
  have "find_char (CHR ''='') l = None" using assms(6) by (simp add: find_char_None)
  then have "config_lines (getlines LF txt) (c\<lparr>locked := True\<rparr>) =
      Throw (Skiplist_exception (new_exn ConfigParseException (''Invalid config line format: '' @ l)),
        c\<lparr>locked := True\<rparr>)"
    using assms(4,5) by (simp add: assms(2) config_lines_skip[OF assms(3)])
  moreover have "c\<lparr>locked := False\<rparr> = c" using assms(1) by simp
  ultimately show ?thesis using assms(1) by (simp add: loadFromFile_def config_guard_def)
qed

theorem section_header_rejected_witness:
  "loadFromFile ''f'' (Some (''# c'' @ [LF] @ ''[Log]'' @ [LF] @ ''port=1'')) default_config =
    Throw (Skiplist_exception (new_exn ConfigParseException (''Invalid config line format: '' @ ''[Log]'')),
      default_config)"
proof (rule section_header_rejected)
  show "getlines LF (''# c'' @ [LF] @ ''[Log]'' @ [LF] @ ''port=1'') = [''# c''] @ ''[Log]'' # [''port=1'']"
    by (simp add: LF_def getlines_def)
qed (simp_all add: default_config_def)

lemma getlines_config_text:
  "\<exists>post. getlines LF (config_text c) = [''# SkipList Configuration File'', ''''] @ ''[Server]'' # post"
proof -
  have l: "LF \<notin> set ''# SkipList Configuration File''" "LF \<notin> set ''''" "LF \<notin> set ''[Server]''"
    by (simp_all add: LF_def)
  obtain rest where r: "config_text c =
      ''# SkipList Configuration File'' @ LF # '''' @ LF # ''[Server]'' @ LF # rest"
    by (simp add: config_text_def Let_def)
  have "getlines LF (config_text c) =
      ''# SkipList Configuration File'' # '''' # ''[Server]'' # getlines LF rest"
    unfolding r by (simp only: getlines_line[OF l(1)] getlines_line[OF l(2)] getlines_line[OF l(3)])
  then show ?thesis by simp
qed

text \<open>
  A saved configuration cannot be loaded.  What \<^verbatim>\<open>saveToFile\<close> writes, for any configuration,
  \<^verbatim>\<open>loadFromFile\<close> rejects at its third line.
\<close>
theorem saved_config_is_rejected:
  assumes "\<not> locked c" and "\<not> locked c'" and "saveToFile True c = Ok ((True, Some txt), c2)"
  shows "loadFromFile f (Some txt) c' =
    Throw (Skiplist_exception (new_exn ConfigParseException
      (''Invalid config line format: '' @ ''[Server]'')), c')"
proof -
  have "txt = config_text (c\<lparr>locked := True\<rparr>)"
    using assms(1,3) by (simp add: saveToFile_def config_guard_def)
  then obtain post where p: "getlines LF txt = [''# SkipList Configuration File'', ''''] @ ''[Server]'' # post"
    using getlines_config_text by blast
  have "find_char (CHR ''='') ''[Server]'' = None" by simp
  then have "config_lines (getlines LF txt) c' =
      Throw (Skiplist_exception (new_exn ConfigParseException
        (''Invalid config line format: '' @ ''[Server]'')), c')"
    unfolding p by simp
  moreover have "c'\<lparr>locked := False\<rparr> = c'" using assms(2) by simp
  ultimately show ?thesis
    using assms(2) by (simp add: loadFromFile_def config_guard_def config_lines_locked)
qed

theorem saved_config_is_rejected_witness:
  "\<exists>txt. saveToFile True default_config = Ok ((True, Some txt), default_config) \<and>
    loadFromFile ''f'' (Some txt) default_config =
      Throw (Skiplist_exception (new_exn ConfigParseException
        (''Invalid config line format: '' @ ''[Server]'')), default_config)"
proof -
  have u: "\<not> locked default_config" by (simp add: default_config_def)
  obtain t where "saveToFile True default_config = Ok ((True, Some t), default_config)"
    using u by (simp add: saveToFile_def config_guard_def)
  then show ?thesis using saved_config_is_rejected[OF u u] by blast
qed

text \<open>
  Typed entries.  An integer of 32 bits or a boolean that was set is read back, whatever the
  default, and entries under other keys are not touched; the mutex is free again afterwards.
\<close>
theorem typed_entries_roundtrip:
  assumes "\<not> locked c" and "int_min \<le> n" and "n \<le> int_max"
  shows "\<exists>c1 c2. setInt k n c = Ok ((), c1) \<and> getInt k d c1 = Ok (n, c1) \<and>
    setBool k b c1 = Ok ((), c2) \<and> getBool k e c2 = Ok (b, c2) \<and> \<not> locked c2 \<and>
    (\<forall>k'. k' \<noteq> k \<longrightarrow> map_of (custom_config c2) k' = map_of (custom_config c) k')"
proof -
  have words: "map tolower_c ''true'' = ''true''" "map tolower_c ''false'' = ''false''" by code_simp+
  let ?c1 = "c\<lparr>custom_config := map_put k (int_to_string n) (custom_config c)\<rparr>"
  let ?c2 = "?c1\<lparr>custom_config := map_put k (bool_word b) (custom_config ?c1)\<rparr>"
  have "setInt k n c = Ok ((), ?c1)" using assms(1) by (simp add: setInt_def setString_unlocked)
  moreover have "getInt k d ?c1 = Ok (n, ?c1)"
    using assms by (simp add: getInt_def getString_unlocked map_of_map_put)
  moreover have "setBool k b ?c1 = Ok ((), ?c2)" using assms(1) by (simp add: setBool_def setString_unlocked)
  moreover have "getBool k e ?c2 = Ok (b, ?c2)"
    using assms(1) words by (simp add: getBool_def getString_unlocked map_of_map_put bool_word_def Let_def)
  moreover have "\<forall>k'. k' \<noteq> k \<longrightarrow> map_of (custom_config ?c2) k' = map_of (custom_config c) k'"
    by (simp add: map_of_map_put)
  ultimately show ?thesis using assms(1) by (intro exI[of _ ?c1] exI[of _ ?c2]) simp
qed

theorem typed_entries_roundtrip_witness:
  "\<exists>c1. setInt ''port'' 7000 default_config = Ok ((), c1) \<and> getInt ''port'' 0 c1 = Ok (7000, c1)"
proof -
  have "\<not> locked default_config" "int_min \<le> 7000" "7000 \<le> int_max"
    by (simp_all add: default_config_def int_limits)
  from typed_entries_roundtrip[OF this, of "''port''" 0] show ?thesis by blast
qed

end
