(* ===== verification/Logger.thy ===== *)
theory Logger
  imports CppString
begin

section \<open>The logger (logger/logger.h, logger/logger.cpp)\<close>

text \<open>
  The state is that of the singleton \<^verbatim>\<open>Logger\<close>, the files it works on and what it has printed.
  \<open>stream\<close> is the path \<^verbatim>\<open>file_stream_\<close> is open on; opening an open stream only sets its fail bit.
  \<^verbatim>\<open>log_mutex_\<close> is not recursive: \<open>log_locked\<close> says the calling thread holds it, and locking
  it again is the fault Deadlock.  The text of the time stamp is a parameter (the clock), and so
  is which paths can be opened and which directories can be created.  Sizes are \<^verbatim>\<open>size_t\<close>.
\<close>

datatype log_level = DEBUG | INFO | WARN | LOG_ERROR | FATAL

fun level_num :: "log_level \<Rightarrow> nat" where
  "level_num DEBUG = 0"
| "level_num INFO = 1"
| "level_num WARN = 2"
| "level_num LOG_ERROR = 3"
| "level_num FATAL = 4"

text \<open>The enumerators are compared by their numbers.\<close>

instantiation log_level :: linorder
begin

definition less_eq_log_level :: "log_level \<Rightarrow> log_level \<Rightarrow> bool" where
  less_eq_log_level_num [simp]: "less_eq_log_level l m \<longleftrightarrow> level_num l \<le> level_num m"

definition less_log_level :: "log_level \<Rightarrow> log_level \<Rightarrow> bool" where
  less_log_level_num [simp]: "less_log_level l m \<longleftrightarrow> level_num l < level_num m"

instance
proof
  fix l m :: log_level
  assume "l \<le> m" "m \<le> l"
  then show "l = m" by (cases l; cases m) simp_all
qed auto

end

fun getLevelString :: "log_level \<Rightarrow> string" where
  "getLevelString DEBUG = ''DEBUG''"
| "getLevelString INFO = ''INFO ''"
| "getLevelString WARN = ''WARN ''"
| "getLevelString LOG_ERROR = ''ERROR''"
| "getLevelString FATAL = ''FATAL''"

record log_env =
  can_open :: "string \<Rightarrow> bool"
  can_mkdir :: "string \<Rightarrow> bool"
  stamp :: string

record logger =
  log_level_cur :: log_level
  log_file :: string
  stream :: "string option"
  stream_fail :: bool
  console_on :: bool
  log_locked :: bool
  max_file_size :: nat
  current_file_size :: nat
  max_files :: int
  initializing :: bool
  files :: "string \<rightharpoonup> string"
  console :: string

text \<open>The instance has static storage: before \<^verbatim>\<open>init\<close> its members are zero.\<close>

definition static_logger :: "(string \<rightharpoonup> string) \<Rightarrow> logger" where
  "static_logger fs = \<lparr>log_level_cur = DEBUG, log_file = '''', stream = None, stream_fail = False,
     console_on = False, log_locked = False, max_file_size = 0, current_file_size = 0,
     max_files = 0, initializing = False, files = fs, console = ''''\<rparr>"

subsection \<open>Paths\<close>

definition path_filename :: "string \<Rightarrow> string" where
  "path_filename p = rev (takeWhile (\<lambda>c. c \<noteq> CHR ''/'') (rev p))"

definition parent_path :: "string \<Rightarrow> string" where
  "parent_path p =
     (let r = dropWhile (\<lambda>c. c \<noteq> CHR ''/'') (rev p)
      in if r = [] then ''''
         else let q = rev (dropWhile (\<lambda>c. c = CHR ''/'') r) in if q = [] then ''/'' else q)"

definition path_extension :: "string \<Rightarrow> string" where
  "path_extension p =
     (let f = path_filename p; e = takeWhile (\<lambda>c. c \<noteq> CHR ''.'') (rev f)
      in if f = ''.'' \<or> f = ''..'' \<or> length e + 1 \<ge> length f then '''' else ''.'' @ rev e)"

definition path_stem :: "string \<Rightarrow> string" where
  "path_stem p = take (length (path_filename p) - length (path_extension p)) (path_filename p)"

definition rotated_name :: "string \<Rightarrow> int \<Rightarrow> string" where
  "rotated_name p i = parent_path p @ ''/'' @ path_stem p @ ''.'' @ int_to_string i @ path_extension p"

subsection \<open>The stream\<close>

definition file_text :: "logger \<Rightarrow> string \<Rightarrow> string" where
  "file_text s p = (case files s p of None \<Rightarrow> '''' | Some t \<Rightarrow> t)"

definition open_stream :: "log_env \<Rightarrow> string \<Rightarrow> logger \<Rightarrow> logger" where
  "open_stream env p s =
     (if stream s \<noteq> None \<or> \<not> can_open env p then s\<lparr>stream_fail := True\<rparr>
      else s\<lparr>stream := Some p, stream_fail := False, files := (files s)(p \<mapsto> file_text s p)\<rparr>)"

definition close_stream :: "logger \<Rightarrow> logger" where
  "close_stream s = s\<lparr>stream := None\<rparr>"

text \<open>\<^verbatim>\<open>tellp()\<close> of a failed stream is -1, stored in a \<^verbatim>\<open>size_t\<close>.\<close>

definition tell_end :: "logger \<Rightarrow> nat" where
  "tell_end s = (case stream s of
       Some p \<Rightarrow> if stream_fail s then 2 ^ 64 - 1 else length (file_text s p)
     | None \<Rightarrow> 2 ^ 64 - 1)"

definition stream_write :: "string \<Rightarrow> logger \<Rightarrow> logger" where
  "stream_write m s = (case stream s of
       Some p \<Rightarrow> if stream_fail s then s else s\<lparr>files := (files s)(p \<mapsto> file_text s p @ m)\<rparr>
     | None \<Rightarrow> s)"

subsection \<open>Rotation of the files\<close>

definition rename_file :: "string \<Rightarrow> string \<Rightarrow> (string \<rightharpoonup> string) \<Rightarrow> (string \<rightharpoonup> string)" where
  "rename_file src dst fs = (case fs src of None \<Rightarrow> fs | Some t \<Rightarrow> (fs(src := None))(dst \<mapsto> t))"

text \<open>\<^verbatim>\<open>for (int i = oldest - 1; i >= 0; --i) rename(base.i, base.(i+1))\<close>, for n values of i.\<close>

fun shift_files :: "string \<Rightarrow> nat \<Rightarrow> (string \<rightharpoonup> string) \<Rightarrow> (string \<rightharpoonup> string)" where
  "shift_files p 0 fs = fs"
| "shift_files p (Suc i) fs =
     shift_files p i (rename_file (rotated_name p (int i)) (rotated_name p (int i + 1)) fs)"

definition rotate_files :: "log_env \<Rightarrow> logger \<Rightarrow> logger" where
  "rotate_files env s =
     (let s1 = (if stream s \<noteq> None then close_stream s else s);
          oldest = max_files s - 1;
          fs1 = (files s1)(rotated_name (log_file s) oldest := None);
          fs2 = shift_files (log_file s) (nat oldest) fs1;
          fs3 = rename_file (log_file s) (rotated_name (log_file s) 0) fs2;
          s2 = open_stream env (log_file s) (s1\<lparr>files := fs3\<rparr>)
      in s2\<lparr>current_file_size := 0\<rparr>)"

lemma open_stream_frame [simp]:
  "log_locked (open_stream env p s) = log_locked s"
  "initializing (open_stream env p s) = initializing s"
  "log_level_cur (open_stream env p s) = log_level_cur s"
  "console_on (open_stream env p s) = console_on s"
  by (simp_all add: open_stream_def)

lemma rotate_files_frame [simp]:
  "log_locked (rotate_files env s) = log_locked s"
  "initializing (rotate_files env s) = initializing s"
  "log_level_cur (rotate_files env s) = log_level_cur s"
  by (simp_all add: rotate_files_def Let_def close_stream_def)

subsection \<open>log, writeToFile, checkRotation, rotateLogFile\<close>

text \<open>
  The four call each other in a circle; the circle ends because \<^verbatim>\<open>log\<close> and \<^verbatim>\<open>checkRotation\<close>
  lock the mutex.
\<close>

definition format_record :: "log_env \<Rightarrow> log_level \<Rightarrow> string \<Rightarrow> string" where
  "format_record env level message =
     stamp env @ '' ['' @ getLevelString level @ ''] '' @ message @ [LF]"

definition writeToConsole :: "string \<Rightarrow> logger \<Rightarrow> logger" where
  "writeToConsole m s = s\<lparr>console := console s @ m\<rparr>"

function (sequential) log_message :: "log_env \<Rightarrow> log_level \<Rightarrow> string \<Rightarrow> logger \<Rightarrow> (exn, logger) outcome"
  and writeToFile :: "log_env \<Rightarrow> string \<Rightarrow> logger \<Rightarrow> (exn, logger) outcome"
  and checkRotation :: "log_env \<Rightarrow> string \<Rightarrow> logger \<Rightarrow> (exn, logger) outcome"
  and rotateLogFile :: "log_env \<Rightarrow> logger \<Rightarrow> (exn, logger) outcome" where
  "log_message env level message s =
     (if initializing s then Ok s
      else if level < log_level_cur s then Ok s
      else if log_locked s then Fault Deadlock
      else
        let m = format_record env level message;
            s1 = s\<lparr>log_locked := True\<rparr>;
            s2 = (if console_on s then writeToConsole m s1 else s1)
        in if stream s \<noteq> None
           then obind (writeToFile env m s2) (\<lambda>s3. Ok (s3\<lparr>log_locked := False\<rparr>))
           else Ok (s2\<lparr>log_locked := False\<rparr>))"
| "writeToFile env m s =
     obind (checkRotation env m s) (\<lambda>s1.
       if stream s1 \<noteq> None
       then Ok ((stream_write m s1)\<lparr>current_file_size := (current_file_size s1 + length m) mod 2 ^ 64\<rparr>)
       else Ok s1)"
| "checkRotation env m s =
     (if log_locked s then Fault Deadlock
      else if (current_file_size s + length m) mod 2 ^ 64 \<ge> max_file_size s
        then obind (rotateLogFile env (s\<lparr>log_locked := True\<rparr>)) (\<lambda>s1. Ok (s1\<lparr>log_locked := False\<rparr>))
        else Ok s)"
| "rotateLogFile env s = log_message env INFO ''Log file rotated'' (rotate_files env s)"
  by pat_completeness auto

definition lock_rank :: "logger \<Rightarrow> nat" where
  "lock_rank s = (if log_locked s then 0 else 1)"

termination log_message
  by (relation "measures
      [case_sum (case_sum (\<lambda>(e, l, m, s). lock_rank s) (\<lambda>(e, m, s). lock_rank s))
         (case_sum (\<lambda>(e, m, s). lock_rank s) (\<lambda>(e, s). lock_rank s)),
       case_sum (case_sum (\<lambda>_. 0) (\<lambda>_. 3)) (case_sum (\<lambda>_. 2) (\<lambda>_. 1))]")
    (auto simp: lock_rank_def writeToConsole_def)

declare log_message.simps [simp del] writeToFile.simps [simp del] checkRotation.simps [simp del]
  rotateLogFile.simps [simp del]

definition debug :: "log_env \<Rightarrow> string \<Rightarrow> logger \<Rightarrow> (exn, logger) outcome" where
  "debug env m s = log_message env DEBUG m s"

definition info :: "log_env \<Rightarrow> string \<Rightarrow> logger \<Rightarrow> (exn, logger) outcome" where
  "info env m s = log_message env INFO m s"

definition warn :: "log_env \<Rightarrow> string \<Rightarrow> logger \<Rightarrow> (exn, logger) outcome" where
  "warn env m s = log_message env WARN m s"

definition error :: "log_env \<Rightarrow> string \<Rightarrow> logger \<Rightarrow> (exn, logger) outcome" where
  "error env m s = log_message env LOG_ERROR m s"

definition fatal :: "log_env \<Rightarrow> string \<Rightarrow> logger \<Rightarrow> (exn, logger) outcome" where
  "fatal env m s = log_message env FATAL m s"

subsection \<open>init and the setters\<close>

text \<open>
  \<^verbatim>\<open>create_directories\<close> throws when it fails; \<^verbatim>\<open>initializing_\<close> is then still set.  The throw
  carries the logger.
\<close>

definition init_logger :: "log_env \<Rightarrow> string \<Rightarrow> log_level \<Rightarrow> bool \<Rightarrow> logger \<Rightarrow>
    (exn \<times> logger, logger) outcome" where
  "init_logger env file level enable_console s =
     (if log_locked s then Fault Deadlock
      else
        let s1 = s\<lparr>initializing := True, log_level_cur := level, log_file := file,
                   console_on := enable_console, max_file_size := 100 * 1024 * 1024,
                   max_files := 10, current_file_size := 0\<rparr>
        in if parent_path file \<noteq> '''' \<and> \<not> can_mkdir env (parent_path file)
           then Throw (Std_exception ''filesystem error: cannot create directories'', s1)
           else
             let s2 = open_stream env file s1;
                 s3 = (if stream s2 \<noteq> None then s2\<lparr>current_file_size := tell_end s2\<rparr> else s2);
                 s4 = s3\<lparr>initializing := False\<rparr>
             in case info env ''Logger initialized'' s4 of
                  Ok s5 \<Rightarrow> Ok s5 | Throw e \<Rightarrow> Throw (e, s4) | Fault d \<Rightarrow> Fault d)"

definition logger_guard :: "(logger \<Rightarrow> logger) \<Rightarrow> logger \<Rightarrow> (exn, logger) outcome" where
  "logger_guard f s = (if log_locked s then Fault Deadlock else Ok (f s))"

definition setLevel :: "log_level \<Rightarrow> logger \<Rightarrow> (exn, logger) outcome" where
  "setLevel level = logger_guard (\<lambda>s. s\<lparr>log_level_cur := level\<rparr>)"

definition setConsoleOutput :: "bool \<Rightarrow> logger \<Rightarrow> (exn, logger) outcome" where
  "setConsoleOutput on = logger_guard (\<lambda>s. s\<lparr>console_on := on\<rparr>)"

definition setMaxFileSize :: "nat \<Rightarrow> logger \<Rightarrow> (exn, logger) outcome" where
  "setMaxFileSize n = logger_guard (\<lambda>s. s\<lparr>max_file_size := n\<rparr>)"

definition setMaxFiles :: "int \<Rightarrow> logger \<Rightarrow> (exn, logger) outcome" where
  "setMaxFiles n = logger_guard (\<lambda>s. s\<lparr>max_files := n\<rparr>)"

definition setLogFile :: "log_env \<Rightarrow> string \<Rightarrow> logger \<Rightarrow> (exn, logger) outcome" where
  "setLogFile env file = logger_guard (\<lambda>s.
     let s1 = (if stream s \<noteq> None then close_stream s else s);
         s2 = open_stream env file (s1\<lparr>log_file := file\<rparr>)
     in if stream s2 \<noteq> None then s2\<lparr>current_file_size := tell_end s2\<rparr> else s2)"

subsection \<open>formatMessage\<close>

text \<open>The arguments as \<^verbatim>\<open>operator<<\<close> prints them.\<close>

fun formatMessage :: "string \<Rightarrow> string list \<Rightarrow> string" where
  "formatMessage format [] = format"
| "formatMessage format (value # args) =
     (case find_str ''{}'' format of
        Some pos \<Rightarrow> take pos format @ value @ formatMessage (drop (pos + 2) format) args
      | None \<Rightarrow> format)"

text \<open>The formatted variants of the five messages.\<close>

definition debugf :: "log_env \<Rightarrow> string \<Rightarrow> string list \<Rightarrow> logger \<Rightarrow> (exn, logger) outcome" where
  "debugf env format args s = log_message env DEBUG (formatMessage format args) s"

definition infof :: "log_env \<Rightarrow> string \<Rightarrow> string list \<Rightarrow> logger \<Rightarrow> (exn, logger) outcome" where
  "infof env format args s = log_message env INFO (formatMessage format args) s"

definition warnf :: "log_env \<Rightarrow> string \<Rightarrow> string list \<Rightarrow> logger \<Rightarrow> (exn, logger) outcome" where
  "warnf env format args s = log_message env WARN (formatMessage format args) s"

definition errorf :: "log_env \<Rightarrow> string \<Rightarrow> string list \<Rightarrow> logger \<Rightarrow> (exn, logger) outcome" where
  "errorf env format args s = log_message env LOG_ERROR (formatMessage format args) s"

definition fatalf :: "log_env \<Rightarrow> string \<Rightarrow> string list \<Rightarrow> logger \<Rightarrow> (exn, logger) outcome" where
  "fatalf env format args s = log_message env FATAL (formatMessage format args) s"

text \<open>The destructor of the instance, which runs when the program exits.\<close>

definition Logger_destroy :: "logger \<Rightarrow> logger" where
  "Logger_destroy s = (if stream s \<noteq> None then close_stream s else s)"

subsection \<open>Under the mutex\<close>

lemma log_locked_faults:
  assumes "log_locked s"
  shows "log_message env l m s =
    (if initializing s \<or> level_num l < level_num (log_level_cur s) then Ok s else Fault Deadlock)"
  using assms by (simp add: log_message.simps)

lemma writeToFile_locked: "log_locked s \<Longrightarrow> writeToFile env m s = Fault Deadlock"
  by (simp add: writeToFile.simps checkRotation.simps)

lemma log_unlocked:
  assumes "\<not> log_locked s"
  shows "log_message env l m s =
    (if initializing s \<or> level_num l < level_num (log_level_cur s) then Ok s
     else if stream s \<noteq> None then Fault Deadlock
     else Ok (if console_on s then writeToConsole (format_record env l m) s else s))"
  using assms by (simp add: log_message.simps writeToFile_locked writeToConsole_def Let_def)

subsection \<open>The rotated files\<close>

lemma rotated_name_inj: "rotated_name p i = rotated_name p j \<longleftrightarrow> i = j"
  by (simp add: rotated_name_def int_to_string_inj)

lemma rename_into_free:
  "src \<noteq> dst \<Longrightarrow> fs dst = None \<Longrightarrow> rename_file src dst fs = fs(dst := fs src, src := None)"
  by (auto simp: rename_file_def fun_eq_iff split: option.split)

lemma rename_other: "x \<noteq> src \<Longrightarrow> x \<noteq> dst \<Longrightarrow> rename_file src dst fs x = fs x"
  by (simp add: rename_file_def split: option.split)

lemma shift_files_shift:
  "fs (rotated_name p (int n)) = None \<Longrightarrow> k < n \<Longrightarrow>
    shift_files p n fs (rotated_name p (int k + 1)) = fs (rotated_name p (int k))"
proof (induction n arbitrary: fs)
  case (Suc n)
  let ?fs = "rename_file (rotated_name p (int n)) (rotated_name p (int n + 1)) fs"
  have free: "fs (rotated_name p (int n + 1)) = None" using Suc.prems(1) by (simp add: add.commute)
  have fs': "?fs = fs(rotated_name p (int n + 1) := fs (rotated_name p (int n)),
      rotated_name p (int n) := None)"
    by (rule rename_into_free) (simp_all add: rotated_name_inj free)
  show ?case
  proof (cases "k = n")
    case True
    have stay: "m \<le> n \<Longrightarrow> shift_files p m g (rotated_name p (int n + 1)) = g (rotated_name p (int n + 1))"
      for m g
      by (induction m arbitrary: g) (simp_all add: rename_other rotated_name_inj)
    then show ?thesis by (simp add: True fs' rotated_name_inj)
  next
    case False
    then have "k < n" using Suc.prems(2) by simp
    then have "shift_files p n ?fs (rotated_name p (int k + 1)) = ?fs (rotated_name p (int k))"
      by (intro Suc.IH) (simp_all add: fs')
    then show ?thesis using \<open>k < n\<close> by (simp add: fs' rotated_name_inj)
  qed
qed simp

lemma shift_files_first:
  "fs (rotated_name p (int n)) = None \<Longrightarrow> shift_files p n fs (rotated_name p 0) = None"
proof (induction n arbitrary: fs)
  case (Suc n)
  have "fs (rotated_name p (int n + 1)) = None" using Suc.prems by (simp add: add.commute)
  then have "rename_file (rotated_name p (int n)) (rotated_name p (int n + 1)) fs =
      fs(rotated_name p (int n + 1) := fs (rotated_name p (int n)), rotated_name p (int n) := None)"
    by (intro rename_into_free) (simp_all add: rotated_name_inj)
  then show ?case using Suc.IH by simp
qed simp

lemma shift_files_other:
  "(\<And>i. x \<noteq> rotated_name p i) \<Longrightarrow> shift_files p n fs x = fs x"
  by (induction n arbitrary: fs) (simp_all add: rename_other)

definition rotated :: "log_env \<Rightarrow> logger \<Rightarrow> logger \<Rightarrow> bool" where
  "rotated env s s' \<longleftrightarrow> (let p = log_file s in
     (\<forall>k. int k + 1 < max_files s \<longrightarrow>
        files s' (rotated_name p (int k + 1)) = files s (rotated_name p (int k))) \<and>
     files s' (rotated_name p 0) = files s p \<and>
     files s' p = Some '''' \<and> stream s' = Some p \<and> current_file_size s' = 0)"

lemma rotate_files_rotated:
  assumes "0 < max_files s" "can_open env (log_file s)" "\<And>i. rotated_name (log_file s) i \<noteq> log_file s"
  shows "rotated env s (rotate_files env s)"
proof -
  let ?p = "log_file s" and ?n = "nat (max_files s - 1)"
  let ?fs1 = "(files s)(rotated_name ?p (max_files s - 1) := None)"
  let ?fs2 = "shift_files ?p ?n ?fs1"
  let ?fs3 = "rename_file ?p (rotated_name ?p 0) ?fs2"
  have ne: "?p \<noteq> rotated_name ?p i" for i using assms(3)[of i] by metis
  have n: "int ?n = max_files s - 1" using assms(1) by simp
  have free: "?fs1 (rotated_name ?p (int ?n)) = None" using n by simp
  have f2: "?fs2 ?p = files s ?p" using shift_files_other[of ?p ?p] ne by simp
  have f3: "?fs3 = ?fs2(rotated_name ?p 0 := files s ?p, ?p := None)"
    using rename_into_free[of ?p "rotated_name ?p 0" ?fs2] ne f2
      shift_files_first[where fs = ?fs1, OF free] by simp
  have r: "rotate_files env s = s\<lparr>stream := Some ?p, stream_fail := False,
      files := ?fs3(?p \<mapsto> ''''), current_file_size := 0\<rparr>"
    using assms(2) by (auto simp: rotate_files_def Let_def close_stream_def open_stream_def
        file_text_def f3)
  have "?fs2 (rotated_name ?p (int k + 1)) = files s (rotated_name ?p (int k))"
    if "int k + 1 < max_files s" for k
  proof -
    have "k < ?n" using that by linarith
    from shift_files_shift[where fs = ?fs1, OF free this] this show ?thesis using n by (simp add: rotated_name_inj)
  qed
  then show ?thesis
    using ne assms(3) by (simp add: rotated_def Let_def r f3 rotated_name_inj)
qed

subsection \<open>Properties\<close>

text \<open>
  An open log file stops the program.  With the file open, a message that passes the level
  filter is never written: \<^verbatim>\<open>log\<close> holds the mutex while \<^verbatim>\<open>writeToFile\<close> asks \<^verbatim>\<open>checkRotation\<close>,
  which locks it again.  A message below the level changes nothing.
\<close>
theorem logging_to_open_file_deadlocks:
  assumes "\<not> log_locked s" and "\<not> initializing s" and "stream s \<noteq> None"
  shows "log_message env l m s =
    (if level_num l < level_num (log_level_cur s) then Ok s else Fault Deadlock)"
  using assms by (simp add: log_unlocked)

theorem logging_to_open_file_deadlocks_witness:
  "log_message \<lparr>can_open = \<lambda>_. True, can_mkdir = \<lambda>_. True, stamp = ''t''\<rparr> WARN ''m''
     ((static_logger Map.empty)\<lparr>stream := Some ''a.log''\<rparr>) = Fault Deadlock"
  using logging_to_open_file_deadlocks[of "(static_logger Map.empty)\<lparr>stream := Some ''a.log''\<rparr>"]
  by (simp add: static_logger_def)

text \<open>
  Starting the logger.  \<^verbatim>\<open>init\<close> on the fresh singleton returns only when the file cannot be
  opened or the level is above INFO: otherwise its own first message hangs.  When a directory
  cannot be created it throws and the logger stays silent for ever, since \<^verbatim>\<open>initializing_\<close> is
  left set.
\<close>
theorem init_logger_outcomes:
  assumes "\<not> log_locked s" and "stream s = None"
  shows "if parent_path file \<noteq> '''' \<and> \<not> can_mkdir env (parent_path file)
    then \<exists>e s'. init_logger env file lvl con s = Throw (e, s') \<and> (\<forall>l m. log_message env l m s' = Ok s')
    else if can_open env file \<and> level_num lvl \<le> 1
      then init_logger env file lvl con s = Fault Deadlock
      else returns (init_logger env file lvl con s)"
proof (cases "parent_path file \<noteq> '''' \<and> \<not> can_mkdir env (parent_path file)")
  case True
  with assms show ?thesis by (auto simp: init_logger_def Let_def log_message.simps)
next
  case False
  with assms show ?thesis
    by (auto simp: init_logger_def Let_def info_def log_unlocked open_stream_def)
qed

theorem init_logger_outcomes_witness:
  "init_logger \<lparr>can_open = \<lambda>_. True, can_mkdir = \<lambda>_. True, stamp = ''t''\<rparr> ''logs/a.log'' INFO True
     (static_logger Map.empty) = Fault Deadlock"
  using init_logger_outcomes[of "static_logger Map.empty" "''logs/a.log''"
      "\<lparr>can_open = \<lambda>_. True, can_mkdir = \<lambda>_. True, stamp = ''t''\<rparr>" INFO True]
  by (simp add: static_logger_def)

text \<open>
  Rotation.  When the file has reached its limit, \<^verbatim>\<open>checkRotation\<close> moves every numbered file
  one up, drops the oldest, makes the current file number 0 and starts an empty one; then its
  own message hangs on the mutex unless the level is above INFO.
\<close>
theorem rotation_shifts_files:
  assumes "\<not> log_locked s" and "\<not> initializing s" and "0 < max_files s"
    and "can_open env (log_file s)" and "\<forall>i. rotated_name (log_file s) i \<noteq> log_file s"
    and "(current_file_size s + length m) mod 2 ^ 64 \<ge> max_file_size s"
  shows "if level_num (log_level_cur s) \<le> 1 then checkRotation env m s = Fault Deadlock
    else \<exists>s'. checkRotation env m s = Ok s' \<and> rotated env s s' \<and> \<not> log_locked s'"
proof -
  let ?s = "s\<lparr>log_locked := True\<rparr>"
  have "checkRotation env m s =
      obind (log_message env INFO ''Log file rotated'' (rotate_files env ?s))
        (\<lambda>s1. Ok (s1\<lparr>log_locked := False\<rparr>))"
    using assms(1,6) by (simp add: checkRotation.simps rotateLogFile.simps)
  also have "log_message env INFO ''Log file rotated'' (rotate_files env ?s) =
      (if level_num (log_level_cur s) \<le> 1 then Fault Deadlock else Ok (rotate_files env ?s))"
    using assms(2) by (simp add: log_locked_faults)
  finally have c: "checkRotation env m s = (if level_num (log_level_cur s) \<le> 1 then Fault Deadlock
      else Ok ((rotate_files env ?s)\<lparr>log_locked := False\<rparr>))" by simp
  have "rotated env ?s (rotate_files env ?s)"
    using assms(3,4,5) by (intro rotate_files_rotated) auto
  then have "rotated env s ((rotate_files env ?s)\<lparr>log_locked := False\<rparr>)"
    by (simp add: rotated_def Let_def)
  with c show ?thesis by simp
qed

definition full_logger :: logger where
  "full_logger = (static_logger [''logs/a.log'' \<mapsto> ''old'', ''logs/a.0.log'' \<mapsto> ''older''])
     \<lparr>log_level_cur := WARN, log_file := ''logs/a.log'', stream := Some ''logs/a.log'', max_files := 3\<rparr>"

lemma rotated_name_a: "rotated_name ''logs/a.log'' i = ''logs/a.'' @ int_to_string i @ ''.log''"
  by (simp add: rotated_name_def parent_path_def path_stem_def path_filename_def path_extension_def Let_def)

theorem rotation_shifts_files_witness:
  "\<exists>s'. checkRotation \<lparr>can_open = \<lambda>_. True, can_mkdir = \<lambda>_. True, stamp = ''t''\<rparr> ''m'' full_logger = Ok s' \<and>
    files s' (rotated_name ''logs/a.log'' 0) = Some ''old''"
proof -
  have "rotated_name ''logs/a.log'' i \<noteq> ''logs/a.log''" for i
  proof
    assume "rotated_name ''logs/a.log'' i = ''logs/a.log''"
    then have "length (''logs/a.'' @ int_to_string i @ ''.log'') = length ''logs/a.log''"
      by (simp only: rotated_name_a)
    moreover have "0 < length (int_to_string i)" by simp
    ultimately show False by simp
  qed
  with rotation_shifts_files[of full_logger "\<lparr>can_open = \<lambda>_. True, can_mkdir = \<lambda>_. True, stamp = ''t''\<rparr>" "''m''"]
  obtain s' where "checkRotation \<lparr>can_open = \<lambda>_. True, can_mkdir = \<lambda>_. True, stamp = ''t''\<rparr> ''m'' full_logger = Ok s'"
    "rotated \<lparr>can_open = \<lambda>_. True, can_mkdir = \<lambda>_. True, stamp = ''t''\<rparr> full_logger s'"
    by (auto simp: full_logger_def static_logger_def)
  then show ?thesis by (auto simp: rotated_def Let_def full_logger_def static_logger_def)
qed

end
