(* ===== verification/TcpServer.thy ===== *)
theory TcpServer
  imports RedisProtocol
begin

section \<open>The TCP server (network/tcp_server.h, network/tcp_server.cpp)\<close>

text \<open>
  First the two loops over the socket calls of a connection: what the kernel returns from
  \<^verbatim>\<open>send\<close> and \<^verbatim>\<open>recv\<close> is an argument, one result per call.  Then the threads of the server as a
  step relation: the owner that calls init, start and stop, the accept thread, the worker pool
  with its mutex and condition variable, and the detached threads of the clients.
\<close>

subsection \<open>ClientConnection::send\<close>

text \<open>
  Each result is the count one \<^verbatim>\<open>::send\<close> returns: of the buffer it is given, up to the length it is
  given, the kernel has then taken that many bytes.  The length is cast to an int.
\<close>

definition send_length :: "nat \<Rightarrow> int" where
  "send_length n = sint (word_of_nat n :: 32 word)"

definition os_send :: "string \<Rightarrow> int \<Rightarrow> int \<Rightarrow> string" where
  "os_send buf len n = take (nat (min n len)) buf"

text \<open>
  The loop; wire is what the kernel took in the calls so far.  The value is what the function returns
  and the bytes the kernel took in all; None when the results run out before the loop ends (the call
  blocks).
\<close>

fun send_loop :: "int list \<Rightarrow> string \<Rightarrow> nat \<Rightarrow> string \<Rightarrow> (bool \<times> string) option" where
  "send_loop results data total_sent wire =
     (if total_sent < length data then
        (case results of
           [] \<Rightarrow> None
         | n # rest \<Rightarrow>
             if n \<le> 0 then Some (False, wire)
             else send_loop rest data (total_sent + nat n)
               (wire @ os_send (drop total_sent data) (send_length (length data - total_sent)) n))
      else Some (True, wire))"

declare send_loop.simps [simp del]

definition conn_send :: "bool \<Rightarrow> int list \<Rightarrow> string \<Rightarrow> (bool \<times> string) option" where
  "conn_send is_open results data =
     (if \<not> is_open then Some (False, '''') else send_loop results data 0 '''')"

text \<open>The contract of \<^verbatim>\<open>send(2)\<close>: no call takes more than it was given.\<close>

fun send_results_ok :: "int list \<Rightarrow> nat \<Rightarrow> bool" where
  "send_results_ok [] remaining = True"
| "send_results_ok (n # rest) remaining \<longleftrightarrow>
     (remaining = 0 \<or> n \<le> int remaining \<and> send_results_ok rest (remaining - nat n))"

subsection \<open>ClientConnection::receive\<close>

definition NUL :: char where "NUL = CHR 0x00"

text \<open>
  Each chunk is what one \<^verbatim>\<open>::recv\<close> of at most 4095 bytes delivers; the empty chunk stands for a
  result that is not positive.  \<^verbatim>\<open>data += buffer\<close> appends a C string.
\<close>

fun recv_loop :: "string list \<Rightarrow> string \<Rightarrow> string \<times> string list" where
  "recv_loop [] data = (data, [])"
| "recv_loop (chunk # chunks) data =
     (if chunk = [] then (data, chunks)
      else let data' = data @ takeWhile (\<lambda>c. c \<noteq> NUL) chunk
           in if find_str CRLF data' \<noteq> None then (data', chunks) else recv_loop chunks data')"

definition conn_receive :: "string list \<Rightarrow> string \<times> string list" where
  "conn_receive chunks = recv_loop chunks ''''"

subsection \<open>TCPServer::init\<close>

text \<open>
  What the socket calls give, and for those who only call \<^verbatim>\<open>stop\<close>, whether its joins return: the
  threads it waits for are modelled below, and they may never end.
\<close>

record tcp_env =
  socket_ok :: bool
  setsockopt_ok :: bool
  bind_ok :: bool
  listen_ok :: bool
  joins_end :: bool      \<comment> \<open>do the joins of stop return\<close>

datatype worker =
    W_Loop            \<comment> \<open>at the head of the while loop\<close>
  | W_Locked          \<comment> \<open>holds queue_mutex_, about to evaluate the predicate\<close>
  | W_Check           \<comment> \<open>holds it, found the predicate false, about to sleep\<close>
  | W_Sleep           \<comment> \<open>asleep on queue_cv_, the mutex released\<close>
  | W_Wake            \<comment> \<open>notified, about to take the mutex again\<close>
  | W_Go              \<comment> \<open>holds it, the predicate was true\<close>
  | W_Run string      \<comment> \<open>calls the message handler on a task\<close>
  | W_Exited

datatype accept_thread =
    A_None
  | A_Run             \<comment> \<open>at the head of its loop\<close>
  | A_Blocked         \<comment> \<open>inside the call of accept\<close>
  | A_Exited

text \<open>Where the owner is in \<^verbatim>\<open>stop\<close>.\<close>

datatype owner = O_Free | O_JoinAccept | O_JoinWorkers

record tcp =
  tcp_host :: string
  tcp_port :: int
  sock_open :: bool
  tcp_running :: bool
  workers :: "worker list"
  accept_state :: accept_thread
  task_queue :: "string list"
  connections :: "nat list"
  next_conn :: nat
  owner_state :: owner

definition TCPServer_init :: tcp where
  "TCPServer_init = \<lparr>tcp_host = '''', tcp_port = 0, sock_open = False, tcp_running = False, workers = [],
     accept_state = A_None, task_queue = [], connections = [], next_conn = 0, owner_state = O_Free\<rparr>"

definition bind_exn :: "string \<Rightarrow> int \<Rightarrow> sl_exception" where
  "bind_exn addr p =
     mk_exn BindException (''Failed to bind to '' @ addr @ '':'' @ int_to_string p) (default_code BindException)"

text \<open>What is thrown is the exception and the server: the socket stays open.\<close>

definition tcp_init :: "tcp_env \<Rightarrow> string \<Rightarrow> int \<Rightarrow> int \<Rightarrow> tcp \<Rightarrow> (exn \<times> tcp, bool \<times> tcp) outcome" where
  "tcp_init env h p thread_pool_size s =
     (let s1 = s\<lparr>tcp_host := h, tcp_port := p, sock_open := socket_ok env\<rparr> in
      if \<not> socket_ok env then
        Throw (Skiplist_exception (new_exn SocketException ''Failed to create socket''), s1)
      else if \<not> setsockopt_ok env then
        Throw (Skiplist_exception (new_exn SocketException ''Failed to set socket options''), s1)
      else if \<not> bind_ok env then Throw (Skiplist_exception (bind_exn h p), s1)
      else if \<not> listen_ok env then
        Throw (Skiplist_exception (new_exn SocketException ''Failed to listen on socket''), s1)
      else Ok (True, s1\<lparr>workers := workers s1 @ replicate (nat thread_pool_size) W_Loop\<rparr>))"

definition tcp_start :: "tcp \<Rightarrow> bool \<times> tcp" where
  "tcp_start s =
     (if \<not> sock_open s then (False, s)
      else (True, s\<lparr>tcp_running := True, accept_state := A_Run\<rparr>))"

definition getConnectionCount :: "tcp \<Rightarrow> nat" where
  "getConnectionCount s = length (connections s)"

subsection \<open>stop, in the steps between its joins\<close>

definition stop_begin :: "tcp \<Rightarrow> tcp" where
  "stop_begin s = s\<lparr>tcp_running := False, sock_open := False, owner_state := O_JoinAccept\<rparr>"

definition notified :: "worker \<Rightarrow> worker" where
  "notified w = (if w = W_Sleep then W_Wake else w)"

text \<open>After the accept thread was joined: \<^verbatim>\<open>queue_cv_.notify_all()\<close>, without the mutex.\<close>

definition stop_notify :: "tcp \<Rightarrow> tcp" where
  "stop_notify s = s\<lparr>accept_state := A_None, workers := map notified (workers s), owner_state := O_JoinWorkers\<rparr>"

text \<open>After the workers were joined.\<close>

definition stop_finish :: "tcp \<Rightarrow> tcp" where
  "stop_finish s = s\<lparr>workers := [], connections := [], owner_state := O_Free\<rparr>"

subsection \<open>The worker loop\<close>

definition holds_mutex :: "worker \<Rightarrow> bool" where
  "holds_mutex w \<longleftrightarrow> w = W_Locked \<or> w = W_Check \<or> w = W_Go"

definition mutex_free :: "tcp \<Rightarrow> bool" where
  "mutex_free s \<longleftrightarrow> \<not> (\<exists>w\<in>set (workers s). holds_mutex w)"

text \<open>The step of a worker in state w: its next state and the new queue, None when it must wait.\<close>

definition worker_step :: "tcp \<Rightarrow> worker \<Rightarrow> (worker \<times> string list) option" where
  "worker_step s w =
     (case w of
        W_Loop \<Rightarrow>
          if \<not> tcp_running s then Some (W_Exited, task_queue s)
          else if mutex_free s then Some (W_Locked, task_queue s) else None
      | W_Locked \<Rightarrow>
          if task_queue s \<noteq> [] \<or> \<not> tcp_running s then Some (W_Go, task_queue s)
          else Some (W_Check, task_queue s)
      | W_Check \<Rightarrow> Some (W_Sleep, task_queue s)
      | W_Sleep \<Rightarrow> None
      | W_Wake \<Rightarrow> if mutex_free s then Some (W_Locked, task_queue s) else None
      | W_Go \<Rightarrow>
          if \<not> tcp_running s then Some (W_Exited, task_queue s)
          else (case task_queue s of [] \<Rightarrow> Some (W_Loop, []) | t # ts \<Rightarrow> Some (W_Run t, ts))
      | W_Run t \<Rightarrow> Some (W_Loop, task_queue s)
      | W_Exited \<Rightarrow> None)"

definition step_worker :: "nat \<Rightarrow> tcp \<Rightarrow> tcp option" where
  "step_worker i s =
     (if i < length (workers s) then
        (case worker_step s (workers s ! i) of
           None \<Rightarrow> None
         | Some (w, q) \<Rightarrow> Some (s\<lparr>workers := (workers s)[i := w], task_queue := q\<rparr>))
      else None)"

text \<open>
  The wait on a condition variable may also end without a notification.  The worker then takes the
  mutex and tests the predicate again, as after a notification.
\<close>

inductive spurious_wakeup :: "tcp \<Rightarrow> tcp \<Rightarrow> bool" where
  "i < length (workers s) \<Longrightarrow> workers s ! i = W_Sleep \<Longrightarrow>
    spurious_wakeup s (s\<lparr>workers := (workers s)[i := W_Wake]\<rparr>)"

subsection \<open>Accepting and serving\<close>

text \<open>
  The loop of the accept thread calls \<^verbatim>\<open>accept\<close> while the server runs.  When the call succeeds, the
  connection is listed and a detached thread serves it; the thread is then back at its loop, as it
  is after a call that failed.
\<close>

definition accept_call :: "tcp \<Rightarrow> tcp" where
  "accept_call s = s\<lparr>accept_state := A_Blocked\<rparr>"

definition accept_client :: "tcp \<Rightarrow> tcp" where
  "accept_client s =
     s\<lparr>connections := connections s @ [next_conn s], next_conn := Suc (next_conn s), accept_state := A_Run\<rparr>"

definition accept_failed :: "tcp \<Rightarrow> tcp" where
  "accept_failed s = s\<lparr>accept_state := A_Run\<rparr>"

text \<open>The end of \<^verbatim>\<open>handleClient\<close>.\<close>

definition client_gone :: "nat \<Rightarrow> tcp \<Rightarrow> tcp" where
  "client_gone c s = s\<lparr>connections := filter (\<lambda>d. d \<noteq> c) (connections s)\<rparr>"

text \<open>
  The loop of \<^verbatim>\<open>handleClient\<close> over the chunks that arrive, with the message handler as a function
  on the server's state, while the server runs and the socket is valid: the replies, and the state
  after the connection ended.  The loop reads
  at least one chunk per round.
\<close>

function serve :: "(string \<Rightarrow> 's \<Rightarrow> string \<times> 's) \<Rightarrow> string list \<Rightarrow> 's \<Rightarrow> string list \<times> 's" where
  "serve handle chunks st =
     (case conn_receive chunks of (data, rest) \<Rightarrow>
        if data = [] then ([], st)
        else (case handle data st of (response, st1) \<Rightarrow>
          (case serve handle rest st1 of (out, st2) \<Rightarrow>
             (if response \<noteq> [] then response # out else out, st2))))"
  by pat_completeness auto

lemma recv_loop_length: "recv_loop chunks data = (d, rest) \<Longrightarrow> d = data \<or> length rest < length chunks"
proof (induction chunks arbitrary: data)
  case (Cons chunk chunks)
  let ?d = "data @ takeWhile (\<lambda>c. c \<noteq> NUL) chunk"
  show ?case
  proof (cases "chunk = [] \<or> find_str CRLF ?d \<noteq> None")
    case True
    then show ?thesis using Cons.prems by (cases "chunk = []") (auto simp: Let_def)
  next
    case False
    then have r: "recv_loop chunks ?d = (d, rest)" using Cons.prems by (simp add: Let_def)
    then show ?thesis
    proof (cases chunks)
      case Nil
      then show ?thesis using r by simp
    next
      case (Cons c cs)
      have "length rest' \<le> length cs'" if "recv_loop cs' e = (d', rest')" for cs' e d' rest'
        using that by (induction cs' arbitrary: e) (auto simp: Let_def le_SucI split: if_splits)
      from this[OF r] show ?thesis by simp
    qed
  qed
qed simp

termination serve
  by (relation "measure (\<lambda>(handle, chunks, st). length chunks)")
    (auto simp: conn_receive_def dest!: recv_loop_length[OF sym])

declare serve.simps [simp del]

subsection \<open>The server as a step relation\<close>

text \<open>
  The callers of \<^verbatim>\<open>start\<close> guard it, so that it never meets an accept thread.  Under Linux a call of
  \<^verbatim>\<open>accept\<close> that waits goes on waiting when another thread closes the descriptor of the listening
  socket: it returns when a client connects, also after the close, or when it fails for another
  reason.
\<close>

inductive tcp_step :: "tcp \<Rightarrow> tcp \<Rightarrow> bool" where
  t_start: "owner_state s = O_Free \<Longrightarrow> accept_state s = A_None \<Longrightarrow> tcp_start s = (True, s') \<Longrightarrow> tcp_step s s'"
| t_accept_call: "accept_state s = A_Run \<Longrightarrow> tcp_running s \<Longrightarrow> tcp_step s (accept_call s)"
| t_accept: "accept_state s = A_Blocked \<Longrightarrow> tcp_step s (accept_client s)"
| t_accept_failed: "accept_state s = A_Blocked \<Longrightarrow> tcp_step s (accept_failed s)"
| t_accept_exit: "accept_state s = A_Run \<Longrightarrow> \<not> tcp_running s \<Longrightarrow> tcp_step s (s\<lparr>accept_state := A_Exited\<rparr>)"
| t_worker: "step_worker i s = Some s' \<Longrightarrow> tcp_step s s'"
| t_spurious: "spurious_wakeup s s' \<Longrightarrow> tcp_step s s'"
| t_client: "c \<in> set (connections s) \<Longrightarrow> tcp_step s (client_gone c s)"
| t_stop: "owner_state s = O_Free \<Longrightarrow> tcp_step s (stop_begin s)"
| t_notify: "owner_state s = O_JoinAccept \<Longrightarrow> accept_state s = A_None \<or> accept_state s = A_Exited \<Longrightarrow> tcp_step s (stop_notify s)"
| t_finish: "owner_state s = O_JoinWorkers \<Longrightarrow> \<forall>w\<in>set (workers s). w = W_Exited \<Longrightarrow> tcp_step s (stop_finish s)"

inductive tcp_reachable :: "int \<Rightarrow> tcp \<Rightarrow> bool" for n where
  tr_init: "tcp_init env h p n TCPServer_init = Ok (True, s) \<Longrightarrow> tcp_reachable n s"
| tr_step: "tcp_reachable n s \<Longrightarrow> tcp_step s t \<Longrightarrow> tcp_reachable n t"

inductive_cases tcp_stepE: "tcp_step s t"

end
