(* ===== verification/Replication.thy ===== *)
theory Replication
  imports TcpServer "HOL-Library.Signed_Division"
begin

section \<open>Replication (replication/replication_manager.h, replication_manager.cpp)\<close>

text \<open>
  The state of a \<^verbatim>\<open>ReplicationManager\<close>.  Times are the ticks of \<^verbatim>\<open>system_clock\<close> (nanoseconds since
  the epoch) and are arguments of the operations that read the clock.  What leaves the process
  is \<open>sent\<close> (an address and a message of \<^verbatim>\<open>ClientConnection::send\<close>); what is only printed about a
  slave is \<open>announced\<close>.  The calls of \<^verbatim>\<open>command_handler_\<close> are recorded in \<open>applied\<close>.  Every
  operation holds its mutexes for its whole access to the list of slaves or the log, so it is one
  step; no operation takes a mutex twice.  Offsets are 64-bit counters of commands, far from
  their limit.
\<close>

datatype repl_role = MASTER | SLAVE | UNKNOWN_ROLE

datatype repl_state = CONNECTING | CONNECTED | SYNCING | ONLINE | DISCONNECTED | REPL_ERROR

record slave_info =
  slave_id :: string
  slave_host :: string
  slave_port :: int
  slave_state :: repl_state
  last_ping :: int
  slave_offset :: int
  is_online :: bool

text \<open>The constructor does not set \<^verbatim>\<open>last_ping\<close>: a default \<^verbatim>\<open>time_point\<close> is the epoch.\<close>

definition new_slave :: "string \<Rightarrow> int \<Rightarrow> slave_info" where
  "new_slave h p = \<lparr>slave_id = h @ '':'' @ int_to_string p, slave_host = h, slave_port = p,
     slave_state = CONNECTING, last_ping = 0, slave_offset = 0, is_online = False\<rparr>"

record log_entry =
  entry_offset :: int
  entry_command :: string
  entry_time :: int

record repl_stats =
  total_commands_replicated :: int
  total_bytes_replicated :: int
  replication_lag :: int
  connected_slaves :: int
  last_sync_time :: int

record repl =
  role :: repl_role
  rstate :: repl_state
  running :: bool
  slaves :: "slave_info list"
  server_up :: bool
  master_host :: string
  master_port :: int
  rlog :: "log_entry list"
  roffset :: int
  master_thread :: bool
  slave_thread :: bool
  ping_thread :: bool
  rstats :: repl_stats
  has_handler :: bool
  replication_port :: int
  ping_interval_ms :: int
  sync_timeout_ms :: int
  max_replication_log_size :: nat
  sent :: "(string \<times> string) list"
  announced :: "(string \<times> string) list"
  applied :: "string list"

definition ReplicationManager_init :: repl where
  "ReplicationManager_init = \<lparr>role = UNKNOWN_ROLE, rstate = DISCONNECTED, running = False, slaves = [],
     server_up = False, master_host = '''', master_port = 0, rlog = [], roffset = 0,
     master_thread = False, slave_thread = False, ping_thread = False,
     rstats = \<lparr>total_commands_replicated = 0, total_bytes_replicated = 0, replication_lag = 0,
       connected_slaves = 0, last_sync_time = 0\<rparr>,
     has_handler = False, replication_port = 16379, ping_interval_ms = 1000, sync_timeout_ms = 5000,
     max_replication_log_size = 10000, sent = [], announced = [], applied = []\<rparr>"

subsection \<open>Roles, start and stop\<close>

definition setRole :: "repl_role \<Rightarrow> repl \<Rightarrow> repl" where
  "setRole r s = s\<lparr>role := r\<rparr>"

definition isMaster :: "repl \<Rightarrow> bool" where
  "isMaster s \<longleftrightarrow> role s = MASTER"

definition isSlave :: "repl \<Rightarrow> bool" where
  "isSlave s \<longleftrightarrow> role s = SLAVE"

definition setMasterAddress :: "string \<Rightarrow> int \<Rightarrow> repl \<Rightarrow> repl" where
  "setMasterAddress h p s = s\<lparr>master_host := h, master_port := p\<rparr>"

definition getMasterAddress :: "repl \<Rightarrow> string" where
  "getMasterAddress s = master_host s @ '':'' @ int_to_string (master_port s)"

definition setCommandHandler :: "repl \<Rightarrow> repl" where
  "setCommandHandler s = s\<lparr>has_handler := True\<rparr>"

definition setReplicationOffset :: "int \<Rightarrow> repl \<Rightarrow> repl" where
  "setReplicationOffset n s = s\<lparr>roffset := n\<rparr>"

definition init_repl :: "string \<Rightarrow> int \<Rightarrow> repl \<Rightarrow> repl" where
  "init_repl h p s =
     (if h \<noteq> '''' then setMasterAddress h p (setRole SLAVE s) else setRole MASTER s)"

definition updateState :: "repl_state \<Rightarrow> repl \<Rightarrow> repl" where
  "updateState st s = s\<lparr>rstate := st\<rparr>"

text \<open>
  A master sets up the TCP server of the replication port; what the socket calls return is a
  parameter.  \<^verbatim>\<open>running_\<close> is set before, and stays set when \<^verbatim>\<open>TCPServer::init\<close> throws: the throw
  carries the manager.
\<close>

definition startReplication :: "tcp_env \<Rightarrow> repl \<Rightarrow> (exn \<times> repl, bool \<times> repl) outcome" where
  "startReplication env s =
     (if running s then Ok (True, s)
      else
        let s1 = s\<lparr>running := True\<rparr> in
        if isMaster s1 then
          (case tcp_init env ''0.0.0.0'' (replication_port s1) 2 TCPServer_init of
             Throw (e, t) \<Rightarrow> Throw (e, s1)
           | Fault d \<Rightarrow> Fault d
           | Ok (init_ok, t) \<Rightarrow>
               if \<not> init_ok then Ok (False, s1)
               else if \<not> fst (tcp_start t) then Ok (False, s1)
               else Ok (True, updateState ONLINE
                      (s1\<lparr>server_up := True, master_thread := True, ping_thread := True\<rparr>)))
        else if isSlave s1 then Ok (True, updateState CONNECTING (s1\<lparr>slave_thread := True\<rparr>))
        else Ok (True, s1))"

definition stopReplication :: "repl \<Rightarrow> repl" where
  "stopReplication s =
     (if \<not> running s then s
      else updateState DISCONNECTED (s\<lparr>running := False, server_up := False, master_thread := False,
             slave_thread := False, ping_thread := False\<rparr>))"

text \<open>
  The call waits for the threads of the replication server, as \<^verbatim>\<open>TCPServer::stop\<close> does; they may never
  end.  The destructor stops the replication too.
\<close>

definition stop_call :: "tcp_env \<Rightarrow> repl \<Rightarrow> (exn, repl) outcome" where
  "stop_call env s =
     (if running s \<and> server_up s \<and> \<not> joins_end env then Fault Diverges else Ok (stopReplication s))"

definition ReplicationManager_destroy :: "tcp_env \<Rightarrow> repl \<Rightarrow> (exn, unit) outcome" where
  "ReplicationManager_destroy env s = obind (stop_call env s) (\<lambda>s1. Ok ())"

subsection \<open>The list of slaves\<close>

definition addSlave :: "string \<Rightarrow> int \<Rightarrow> repl \<Rightarrow> bool \<times> repl" where
  "addSlave h p s =
     (if \<not> isMaster s then (False, s)
      else if \<exists>sl\<in>set (slaves s). slave_host sl = h \<and> slave_port sl = p then (False, s)
      else (True, s\<lparr>slaves := slaves s @ [new_slave h p]\<rparr>))"

definition removeSlave :: "string \<Rightarrow> repl \<Rightarrow> repl" where
  "removeSlave i s =
     (if \<not> isMaster s then s else s\<lparr>slaves := filter (\<lambda>sl. slave_id sl \<noteq> i) (slaves s)\<rparr>)"

definition getSlaves :: "repl \<Rightarrow> slave_info list" where
  "getSlaves s = slaves s"

fun update_first :: "('a \<Rightarrow> bool) \<Rightarrow> ('a \<Rightarrow> 'a) \<Rightarrow> 'a list \<Rightarrow> 'a list" where
  "update_first P f [] = []"
| "update_first P f (x # xs) = (if P x then f x # xs else x # update_first P f xs)"

definition slave_matches :: "string \<Rightarrow> slave_info \<Rightarrow> bool" where
  "slave_matches i sl \<longleftrightarrow>
     slave_id sl = i \<or> slave_host sl @ '':'' @ int_to_string (slave_port sl) = i"

definition updateSlavePing :: "int \<Rightarrow> string \<Rightarrow> repl \<Rightarrow> repl" where
  "updateSlavePing now i s = s\<lparr>slaves :=
     update_first (slave_matches i) (\<lambda>sl. sl\<lparr>last_ping := now, is_online := True\<rparr>) (slaves s)\<rparr>"

definition updateSlaveOffset :: "string \<Rightarrow> int \<Rightarrow> repl \<Rightarrow> repl" where
  "updateSlaveOffset i off s = s\<lparr>slaves :=
     update_first (slave_matches i) (\<lambda>sl. sl\<lparr>slave_offset := off\<rparr>) (slaves s)\<rparr>"

subsection \<open>Commands\<close>

definition serializeReplicationCommand :: "string \<Rightarrow> string" where
  "serializeReplicationCommand c = nat_to_string (length c) @ '':'' @ c"

text \<open>\<^verbatim>\<open>substr\<close> with a negative length, converted to \<^verbatim>\<open>size_t\<close>, runs to the end.\<close>

definition deserializeReplicationCommand :: "string \<Rightarrow> (exn, string) outcome" where
  "deserializeReplicationCommand data =
     (case find_char (CHR '':'') data of
        None \<Rightarrow> Ok ''''
      | Some pos \<Rightarrow>
          obind (stoi (take pos data)) (\<lambda>len.
            let rest = drop (pos + 1) data
            in Ok (if len < 0 then rest else take (nat len) rest)))"

definition drop_front :: "nat \<Rightarrow> 'a list \<Rightarrow> 'a list" where
  "drop_front limit xs = drop (length xs - limit) xs"

definition logReplicationEntry :: "int \<Rightarrow> string \<Rightarrow> repl \<Rightarrow> repl" where
  "logReplicationEntry now c s =
     s\<lparr>rlog := drop_front (max_replication_log_size s)
         (rlog s @ [\<lparr>entry_offset = roffset s, entry_command = c, entry_time = now\<rparr>]),
       roffset := roffset s + 1\<rparr>"

text \<open>For each slave that is online a line is printed; the send is a comment in the code.\<close>

definition replicateToSlaves :: "string \<Rightarrow> repl \<Rightarrow> repl" where
  "replicateToSlaves c s = s\<lparr>announced := announced s @
     map (\<lambda>sl. (slave_id sl, serializeReplicationCommand c)) (filter is_online (slaves s))\<rparr>"

definition replicateCommand :: "int \<Rightarrow> string \<Rightarrow> repl \<Rightarrow> repl" where
  "replicateCommand now c s =
     (if \<not> isMaster s then s
      else
        let s1 = replicateToSlaves c (logReplicationEntry now c s); st = rstats s1
        in s1\<lparr>rstats := st\<lparr>total_commands_replicated := total_commands_replicated st + 1,
                           total_bytes_replicated := total_bytes_replicated st + int (length c),
                           last_sync_time := now\<rparr>\<rparr>)"

definition applyReplicationCommand :: "string \<Rightarrow> repl \<Rightarrow> repl" where
  "applyReplicationCommand c s =
     (if \<not> isSlave s then s
      else s\<lparr>applied := (if has_handler s then applied s @ [c] else applied s),
             roffset := roffset s + 1\<rparr>)"

subsection \<open>The loops of the master\<close>

definition handleNewSlaveConnections :: "repl \<Rightarrow> repl" where
  "handleNewSlaveConnections s =
     s\<lparr>rstats := (rstats s)\<lparr>connected_slaves := int (length (filter is_online (slaves s)))\<rparr>\<rparr>"

text \<open>The loop over the queue: current_offset, and the state with the announcements.\<close>

fun drain_log :: "log_entry list \<Rightarrow> int \<Rightarrow> repl \<Rightarrow> int \<times> repl" where
  "drain_log [] cur s = (cur, s)"
| "drain_log (e # es) cur s =
     (if entry_offset e > cur then drain_log es (entry_offset e) (replicateToSlaves (entry_command e) s)
      else drain_log es cur s)"

definition processReplicationQueue :: "repl \<Rightarrow> repl" where
  "processReplicationQueue s =
     (if rlog s = [] then s
      else case drain_log (rlog s) (roffset s) s of
             (cur, s1) \<Rightarrow> s1\<lparr>rlog := [], roffset := cur\<rparr>)"

text \<open>
  Differences of offsets are 64-bit; an offset that a slave sent can make them wrap, as the machine
  code does.
\<close>

definition wrap64 :: "int \<Rightarrow> int" where
  "wrap64 i = (i + 2 ^ 63) mod 2 ^ 64 - 2 ^ 63"

lemma wrap64_id [simp]: "- (2 ^ 63) \<le> i \<Longrightarrow> i < 2 ^ 63 \<Longrightarrow> wrap64 i = i"
  by (simp add: wrap64_def)

definition updateSlaveStats :: "repl \<Rightarrow> repl" where
  "updateSlaveStats s =
     (let on = filter is_online (slaves s);
          n = int (length on);
          lag = wrap64 (sum_list (map (\<lambda>sl. roffset s - slave_offset sl) on))
      in s\<lparr>rstats := (rstats s)\<lparr>connected_slaves := n, replication_lag := (if n > 0 then lag sdiv n else 0)\<rparr>\<rparr>)"

definition ms :: "int \<Rightarrow> int" where
  "ms n = n * 1000000"

definition checkSlaveHealth :: "int \<Rightarrow> repl \<Rightarrow> repl" where
  "checkSlaveHealth now s = s\<lparr>slaves := map (\<lambda>sl.
     if is_online sl \<and> now - last_ping sl > ms (ping_interval_ms s * 2)
     then sl\<lparr>is_online := False, slave_state := DISCONNECTED\<rparr> else sl) (slaves s)\<rparr>"

definition cleanupDeadSlaves :: "int \<Rightarrow> repl \<Rightarrow> repl" where
  "cleanupDeadSlaves now s = s\<lparr>slaves :=
     filter (\<lambda>sl. \<not> now - last_ping sl > ms (ping_interval_ms s * 3)) (slaves s)\<rparr>"

text \<open>One pass of \<^verbatim>\<open>masterLoop\<close>; nothing in it throws.\<close>

definition masterLoop_pass :: "int \<Rightarrow> int \<Rightarrow> repl \<Rightarrow> repl" where
  "masterLoop_pass now1 now2 s =
     cleanupDeadSlaves now2 (checkSlaveHealth now1 (updateSlaveStats (processReplicationQueue
       (handleNewSlaveConnections s))))"

text \<open>One pass of \<^verbatim>\<open>pingSlaves\<close>: the answer is the constant PONG.\<close>

definition ping_one :: "int \<Rightarrow> slave_info \<Rightarrow> slave_info" where
  "ping_one now sl =
     (if is_online sl then
        let pong_response = ''PONG'' in
        if pong_response = ''PONG'' then sl\<lparr>last_ping := now\<rparr>
        else sl\<lparr>is_online := False, slave_state := DISCONNECTED\<rparr>
      else sl\<lparr>slave_state := CONNECTING\<rparr>)"

definition pingSlaves_pass :: "int \<Rightarrow> int \<Rightarrow> repl \<Rightarrow> repl" where
  "pingSlaves_pass now1 now2 s =
     (let s1 = cleanupDeadSlaves now1 s in s1\<lparr>slaves := map (ping_one now2) (slaves s1)\<rparr>)"

subsection \<open>Messages of the slaves\<close>

text \<open>
  A client connection as the handlers see it: its address, whether its socket is open, what the
  next \<^verbatim>\<open>receive()\<close> returns and whether \<^verbatim>\<open>send\<close> succeeds.
\<close>

record repl_client =
  cl_address :: string
  cl_valid :: bool
  cl_receive :: string
  cl_send_ok :: bool

definition client_send :: "repl_client \<Rightarrow> string \<Rightarrow> repl \<Rightarrow> repl" where
  "client_send c m s = (if cl_send_ok c then s\<lparr>sent := sent s @ [(cl_address c, m)]\<rparr> else s)"

definition sendSyncCommands :: "repl_client \<Rightarrow> slave_info \<Rightarrow> repl \<Rightarrow> slave_info \<times> repl" where
  "sendSyncCommands c sl s =
     (let m = ''SYNC:'' @ int_to_string (slave_offset sl) @ '':'' @ int_to_string (roffset s);
          s1 = (if cl_valid c then client_send c m s else s)
      in (sl\<lparr>slave_offset := roffset s1\<rparr>, s1))"

text \<open>
  What \<^verbatim>\<open>handleSlaveConnection\<close> does to the entry of the slave once it is found or created; the
  shared pointer makes every change visible in the list.
\<close>

definition greet_slave :: "int \<Rightarrow> repl_client \<Rightarrow> slave_info \<Rightarrow> repl \<Rightarrow> slave_info \<times> repl" where
  "greet_slave now c sl0 s =
     (let sl = sl0\<lparr>slave_state := CONNECTED, is_online := True, last_ping := now\<rparr>;
          s1 = client_send c (''MASTER:OK:'' @ int_to_string (roffset s)) s
      in if \<not> cl_send_ok c then (sl\<lparr>is_online := False, slave_state := DISCONNECTED\<rparr>, s1)
         else if slave_offset sl < roffset s1 then
           (case sendSyncCommands c (sl\<lparr>slave_state := SYNCING\<rparr>) s1 of
              (sl2, s2) \<Rightarrow> (sl2\<lparr>slave_state := ONLINE\<rparr>, s2))
         else (sl, s1))"

definition handleSlaveConnection :: "int \<Rightarrow> repl_client \<Rightarrow> repl \<Rightarrow> repl" where
  "handleSlaveConnection now c s =
     (if \<not> cl_valid c then s
      else if cl_receive c = '''' then s
      else
        let h = cl_address c in
        case find (\<lambda>sl. slave_host sl = h) (slaves s) of
          Some sl0 \<Rightarrow> (case greet_slave now c sl0 s of
              (sl, s1) \<Rightarrow> s1\<lparr>slaves := update_first (\<lambda>sl. slave_host sl = h) (\<lambda>_. sl) (slaves s1)\<rparr>)
        | None \<Rightarrow> (case greet_slave now c (new_slave h 0) s of
              (sl, s1) \<Rightarrow> s1\<lparr>slaves := slaves s1 @ [sl]\<rparr>))"

definition handleSyncRequest :: "repl_client \<Rightarrow> int \<Rightarrow> repl \<Rightarrow> string \<times> repl" where
  "handleSyncRequest c off s =
     (let n = wrap64 (roffset s - off) in
      if n \<le> 0 then (''SYNC:OK:0'', s)
      else let m = ''SYNC:START:'' @ int_to_string n
           in (m, if cl_valid c then client_send c m s else s))"

definition handleReplicationMessage :: "int \<Rightarrow> string \<Rightarrow> repl_client \<Rightarrow> repl \<Rightarrow> string \<times> repl" where
  "handleReplicationMessage now m c s =
     (if \<not> cl_valid c then (''ERROR:Invalid connection'', s)
      else if find_str ''SLAVE_CONNECT'' m = Some 0 then
        let s1 = handleSlaveConnection now c s
        in (''MASTER:OK:'' @ int_to_string (roffset s1), s1)
      else if find_str ''PING'' m = Some 0 then (''PONG'', updateSlavePing now (cl_address c) s)
      else if find_str ''SYNC_REQUEST'' m = Some 0 then
        (case find_char (CHR '':'') m of
           None \<Rightarrow> (''ERROR:Invalid sync request format'', s)
         | Some pos \<Rightarrow> (case stoll (drop (pos + 1) m) of
               Ok off \<Rightarrow> handleSyncRequest c off s
             | _ \<Rightarrow> (''ERROR:Invalid sync offset'', s)))
      else if find_str ''COMMAND_ACK'' m = Some 0 then
        (case find_char (CHR '':'') m of
           None \<Rightarrow> (''ERROR:Invalid ack format'', s)
         | Some pos \<Rightarrow> (case stoll (drop (pos + 1) m) of
               Ok off \<Rightarrow> (''OK'', updateSlaveOffset (cl_address c) off s)
             | _ \<Rightarrow> (''ERROR:Invalid ack offset'', s)))
      else (''ERROR:Unknown message type'', s))"

subsection \<open>The loop of a slave\<close>

text \<open>The answer of the master is simulated in the code by a constant; here it is an argument.\<close>

definition connect_with :: "string \<Rightarrow> repl \<Rightarrow> repl" where
  "connect_with response s =
     (if find_str ''MASTER:OK'' response = Some 0 then updateState CONNECTED s else updateState REPL_ERROR s)"

definition connectToMaster :: "repl \<Rightarrow> repl" where
  "connectToMaster s = connect_with (''MASTER:OK:'' @ int_to_string (roffset s)) s"

fun apply_synced :: "nat \<Rightarrow> nat \<Rightarrow> repl \<Rightarrow> repl" where
  "apply_synced i 0 s = s"
| "apply_synced i (Suc n) s = apply_synced (Suc i) n
     (applyReplicationCommand (''SET synced_key'' @ nat_to_string i @ '' synced_value'' @ nat_to_string i) s)"

definition sync_with :: "string \<Rightarrow> repl \<Rightarrow> repl" where
  "sync_with response s =
     (if find_str ''SYNC:START'' response = Some 0 then
        (case find_char (CHR '':'') response of
           None \<Rightarrow> updateState ONLINE s
         | Some pos \<Rightarrow> (case stoi (drop (pos + 1) response) of
               Ok n \<Rightarrow> updateState ONLINE (apply_synced 0 (nat n) s)
             | _ \<Rightarrow> updateState REPL_ERROR s))
      else updateState REPL_ERROR s)"

definition syncWithMaster :: "repl \<Rightarrow> repl" where
  "syncWithMaster s = sync_with ''SYNC:START:0'' s"

text \<open>The heartbeat's answer and the next command of the master, both constants in the code.\<close>

definition master_commands_with :: "string \<Rightarrow> string \<Rightarrow> repl \<Rightarrow> repl" where
  "master_commands_with response c s =
     (if response = ''PONG'' then
        if c = '''' then s
        else (case deserializeReplicationCommand c of
                Ok d \<Rightarrow> if d = '''' then s else applyReplicationCommand d s
              | _ \<Rightarrow> updateState REPL_ERROR s)
      else updateState DISCONNECTED s)"

definition handleMasterCommands :: "repl \<Rightarrow> repl" where
  "handleMasterCommands s = master_commands_with ''PONG'' '''' s"

definition slaveLoop_pass :: "repl \<Rightarrow> repl" where
  "slaveLoop_pass s =
     (if rstate s = CONNECTING \<or> rstate s = DISCONNECTED then connectToMaster s
      else if rstate s = CONNECTED then syncWithMaster s
      else if rstate s = ONLINE then handleMasterCommands s
      else s)"

end
