(* ===== verification/RedisHandler.thy ===== *)
theory RedisHandler
  imports Persistence RedisProtocol Configuration Logger Replication
begin

section \<open>The command handler (server/redis_handler.h, server/redis_handler.cpp)\<close>

text \<open>
  The state of a \<^verbatim>\<open>RedisHandler\<close> together with what it works on: the list, the replication
  manager (null before \<^verbatim>\<open>init\<close>), the singleton logger, the dump file and the append-only file.
  \<open>aof_buffer\<close> is what was written to \<^verbatim>\<open>aof_stream_\<close> and not flushed; a stream that is not open
  drops what is written to it.  The statistics are \<^verbatim>\<open>size_t\<close>, 64-bit words that wrap.
  The numbers of rand(), the clock readings of the call and the environment of the logger are
  the parameter \<open>henv\<close>.  A handler that leaves by an exception throws the exception and
  the state it leaves behind.
\<close>

record cmd_stats =
  total_commands :: "64 word"
  get_commands :: "64 word"
  set_commands :: "64 word"
  del_commands :: "64 word"
  exists_commands :: "64 word"
  ping_commands :: "64 word"
  info_commands :: "64 word"
  flush_commands :: "64 word"
  save_commands :: "64 word"
  load_commands :: "64 word"

definition zero_stats :: cmd_stats where
  "zero_stats = \<lparr>total_commands = 0, get_commands = 0, set_commands = 0, del_commands = 0,
     exists_commands = 0, ping_commands = 0, info_commands = 0, flush_commands = 0,
     save_commands = 0, load_commands = 0\<rparr>"

record henv =
  env_rand :: "nat \<Rightarrow> nat"
  lenv :: log_env
  now_aof :: int       \<comment> \<open>the clock as appendAOF reads it\<close>
  now_repl :: int      \<comment> \<open>the clock as the replication manager reads it\<close>
  now_info :: int      \<comment> \<open>the clock as getServerInfo reads it\<close>
  pid :: int

record handler =
  store :: "skiplist option"
  registered :: bool
  stats :: cmd_stats
  current_db :: int
  authenticated :: bool
  password :: string
  aof_enabled :: bool
  aof_name :: string
  aof_policy :: string
  aof_interval :: int
  last_aof_fsync :: int
  aof_open :: bool
  aof_buffer :: string
  replication :: "repl option"
  lgr :: logger
  store_disk :: store_file
  aof_disk :: "string option"
  aof_can_open :: bool

definition RedisHandler_init :: "logger \<Rightarrow> store_file \<Rightarrow> string option \<Rightarrow> bool \<Rightarrow> handler" where
  "RedisHandler_init l d a can = \<lparr>store = None, registered = False, stats = zero_stats, current_db = 0,
     authenticated = True, password = '''', aof_enabled = False, aof_name = '''', aof_policy = '''',
     aof_interval = 1, last_aof_fsync = 0, aof_open = False, aof_buffer = '''', replication = None,
     lgr = l, store_disk = d, aof_disk = a, aof_can_open = can\<rparr>"

type_synonym 'a handler_op = "handler \<Rightarrow> (exn \<times> handler, 'a \<times> handler) outcome"

subsection \<open>Calls into the other components\<close>

definition log_at :: "henv \<Rightarrow> log_level \<Rightarrow> string \<Rightarrow> unit handler_op" where
  "log_at env level m h =
     (case log_message (lenv env) level m (lgr h) of
        Ok l \<Rightarrow> Ok ((), h\<lparr>lgr := l\<rparr>) | Throw e \<Rightarrow> Throw (e, h) | Fault d \<Rightarrow> Fault d)"

text \<open>A call through \<^verbatim>\<open>skiplist_->\<close>; the pointer is null before \<^verbatim>\<open>init\<close>.\<close>

definition on_store :: "(skiplist \<Rightarrow> (exn, 'a \<times> skiplist) outcome) \<Rightarrow> 'a handler_op" where
  "on_store f h =
     (case store h of
        None \<Rightarrow> Fault Bad_pointer
      | Some s \<Rightarrow> (case f s of
            Ok (a, s') \<Rightarrow> Ok (a, h\<lparr>store := Some s'\<rparr>)
          | Throw e \<Rightarrow> Throw (e, h)
          | Fault d \<Rightarrow> Fault d))"

definition with_stats :: "(cmd_stats \<Rightarrow> cmd_stats) \<Rightarrow> handler \<Rightarrow> handler" where
  "with_stats f h = h\<lparr>stats := f (stats h)\<rparr>"

definition stringToInt :: "string \<Rightarrow> int option" where
  "stringToInt str = (case stoi str of Ok v \<Rightarrow> Some v | _ \<Rightarrow> None)"

definition err :: "string \<Rightarrow> string" where
  "err m = createError (''ERR '' @ m)"

definition wrong_args :: "string \<Rightarrow> string" where
  "wrong_args c = err (''wrong number of arguments for '' @ [CHR 0x27] @ c @ [CHR 0x27] @ '' command'')"

text \<open>The other helpers for replies; the handlers call the codec directly.\<close>

definition createOkResponse :: string where
  "createOkResponse = createSimpleString ''OK''"

definition createIntegerResponse :: "int \<Rightarrow> string" where
  "createIntegerResponse v = createInteger v"

definition createBulkStringResponse :: "string \<Rightarrow> string" where
  "createBulkStringResponse v = createBulkString v"

definition createArrayResponse :: "string list \<Rightarrow> string" where
  "createArrayResponse vs = createArray vs"

subsection \<open>The append-only file\<close>

definition aof_flush :: "handler \<Rightarrow> handler" where
  "aof_flush h =
     (if aof_open h
      then h\<lparr>aof_disk := Some ((case aof_disk h of None \<Rightarrow> '''' | Some t \<Rightarrow> t) @ aof_buffer h), aof_buffer := ''''\<rparr>
      else h)"

definition appendAOF :: "henv \<Rightarrow> string \<Rightarrow> handler \<Rightarrow> handler" where
  "appendAOF env cmdline h =
     (if \<not> aof_enabled h then h
      else
        let h1 = (if aof_open h then h\<lparr>aof_buffer := aof_buffer h @ cmdline @ [LF]\<rparr> else h)
        in if aof_policy h1 = ''always'' then aof_flush h1
           else if aof_policy h1 = ''everysec'' then
             if (now_aof env - last_aof_fsync h1) sdiv 1000000000 \<ge> aof_interval h1
             then (aof_flush h1)\<lparr>last_aof_fsync := now_aof env\<rparr>
             else h1
           else h1)"

definition flushAOF :: "handler \<Rightarrow> handler" where
  "flushAOF h = (if \<not> aof_enabled h then h else aof_flush h)"

text \<open>Opening for append creates the file.\<close>

definition open_aof :: "handler \<Rightarrow> handler" where
  "open_aof h =
     (if aof_can_open h
      then h\<lparr>aof_open := True, aof_disk := Some (case aof_disk h of None \<Rightarrow> '''' | Some t \<Rightarrow> t)\<rparr>
      else h\<lparr>aof_open := False\<rparr>)"

definition reopenAOF :: "handler \<Rightarrow> handler" where
  "reopenAOF h =
     (if \<not> aof_enabled h then h
      else open_aof (if aof_open h then (aof_flush h)\<lparr>aof_open := False\<rparr> else h))"

definition isAOFEnabled :: "handler \<Rightarrow> bool" where
  "isAOFEnabled h = aof_enabled h"

subsection \<open>Saving and loading\<close>

definition saveData :: "henv \<Rightarrow> unit handler_op" where
  "saveData env h =
     (case store h of
        None \<Rightarrow> Ok ((), h)
      | Some s \<Rightarrow> (case dump_file s (store_disk h) of
            Ok d \<Rightarrow> log_at env INFO ''Data saved to file'' (h\<lparr>store_disk := d\<rparr>)
          | Throw e \<Rightarrow> Throw (e, h)
          | Fault f \<Rightarrow> Fault f))"

definition loadData :: "henv \<Rightarrow> unit handler_op" where
  "loadData env h =
     (case store h of
        None \<Rightarrow> Ok ((), h)
      | Some s \<Rightarrow> (case load_file (env_rand env) (store_disk h) s of
            Ok s' \<Rightarrow> log_at env INFO ''Data loaded from file'' (h\<lparr>store := Some s'\<rparr>)
          | Throw (e, s') \<Rightarrow> Throw (e, h\<lparr>store := Some s'\<rparr>)
          | Fault f \<Rightarrow> Fault f))"

subsection \<open>Replication\<close>

definition replicate :: "henv \<Rightarrow> string \<Rightarrow> handler \<Rightarrow> handler" where
  "replicate env c h =
     (case replication h of
        Some r \<Rightarrow> if isMaster r then h\<lparr>replication := Some (replicateCommand (now_repl env) c r)\<rparr> else h
      | None \<Rightarrow> h)"

definition initReplication :: "string \<Rightarrow> int \<Rightarrow> handler \<Rightarrow> handler" where
  "initReplication mhost mport h =
     h\<lparr>replication := Some (setCommandHandler (init_repl mhost mport ReplicationManager_init))\<rparr>"

definition handler_startReplication :: "tcp_env \<Rightarrow> bool handler_op" where
  "handler_startReplication env h =
     (case replication h of
        Some r \<Rightarrow> (case startReplication env r of
            Ok (ok, r') \<Rightarrow> Ok (ok, h\<lparr>replication := Some r'\<rparr>)
          | Throw (e, r') \<Rightarrow> Throw (e, h\<lparr>replication := Some r'\<rparr>)
          | Fault d \<Rightarrow> Fault d)
      | None \<Rightarrow> Ok (False, h))"

definition handler_stopReplication :: "tcp_env \<Rightarrow> handler \<Rightarrow> (exn, handler) outcome" where
  "handler_stopReplication env h =
     (case replication h of
        Some r \<Rightarrow> obind (stop_call env r) (\<lambda>r'. Ok (h\<lparr>replication := Some r'\<rparr>))
      | None \<Rightarrow> Ok h)"

definition handler_isMaster :: "handler \<Rightarrow> bool" where
  "handler_isMaster h = (case replication h of Some r \<Rightarrow> isMaster r | None \<Rightarrow> False)"

definition handler_isSlave :: "handler \<Rightarrow> bool" where
  "handler_isSlave h = (case replication h of Some r \<Rightarrow> isSlave r | None \<Rightarrow> False)"

definition handler_addSlave :: "string \<Rightarrow> int \<Rightarrow> handler \<Rightarrow> handler" where
  "handler_addSlave hst p h =
     (case replication h of Some r \<Rightarrow> h\<lparr>replication := Some (snd (addSlave hst p r))\<rparr> | None \<Rightarrow> h)"

definition handler_getSlaves :: "handler \<Rightarrow> slave_info list" where
  "handler_getSlaves h = (case replication h of Some r \<Rightarrow> getSlaves r | None \<Rightarrow> [])"

definition resetStats :: "handler \<Rightarrow> handler" where
  "resetStats h = h\<lparr>stats := zero_stats\<rparr>"

subsection \<open>The commands\<close>

type_synonym command_handler = "henv \<Rightarrow> string list \<Rightarrow> string handler_op"

definition handlePing :: command_handler where
  "handlePing env args h =
     (let h1 = with_stats (\<lambda>s. s\<lparr>ping_commands := ping_commands s + 1\<rparr>) h
      in Ok (if args = [] then createSimpleString ''PONG'' else createBulkString (args ! 0), h1))"

definition handleEcho :: command_handler where
  "handleEcho env args h =
     Ok (if args = [] then wrong_args ''echo'' else createBulkString (args ! 0), h)"

definition handleSet :: command_handler where
  "handleSet env args h =
     (if length args < 2 then Ok (wrong_args ''set'', h)
      else case stringToInt (args ! 0) of
        None \<Rightarrow> Ok (err ''key must be an integer'', h)
      | Some key \<Rightarrow>
          obind (on_store (insert_element (env_rand env) key (args ! 1)) h) (\<lambda>(result, h1).
            let h2 = with_stats (\<lambda>s. s\<lparr>set_commands := set_commands s + 1\<rparr>) h1 in
            if result = 0 then
              let line = ''SET '' @ args ! 0 @ '' '' @ args ! 1
              in Ok (createSimpleString ''OK'', replicate env line (appendAOF env line h2))
            else Ok (err ''failed to set key'', h2)))"

definition handleGet :: command_handler where
  "handleGet env args h =
     (if length args \<noteq> 1 then Ok (wrong_args ''get'', h)
      else case stringToInt (args ! 0) of
        None \<Rightarrow> Ok (err ''key must be an integer'', h)
      | Some key \<Rightarrow>
          obind (on_store (\<lambda>s. obind (search_element key s) (\<lambda>b. Ok (b, s))) h) (\<lambda>(exists, h1).
            let h2 = with_stats (\<lambda>s. s\<lparr>get_commands := get_commands s + 1\<rparr>) h1 in
            Ok (if exists then createBulkString (''value_for_key_'' @ args ! 0) else createNullBulkString, h2)))"

definition handleDel :: command_handler where
  "handleDel env args h =
     (if length args \<noteq> 1 then Ok (wrong_args ''del'', h)
      else case stringToInt (args ! 0) of
        None \<Rightarrow> Ok (err ''key must be an integer'', h)
      | Some key \<Rightarrow>
          obind (on_store (\<lambda>s. obind (delete_element key s) (\<lambda>s'. Ok ((), s'))) h) (\<lambda>(u, h1).
            let h2 = with_stats (\<lambda>s. s\<lparr>del_commands := del_commands s + 1\<rparr>) h1;
                line = ''DEL '' @ args ! 0
            in Ok (createInteger 1, replicate env line (appendAOF env line h2))))"

definition handleExists :: command_handler where
  "handleExists env args h =
     (if length args \<noteq> 1 then Ok (wrong_args ''exists'', h)
      else case stringToInt (args ! 0) of
        None \<Rightarrow> Ok (err ''key must be an integer'', h)
      | Some key \<Rightarrow>
          obind (on_store (\<lambda>s. obind (search_element key s) (\<lambda>b. Ok (b, s))) h) (\<lambda>(exists, h1).
            let h2 = with_stats (\<lambda>s. s\<lparr>exists_commands := exists_commands s + 1\<rparr>) h1 in
            Ok (createInteger (if exists then 1 else 0), h2)))"

definition handleKeys :: command_handler where
  "handleKeys env args h = Ok (createEmptyArray, h)"

definition handleFlush :: command_handler where
  "handleFlush env args h =
     (let h1 = with_stats (\<lambda>s. s\<lparr>flush_commands := flush_commands s + 1\<rparr>) h
      in Ok (createSimpleString ''OK'', replicate env ''FLUSH'' (appendAOF env ''FLUSH'' h1)))"

definition handleSave :: command_handler where
  "handleSave env args h =
     obind (saveData env h) (\<lambda>(u, h1).
       Ok (createSimpleString ''OK'', with_stats (\<lambda>s. s\<lparr>save_commands := save_commands s + 1\<rparr>) h1))"

definition handleLoad :: command_handler where
  "handleLoad env args h =
     obind (loadData env h) (\<lambda>(u, h1).
       Ok (createSimpleString ''OK'', with_stats (\<lambda>s. s\<lparr>load_commands := load_commands s + 1\<rparr>) h1))"

definition text_line :: "string \<Rightarrow> string" where
  "text_line s = s @ [LF]"

definition getServerInfo :: "henv \<Rightarrow> handler \<Rightarrow> string" where
  "getServerInfo env h = concat (map text_line
     [''# Server'', ''redis_version:1.0.0'', ''os:Linux'', ''arch_bits:64'', ''multiplexing_api:epoll'',
      ''process_id:'' @ int_to_string (pid env),
      ''uptime_in_seconds:'' @ int_to_string (now_info env sdiv 1000000000),
      ''uptime_in_days:0'', ''tcp_port:6379'', ''connected_clients:0'', ''used_memory:0'',
      ''used_memory_human:0B'', ''used_memory_rss:0'', ''used_memory_peak:0'',
      ''used_memory_peak_human:0B'', ''used_memory_lua:0'', ''mem_fragmentation_ratio:0.00'',
      ''mem_allocator:libc'',
      ''# Stats'', ''total_commands_processed:'' @ nat_to_string (unat (total_commands (stats h))),
      ''instantaneous_ops_per_sec:0'', ''total_connections_received:0'', ''rejected_connections:0'',
      ''expired_keys:0'', ''evicted_keys:0'', ''keyspace_hits:0'', ''keyspace_misses:0'',
      ''pubsub_channels:0'', ''pubsub_patterns:0'', ''latest_fork_usec:0''])"

definition getConfigInfo :: string where
  "getConfigInfo = concat (map text_line
     [''maxmemory'', ''maxmemory-policy'', ''timeout'', ''tcp-keepalive'', ''databases''])"

definition handleInfo :: command_handler where
  "handleInfo env args h =
     (let h1 = with_stats (\<lambda>s. s\<lparr>info_commands := info_commands s + 1\<rparr>) h
      in Ok (createBulkString (getServerInfo env h1), h1))"

definition handleConfig :: command_handler where
  "handleConfig env args h =
     (if length args < 1 then Ok (wrong_args ''config'', h)
      else if args ! 0 = ''GET'' then Ok (createBulkString getConfigInfo, h)
      else Ok (err ''unknown subcommand'', h))"

definition handleSelect :: command_handler where
  "handleSelect env args h =
     (if length args \<noteq> 1 then Ok (wrong_args ''select'', h)
      else case stringToInt (args ! 0) of
        None \<Rightarrow> Ok (err ''invalid DB index'', h)
      | Some db \<Rightarrow>
          if db < 0 \<or> db > 15 then Ok (err ''DB index is out of range'', h)
          else Ok (createSimpleString ''OK'', h\<lparr>current_db := db\<rparr>))"

definition handleAuth :: command_handler where
  "handleAuth env args h =
     (if length args \<noteq> 1 then Ok (wrong_args ''auth'', h)
      else if password h = '''' \<or> args ! 0 = password h
        then Ok (createSimpleString ''OK'', h\<lparr>authenticated := True\<rparr>)
        else Ok (err ''invalid password'', h))"

definition handleQuit :: command_handler where
  "handleQuit env args h = Ok (createSimpleString ''OK'', h)"

definition handleUnknown :: command_handler where
  "handleUnknown env args h = Ok (err ''unknown command'', h)"

subsection \<open>Dispatch\<close>

definition command_table :: "(string \<times> command_handler) list" where
  "command_table =
     [(''PING'', handlePing), (''ECHO'', handleEcho), (''SET'', handleSet), (''GET'', handleGet),
      (''DEL'', handleDel), (''EXISTS'', handleExists), (''KEYS'', handleKeys), (''FLUSH'', handleFlush),
      (''SAVE'', handleSave), (''LOAD'', handleLoad), (''INFO'', handleInfo), (''CONFIG'', handleConfig),
      (''SELECT'', handleSelect), (''AUTH'', handleAuth), (''QUIT'', handleQuit)]"

definition find_handler :: "string \<Rightarrow> handler \<Rightarrow> command_handler" where
  "find_handler c h =
     (if registered h then (case map_of command_table c of Some f \<Rightarrow> f | None \<Rightarrow> handleUnknown)
      else handleUnknown)"

definition handleCommand :: "henv \<Rightarrow> string \<Rightarrow> string handler_op" where
  "handleCommand env request h =
     (let cmd = parseCommand request in
      if command cmd = '''' then Ok (err ''unknown command'', h)
      else
        let h1 = with_stats (\<lambda>s. s\<lparr>total_commands := total_commands s + 1\<rparr>) h in
        ocatch (find_handler (command cmd) h1 env (arguments cmd) h1) (\<lambda>(e, h2).
          obind (log_at env LOG_ERROR (''Error handling command: '' @ what e) h2) (\<lambda>(u, h3).
            Ok (err ''internal error'', h3))))"

text \<open>The loop of \<^verbatim>\<open>loadAOF\<close> over the lines of the file.\<close>

fun replay_lines :: "henv \<Rightarrow> string list \<Rightarrow> handler \<Rightarrow> (exn \<times> handler, handler) outcome" where
  "replay_lines env [] h = Ok h"
| "replay_lines env (l # ls) h =
     (if l = '''' then replay_lines env ls h
      else obind (handleCommand env l h) (\<lambda>(r, h1). replay_lines env ls h1))"

definition loadAOF :: "henv \<Rightarrow> handler \<Rightarrow> (exn \<times> handler, handler) outcome" where
  "loadAOF env h =
     (case aof_disk h of None \<Rightarrow> Ok h | Some t \<Rightarrow> replay_lines env (getlines LF t) h)"

text \<open>What the callback given to the replication manager does with a command.\<close>

definition replication_callback :: "henv \<Rightarrow> string \<Rightarrow> handler \<Rightarrow> (exn \<times> handler, handler) outcome" where
  "replication_callback env c h = obind (handleCommand env c h) (\<lambda>(r, h1). Ok h1)"

subsection \<open>The destructor\<close>

text \<open>
  The body is empty; the members go in the reverse of their order: the replication manager, the
  stream of the append-only file, which is flushed and closed, the table of the commands, and the
  list, whose nodes are freed.
\<close>

definition RedisHandler_destroy :: "tcp_env \<Rightarrow> handler \<Rightarrow> (exn, handler) outcome" where
  "RedisHandler_destroy env h =
     obind (case replication h of Some r \<Rightarrow> ReplicationManager_destroy env r | None \<Rightarrow> Ok ()) (\<lambda>u.
       let h1 = h\<lparr>replication := None\<rparr>;
           h2 = (if aof_open h1 then (aof_flush h1)\<lparr>aof_open := False\<rparr> else h1)\<lparr>registered := False\<rparr>
       in case store h2 of
            None \<Rightarrow> Ok h2
          | Some l \<Rightarrow> obind (SkipList_destroy l) (\<lambda>m. Ok (h2\<lparr>store := None\<rparr>)))"

lemma aof_flush_frame [simp]:
  "store (aof_flush h) = store h" "store_disk (aof_flush h) = store_disk h"
  by (simp_all add: aof_flush_def)

subsection \<open>init\<close>

definition init_handler :: "henv \<Rightarrow> int \<Rightarrow> nat \<Rightarrow> aof_config \<Rightarrow> handler \<Rightarrow>
    (exn \<times> handler, handler) outcome" where
  "init_handler env lvl rp cfg h =
     (case SkipList_init lvl rp of
        Throw e \<Rightarrow> Throw (e, h) | Fault d \<Rightarrow> Fault d
      | Ok s \<Rightarrow>
          let h1 = h\<lparr>store := Some s, registered := True, aof_enabled := enable_aof cfg,
                     aof_name := aof_file cfg, aof_policy := aof_fsync cfg,
                     aof_interval := aof_fsync_interval cfg, last_aof_fsync := now_aof env\<rparr>
          in obind (if \<not> aof_enabled h1 then Ok h1
                    else let h2 = open_aof h1
                         in if aof_open h2 then Ok h2
                            else obind (log_at env LOG_ERROR (''Failed to open AOF file: '' @ aof_name h2) h2)
                                   (\<lambda>(u, h3). Ok (h3\<lparr>aof_enabled := False\<rparr>))) (\<lambda>h3.
             obind (if aof_enabled h3 then loadAOF env h3 else Ok h3) (\<lambda>h4.
             obind (loadData env h4) (\<lambda>(u, h5).
             let h6 = initReplication '''' 0 h5
             in obind (log_at env INFO (''Redis handler initialized with max level: '' @ int_to_string lvl) h6)
                  (\<lambda>(u, h7). Ok h7)))))"

end
