(* ===== verification/SkipListServer.thy ===== *)
theory SkipListServer
  imports RedisHandler TcpServer
begin

section \<open>The server and the program (server/skiplist_server.h, skiplist_server.cpp, test/main.cpp)\<close>

text \<open>
  The server owns the TCP server and the command handler and uses the singletons \<^verbatim>\<open>Config\<close> and
  \<^verbatim>\<open>Logger\<close> (the logger is kept in the handler's state).  The environment of the process, the
  texts of configuration files and the results of the socket calls are the parameter senv.
\<close>

record senv =
  sv_henv :: henv
  sv_getenv :: "string \<Rightarrow> string option"
  sv_file :: "string \<Rightarrow> string option"
  sv_tcp :: tcp_env

record server =
  cfg :: config
  tcp_server :: "tcp option"
  redis :: handler
  srv_running :: bool
  persistence_thread :: bool
  monitor_thread :: bool
  srv_total_commands :: "64 word"
  srv_connections :: nat
  srv_uptime :: int
  srv_start_time :: int
  persistence_enabled :: bool
  srv_interval :: int

definition SkipListServer_init :: "config \<Rightarrow> handler \<Rightarrow> server" where
  "SkipListServer_init c h = \<lparr>cfg = c, tcp_server = None, redis = h, srv_running = False,
     persistence_thread = False, monitor_thread = False, srv_total_commands = 0, srv_connections = 0,
     srv_uptime = 0, srv_start_time = 0, persistence_enabled = True, srv_interval = 60\<rparr>"

type_synonym 'a server_op = "server \<Rightarrow> (exn \<times> server, 'a \<times> server) outcome"

subsection \<open>Calls into the parts\<close>

definition on_config :: "'a config_op \<Rightarrow> 'a server_op" where
  "on_config f s = (case f (cfg s) of
       Ok (a, c) \<Rightarrow> Ok (a, s\<lparr>cfg := c\<rparr>) | Throw (e, c) \<Rightarrow> Throw (e, s\<lparr>cfg := c\<rparr>) | Fault d \<Rightarrow> Fault d)"

definition on_redis :: "'a handler_op \<Rightarrow> 'a server_op" where
  "on_redis f s = (case f (redis s) of
       Ok (a, h) \<Rightarrow> Ok (a, s\<lparr>redis := h\<rparr>) | Throw (e, h) \<Rightarrow> Throw (e, s\<lparr>redis := h\<rparr>) | Fault d \<Rightarrow> Fault d)"

definition on_logger :: "(logger \<Rightarrow> (exn, logger) outcome) \<Rightarrow> unit server_op" where
  "on_logger f s = (case f (lgr (redis s)) of
       Ok l \<Rightarrow> Ok ((), s\<lparr>redis := (redis s)\<lparr>lgr := l\<rparr>\<rparr>) | Throw e \<Rightarrow> Throw (e, s) | Fault d \<Rightarrow> Fault d)"

definition slog :: "senv \<Rightarrow> log_level \<Rightarrow> string \<Rightarrow> unit server_op" where
  "slog env lv m = on_logger (log_message (lenv (sv_henv env)) lv m)"

subsection \<open>init\<close>

definition loadConfiguration :: "senv \<Rightarrow> string \<Rightarrow> bool server_op" where
  "loadConfiguration env config_file s =
     obind (on_config (loadFromEnvironment (sv_getenv env)) s) (\<lambda>(u, s1).
     obind (if config_file \<noteq> '''' then on_config (loadFromFile config_file (sv_file env config_file)) s1
            else Ok (True, s1)) (\<lambda>(b, s2).
       Ok (True, s2\<lparr>persistence_enabled := enable_persistence (skiplist_cfg (cfg s2)),
                    srv_interval := persistence_interval (skiplist_cfg (cfg s2))\<rparr>)))"

definition make_dirs :: "senv \<Rightarrow> string \<Rightarrow> unit server_op" where
  "make_dirs env p s =
     (if parent_path p \<noteq> '''' \<and> \<not> can_mkdir (lenv (sv_henv env)) (parent_path p)
      then Throw (Std_exception ''filesystem error: cannot create directories'', s) else Ok ((), s))"

definition createDirectories :: "senv \<Rightarrow> unit server_op" where
  "createDirectories env s =
     obind (make_dirs env (cfg_log_file (log_cfg (cfg s))) s) (\<lambda>(u, s1).
       make_dirs env (data_file (skiplist_cfg (cfg s))) s1)"

definition level_of_name :: "string \<Rightarrow> log_level" where
  "level_of_name n =
     (if n = ''DEBUG'' then DEBUG else if n = ''WARN'' then WARN else if n = ''ERROR'' then LOG_ERROR
      else if n = ''FATAL'' then FATAL else INFO)"

definition initLogging :: "senv \<Rightarrow> unit server_op" where
  "initLogging env s =
     (let lc = log_cfg (cfg s) in
      case init_logger (lenv (sv_henv env)) (cfg_log_file lc) (level_of_name (cfg_log_level lc))
             (enable_console lc) (lgr (redis s)) of
        Throw (e, l) \<Rightarrow> Throw (e, s\<lparr>redis := (redis s)\<lparr>lgr := l\<rparr>\<rparr>)
      | Fault d \<Rightarrow> Fault d
      | Ok l \<Rightarrow>
          obind (on_logger (setMaxFileSize (nat (cfg_max_file_size lc mod 2 ^ 64)))
                   (s\<lparr>redis := (redis s)\<lparr>lgr := l\<rparr>\<rparr>)) (\<lambda>(u, s1).
            on_logger (setMaxFiles (cfg_max_files lc)) s1))"

definition initNetworkServer :: "senv \<Rightarrow> bool server_op" where
  "initNetworkServer env s =
     (let sc = server_cfg (cfg s) in
      case tcp_init (sv_tcp env) (host sc) (port sc) (thread_pool_size sc) TCPServer_init of
        Ok (b, t) \<Rightarrow> Ok (b, s\<lparr>tcp_server := Some t\<rparr>)
      | Throw (e, t) \<Rightarrow> Throw (e, s\<lparr>tcp_server := Some t\<rparr>)
      | Fault d \<Rightarrow> Fault d)"

definition init_redis :: "senv \<Rightarrow> unit server_op" where
  "init_redis env s =
     (case init_handler (sv_henv env) (cfg_max_level (skiplist_cfg (cfg s))) 0 (aof_cfg (cfg s)) (redis s) of
        Ok h \<Rightarrow> Ok ((), s\<lparr>redis := h\<rparr>)
      | Throw (e, h) \<Rightarrow> Throw (e, s\<lparr>redis := h\<rparr>)
      | Fault d \<Rightarrow> Fault d)"

text \<open>
  Both catch clauses print what was thrown and return false; the results of loadConfiguration and
  initNetworkServer are never false.  The signals that \<^verbatim>\<open>setupSignalHandlers\<close> registers are state of the
  process, not of the server (ServerLife).
\<close>

definition server_init :: "senv \<Rightarrow> string \<Rightarrow> bool server_op" where
  "server_init env config_file s =
     ocatch
       (obind (loadConfiguration env config_file s) (\<lambda>(ok, s1).
          if \<not> ok then Throw (Skiplist_exception (new_exn ConfigException ''Failed to load configuration''), s1)
          else
        obind (createDirectories env s1) (\<lambda>(u, s2).
        obind (initLogging env s2) (\<lambda>(u, s3).
        obind (init_redis env s3) (\<lambda>(u, s4).
        obind (initNetworkServer env s4) (\<lambda>(net, s5).
          if \<not> net then Throw (Skiplist_exception (new_exn NetworkException ''Failed to initialize network server''), s5)
          else
        obind (slog env INFO ''SkipList server initialized successfully''
                 (s5\<lparr>srv_start_time := now_info (sv_henv env)\<rparr>)) (\<lambda>(u, s6).
          Ok (True, s6))))))))
       (\<lambda>(e, s'). Ok (False, s'))"

subsection \<open>start and stop\<close>

definition server_start :: "senv \<Rightarrow> bool server_op" where
  "server_start env s =
     (if srv_running s then
        obind (slog env WARN ''Server is already running'' s) (\<lambda>(u, s1). Ok (True, s1))
      else
        ocatch
          (case tcp_server s of
             None \<Rightarrow> Fault Bad_pointer
           | Some t \<Rightarrow> (case tcp_start t of (ok, t') \<Rightarrow>
               let s1 = s\<lparr>tcp_server := Some t'\<rparr> in
               if \<not> ok then
                 obind (slog env LOG_ERROR ''Failed to start TCP server'' s1) (\<lambda>(u, s2). Ok (False, s2))
               else
                 let s2 = s1\<lparr>srv_running := True,
                             persistence_thread := (persistence_enabled s1 \<or> persistence_thread s1),
                             monitor_thread := True\<rparr>;
                     sc = server_cfg (cfg s2)
                 in obind (slog env INFO (formatMessage ''SkipList server started on {}:{}''
                            [host sc, int_to_string (port sc)]) s2) (\<lambda>(u, s3). Ok (True, s3))))
          (\<lambda>(e, s1). obind (slog env LOG_ERROR (''Error starting server: '' @ what e) s1)
             (\<lambda>(u, s2). Ok (False, s2))))"

text \<open>\<^verbatim>\<open>TCPServer::stop\<close> when all its joins return (the steps between them are in TcpServer).\<close>

definition tcp_stopped :: "tcp \<Rightarrow> tcp" where
  "tcp_stopped t = stop_finish (stop_notify (stop_begin t))"

text \<open>A message of a client, as the callback handles it.\<close>

definition handleMessage :: "senv \<Rightarrow> string \<Rightarrow> string server_op" where
  "handleMessage env message s =
     ocatch (on_redis (handleCommand (sv_henv env) message)
               (s\<lparr>srv_total_commands := srv_total_commands s + 1\<rparr>))
       (\<lambda>(e, s1). obind (slog env LOG_ERROR (''Error handling message: '' @ what e) s1)
          (\<lambda>(u, s2). Ok (createError ''ERR internal error'', s2)))"

text \<open>
  \<^verbatim>\<open>stop\<close> joins the threads of the server one after the other, which takes up to the longest of their
  sleeps, and only then saves.  The threads of the clients are detached and go on meanwhile: late are the
  messages they still handle before the save.  No message is under way during the save itself and none
  comes later; what a dump beside commands writes is in DumpRace.
\<close>

fun late_messages :: "senv \<Rightarrow> string list \<Rightarrow> unit server_op" where
  "late_messages env [] s = Ok ((), s)"
| "late_messages env (m # rest) s = obind (handleMessage env m s) (\<lambda>(r, s1). late_messages env rest s1)"

definition stop_until_save :: "senv \<Rightarrow> string list \<Rightarrow> unit server_op" where
  "stop_until_save env late s =
     obind (slog env INFO ''Stopping SkipList server...'' s) (\<lambda>(u, s1).
       if tcp_server s1 \<noteq> None \<and> \<not> joins_end (sv_tcp env) then Fault Diverges else
       late_messages env late
         (s1\<lparr>srv_running := False, tcp_server := map_option tcp_stopped (tcp_server s1),
             persistence_thread := False, monitor_thread := False\<rparr>))"

definition server_stop :: "senv \<Rightarrow> string list \<Rightarrow> unit server_op" where
  "server_stop env late s =
     (if \<not> srv_running s then Ok ((), s)
      else
        obind (stop_until_save env late s) (\<lambda>(u, s2).
        obind (on_redis (saveData (sv_henv env)) s2) (\<lambda>(u, s3).
          slog env INFO ''SkipList server stopped'' s3)))"

definition gracefulShutdown :: "senv \<Rightarrow> string list \<Rightarrow> unit server_op" where
  "gracefulShutdown env late s =
     obind (slog env INFO ''Graceful shutdown initiated'' s) (\<lambda>(u, s1). server_stop env late s1)"

subsection \<open>Messages and the two loops\<close>

text \<open>
  The callback \<^verbatim>\<open>initNetworkServer\<close> registers with the TCP server, as a function on the server's
  state.  A fault of the handler leaves no state to continue from; the reply is then empty.
\<close>

definition serve_message :: "senv \<Rightarrow> string \<Rightarrow> server \<Rightarrow> string \<times> server" where
  "serve_message env message s = (case handleMessage env message s of Ok p \<Rightarrow> p | _ \<Rightarrow> ('''', s))"

text \<open>One pass of \<^verbatim>\<open>persistenceLoop\<close> after its sleep.\<close>

definition persistence_pass :: "senv \<Rightarrow> unit server_op" where
  "persistence_pass env s =
     (if \<not> srv_running s then Ok ((), s)
      else ocatch
        (obind (on_redis (saveData (sv_henv env)) s) (\<lambda>(u, s1).
           slog env DEBUG ''Data persisted successfully'' s1))
        (\<lambda>(e, s1). slog env LOG_ERROR (''Error during persistence: '' @ what e) s1))"

text \<open>
  One pass of \<^verbatim>\<open>monitorLoop\<close>.  The call \<^verbatim>\<open>checkRotation()\<close> lacks the argument the declaration in
  logger.h asks for; the message it would pass is an argument here.
\<close>

definition monitor_pass :: "senv \<Rightarrow> int \<Rightarrow> string \<Rightarrow> unit server_op" where
  "monitor_pass env now m s =
     (if \<not> srv_running s then Ok ((), s)
      else ocatch
        (case tcp_server s of
           None \<Rightarrow> Fault Bad_pointer
         | Some t \<Rightarrow>
             on_logger (checkRotation (lenv (sv_henv env)) m)
               (s\<lparr>srv_uptime := (now - srv_start_time s) sdiv 1000000000,
                  srv_connections := getConnectionCount t\<rparr>))
        (\<lambda>(e, s1). slog env LOG_ERROR (''Error in monitor loop: '' @ what e) s1))"

subsection \<open>The command line (test/main.cpp)\<close>

text \<open>
  The chain of comparisons of \<^verbatim>\<open>parseArguments\<close>, in its order: \<^verbatim>\<open>-h\<close> is asked for twice.
\<close>

datatype cli_option =
  Opt_help | Opt_version | Opt_config | Opt_port | Opt_host | Opt_log_level | Opt_daemon | Opt_unknown

definition option_of :: "string \<Rightarrow> cli_option" where
  "option_of arg =
     (if arg = ''--help'' \<or> arg = ''-h'' then Opt_help
      else if arg = ''--version'' \<or> arg = ''-v'' then Opt_version
      else if arg = ''--config'' \<or> arg = ''-c'' then Opt_config
      else if arg = ''--port'' \<or> arg = ''-p'' then Opt_port
      else if arg = ''--host'' \<or> arg = ''-h'' then Opt_host
      else if arg = ''--log-level'' \<or> arg = ''-l'' then Opt_log_level
      else if arg = ''--daemon'' \<or> arg = ''-d'' then Opt_daemon
      else Opt_unknown)"

text \<open>
  \<^verbatim>\<open>parseArguments\<close> over \<^verbatim>\<open>argv[1..]\<close>: the return value, the configuration file and the
  configuration.  \<^verbatim>\<open>stoi\<close> of a bad port number throws.
\<close>

fun parseArguments :: "string list \<Rightarrow> string \<Rightarrow> config \<Rightarrow> (exn \<times> config, (bool \<times> string) \<times> config) outcome" where
  "parseArguments [] f c = Ok ((True, f), c)"
| "parseArguments (arg # rest) f c =
     (case option_of arg of
        Opt_help \<Rightarrow> Ok ((False, f), c)
      | Opt_version \<Rightarrow> Ok ((False, f), c)
      | Opt_config \<Rightarrow>
          (case rest of v # rest' \<Rightarrow> parseArguments rest' v c | [] \<Rightarrow> Ok ((False, f), c))
      | Opt_port \<Rightarrow>
          (case rest of
             v # rest' \<Rightarrow> (case stoi v of
                 Ok p \<Rightarrow> obind (setInt ''port'' p c) (\<lambda>(u, c1). parseArguments rest' f c1)
               | Throw e \<Rightarrow> Throw (e, c) | Fault d \<Rightarrow> Fault d)
           | [] \<Rightarrow> Ok ((False, f), c))
      | Opt_host \<Rightarrow>
          (case rest of
             v # rest' \<Rightarrow> obind (setString ''host'' v c) (\<lambda>(u, c1). parseArguments rest' f c1)
           | [] \<Rightarrow> Ok ((False, f), c))
      | Opt_log_level \<Rightarrow>
          (case rest of
             v # rest' \<Rightarrow> obind (setString ''log_level'' v c) (\<lambda>(u, c1). parseArguments rest' f c1)
           | [] \<Rightarrow> Ok ((False, f), c))
      | Opt_daemon \<Rightarrow> parseArguments rest f c
      | Opt_unknown \<Rightarrow> Ok ((False, f), c))"

text \<open>The performance test drives the list directly.\<close>

fun perf_insert :: "(nat \<Rightarrow> nat) \<Rightarrow> nat \<Rightarrow> nat \<Rightarrow> skiplist \<Rightarrow> (exn, skiplist) outcome" where
  "perf_insert rd i 0 s = Ok s"
| "perf_insert rd i (Suc n) s =
     obind (insert_element rd (int i) (''value_'' @ nat_to_string i) s) (\<lambda>(r, s1). perf_insert rd (Suc i) n s1)"

fun perf_search :: "nat \<Rightarrow> nat \<Rightarrow> skiplist \<Rightarrow> (exn, skiplist) outcome" where
  "perf_search i 0 s = Ok s"
| "perf_search i (Suc n) s = obind (search_element (int i) s) (\<lambda>b. perf_search (Suc i) n s)"

fun perf_delete :: "nat \<Rightarrow> nat \<Rightarrow> skiplist \<Rightarrow> (exn, skiplist) outcome" where
  "perf_delete i 0 s = Ok s"
| "perf_delete i (Suc n) s = obind (delete_element (int i) s) (\<lambda>s1. perf_delete (Suc i) n s1)"

definition runPerformanceTest :: "(nat \<Rightarrow> nat) \<Rightarrow> nat \<Rightarrow> skiplist \<Rightarrow> (exn, skiplist) outcome" where
  "runPerformanceTest rd test_size s =
     obind (perf_insert rd 0 test_size s) (\<lambda>s1.
     obind (perf_search 0 test_size s1) (\<lambda>s2. perf_delete 0 test_size s2))"

datatype main_result = Exit int | Serving server

text \<open>\<^verbatim>\<open>main\<close> up to its waiting loop.\<close>

definition main_startup :: "senv \<Rightarrow> string list \<Rightarrow> config \<Rightarrow> handler \<Rightarrow> (exn \<times> config, main_result) outcome" where
  "main_startup env args c h =
     obind (parseArguments args '''' c) (\<lambda>((go, config_file), c1).
       if \<not> go then Ok (Exit 0)
       else
         case server_init env config_file (SkipListServer_init c1 h) of
           Fault d \<Rightarrow> Fault d
         | Throw (e, s) \<Rightarrow> Ok (Exit 1)
         | Ok (ok, s) \<Rightarrow>
             if \<not> ok then Ok (Exit 1)
             else
               case (if args \<noteq> [] \<and> List.hd args = ''--test''
                     then on_redis (on_store (\<lambda>l. obind (runPerformanceTest (env_rand (sv_henv env)) 10000 l)
                            (\<lambda>l'. Ok ((), l')))) s
                     else Ok ((), s)) of
                 Fault d \<Rightarrow> Fault d
               | Throw (e, s1) \<Rightarrow> Ok (Exit 1)
               | Ok (u, s1) \<Rightarrow>
                   (case server_start env s1 of
                      Fault d \<Rightarrow> Fault d
                    | Throw (e, s2) \<Rightarrow> Ok (Exit 1)
                    | Ok (started, s2) \<Rightarrow> if \<not> started then Ok (Exit 1) else Ok (Serving s2)))"

end
