(* ===== verification/RedisHandlerProps.thy ===== *)
theory RedisHandlerProps
  imports RedisHandler
begin

section \<open>Properties of the command handler\<close>

subsection \<open>States in which commands are safe\<close>

text \<open>
  The store exists and is a well-formed skip list, the commands are registered, and the logger
  has no open file (with one, its first message hangs).
\<close>

definition log_quiet :: "logger \<Rightarrow> bool" where
  "log_quiet l \<longleftrightarrow> \<not> log_locked l \<and> stream l = None"

definition handler_ok :: "henv \<Rightarrow> handler \<Rightarrow> bool" where
  "handler_ok env h \<longleftrightarrow> (\<exists>s. store h = Some s \<and> store_ok (env_rand env) s) \<and> registered h \<and> log_quiet (lgr h)"

definition safe_result :: "henv \<Rightarrow> (exn \<times> handler, string \<times> handler) outcome \<Rightarrow> bool" where
  "safe_result env r \<longleftrightarrow> (case r of
       Ok (reply, h) \<Rightarrow> handler_ok env h \<and> isValidRESP reply
     | Throw (e, h) \<Rightarrow> handler_ok env h
     | Fault d \<Rightarrow> False)"

definition contents :: "handler \<Rightarrow> (int \<rightharpoonup> string)" where
  "contents h = (case store h of Some s \<Rightarrow> contents_of s | None \<Rightarrow> Map.empty)"

lemma handler_ok_frame:
  assumes "handler_ok env h" "store h' = store h" "registered h' = registered h" "lgr h' = lgr h"
  shows "handler_ok env h'"
  using assms by (simp add: handler_ok_def)

lemma log_quiet_Ok:
  assumes "log_quiet l"
  shows "\<exists>l'. log_message env lv m l = Ok l' \<and> log_quiet l'"
  using assms by (auto simp: log_quiet_def log_unlocked writeToConsole_def)

lemma log_at_Ok:
  assumes "handler_ok env h"
  shows "\<exists>l. log_at env lv m h = Ok ((), h\<lparr>lgr := l\<rparr>) \<and> handler_ok env (h\<lparr>lgr := l\<rparr>)"
proof -
  have "log_quiet (lgr h)" using assms by (simp add: handler_ok_def)
  from log_quiet_Ok[OF this, of "lenv env" lv m] obtain l where
    "log_message (lenv env) lv m (lgr h) = Ok l" "log_quiet l" by blast
  then show ?thesis using assms by (auto simp: log_at_def handler_ok_def)
qed

subsection \<open>What appending and replicating leave alone\<close>

lemma aof_frame [simp]:
  "store (aof_flush h) = store h" "registered (aof_flush h) = registered h" "lgr (aof_flush h) = lgr h"
  "store (appendAOF env l h) = store h" "registered (appendAOF env l h) = registered h"
  "lgr (appendAOF env l h) = lgr h" "replication (appendAOF env l h) = replication h"
  by (simp_all add: aof_flush_def appendAOF_def Let_def)

lemma replicate_frame [simp]:
  "store (replicate env c h) = store h" "registered (replicate env c h) = registered h"
  "lgr (replicate env c h) = lgr h" "aof_disk (replicate env c h) = aof_disk h"
  "aof_buffer (replicate env c h) = aof_buffer h"
  by (simp_all add: RedisHandler.replicate_def split: option.split)

lemma with_stats_frame [simp]:
  "store (with_stats f h) = store h" "registered (with_stats f h) = registered h"
  "lgr (with_stats f h) = lgr h" "replication (with_stats f h) = replication h"
  by (simp_all add: with_stats_def)

lemma handler_ok_steps:
  "handler_ok env h \<Longrightarrow> handler_ok env (appendAOF e l h)"
  "handler_ok env h \<Longrightarrow> handler_ok env (replicate e l h)"
  "handler_ok env h \<Longrightarrow> handler_ok env (with_stats f h)"
  by (erule handler_ok_frame; simp)+

lemma contents_steps [simp]:
  "contents (appendAOF e l h) = contents h" "contents (replicate e l h) = contents h"
  "contents (with_stats f h) = contents h"
  by (simp_all add: contents_def)

subsection \<open>Calls of the store\<close>

lemma store_same: "store h = Some s \<Longrightarrow> h\<lparr>store := Some s\<rparr> = h"
  by (cases h) simp

lemma store_insert:
  assumes "handler_ok env h"
  shows "\<exists>r h'. on_store (insert_element (env_rand env) k v) h = Ok (r, h') \<and> handler_ok env h' \<and>
    contents h' = map_op (Put k v) (contents h) \<and> (r = 0 \<longleftrightarrow> contents h k = None) \<and>
    (\<exists>s'. h' = h\<lparr>store := Some s'\<rparr>) \<and> (r \<noteq> 0 \<longrightarrow> h' = h)"
proof -
  from assms obtain s where s: "store h = Some s" "store_ok (env_rand env) s" by (auto simp: handler_ok_def)
  show ?thesis
  proof (cases "contents_of s k")
    case None
    with sl.ins_new[OF s(2) None, of v] s assms show ?thesis
      by (auto simp: on_store_def handler_ok_def contents_def)
  next
    case (Some w)
    then have "insert_element (env_rand env) k v s = Ok (1, s)" using sl.ins_old[OF s(2)] by blast
    then have "on_store (insert_element (env_rand env) k v) h = Ok (1, h)"
      using s store_same by (simp add: on_store_def)
    with s assms Some show ?thesis
      by (intro exI[of _ 1] exI[of _ h]) (auto simp: contents_def store_same intro!: exI[of _ s])
  qed
qed

lemma store_insertE:
  assumes "handler_ok env h"
  obtains r h' s' where "on_store (insert_element (env_rand env) k v) h = Ok (r, h')"
    "contents h' = map_op (Put k v) (contents h)" "r = 0 \<longleftrightarrow> contents h k = None"
    "h' = h\<lparr>store := Some s'\<rparr>"
proof -
  from store_insert[OF assms, of k v] show thesis
    by (elim exE conjE) (rule that)
qed

lemma store_search:
  assumes "handler_ok env h"
  shows "on_store (\<lambda>s. obind (search_element k s) (\<lambda>b. Ok (b, s))) h = Ok (contents h k \<noteq> None, h)"
  using assms sl.srch_law by (auto simp: handler_ok_def on_store_def contents_def)

lemma store_delete:
  assumes "handler_ok env h"
  shows "\<exists>h'. on_store (\<lambda>s. obind (delete_element k s) (\<lambda>s'. Ok ((), s'))) h = Ok ((), h') \<and>
    handler_ok env h' \<and> contents h' = (contents h)(k := None) \<and> (\<exists>s'. h' = h\<lparr>store := Some s'\<rparr>)"
proof -
  from assms obtain s where s: "store h = Some s" "store_ok (env_rand env) s" by (auto simp: handler_ok_def)
  from sl.del_law[OF s(2), of k] s assms show ?thesis
    by (auto simp: on_store_def handler_ok_def contents_def)
qed

lemma load_lines_safe:
  "store_ok rd s \<Longrightarrow> \<exists>s'. store_ok rd s' \<and>
    (load_lines rd ls kv s = Ok s' \<or> (\<exists>e. load_lines rd ls kv s = Throw (e, s')))"
proof (induction ls arbitrary: kv s)
  case (Cons l ls)
  obtain k v where kv: "get_key_value_from_string l kv = (k, v)" by fastforce
  show ?case
  proof (cases "stoi k")
    case (Ok n)
    from sl.ins_total[OF Cons.prems, of n v] obtain r s1 where
      "insert_element rd n v s = Ok (r, s1)" "store_ok rd s1" by blast
    with Cons Ok kv show ?thesis by (simp add: Let_def)
  qed (use Cons kv in \<open>auto simp: Let_def\<close>)
qed auto

lemma load_file_safe:
  assumes "store_ok rd s"
  shows "\<exists>s'. store_ok rd s' \<and> (load_file rd d s = Ok s' \<or> (\<exists>e. load_file rd d s = Throw (e, s')))"
proof (cases "reader_open s \<or> content d = None")
  case True
  then show ?thesis using assms by (auto simp: load_file_def split: option.split)
next
  case False
  then obtain t where t: "content d = Some t" "\<not> reader_open s" by auto
  have "store_ok rd (s\<lparr>reader_open := True\<rparr>)" using assms by simp
  from load_lines_safe[OF this, of "getlines LF t" "('''', '''')"] obtain s' where "store_ok rd s'"
    "load_lines rd (getlines LF t) ('''', '''') (s\<lparr>reader_open := True\<rparr>) = Ok s' \<or>
     (\<exists>e. load_lines rd (getlines LF t) ('''', '''') (s\<lparr>reader_open := True\<rparr>) = Throw (e, s'))" by blast
  then show ?thesis using t by (auto simp: load_file_def)
qed

subsection \<open>Every command is safe\<close>

lemma valid_replies [simp]:
  "isValidRESP (createSimpleString s)" "isValidRESP (createError s)" "isValidRESP (createInteger i)"
  "isValidRESP (createBulkString s)" "isValidRESP createNullBulkString" "isValidRESP createEmptyArray"
  "isValidRESP (err s)" "isValidRESP (wrong_args s)"
  by (simp_all add: isValidRESP_def createSimpleString_def createError_def createInteger_def
      createBulkString_def createNullBulkString_def createEmptyArray_def err_def wrong_args_def)

lemma safe_Ok [simp]: "safe_result env (Ok (r, h)) \<longleftrightarrow> handler_ok env h \<and> isValidRESP r"
  by (simp add: safe_result_def)

lemma safe_set:
  assumes "handler_ok env h"
  shows "safe_result env (handleSet env args h)"
proof (cases "length args < 2 \<or> stringToInt (args ! 0) = None")
  case True
  then show ?thesis using assms by (auto simp: handleSet_def)
next
  case False
  then obtain k where k: "stringToInt (args ! 0) = Some k" "\<not> length args < 2" by auto
  from store_insert[OF assms, of k "args ! 1"] obtain r h' where
    "on_store (insert_element (env_rand env) k (args ! 1)) h = Ok (r, h')" "handler_ok env h'" by blast
  with k show ?thesis by (simp add: handleSet_def Let_def handler_ok_steps)
qed

lemma safe_get: "handler_ok env h \<Longrightarrow> safe_result env (handleGet env args h)"
  by (auto simp: handleGet_def Let_def handler_ok_steps store_search split: option.split)

lemma safe_exists: "handler_ok env h \<Longrightarrow> safe_result env (handleExists env args h)"
  by (auto simp: handleExists_def Let_def handler_ok_steps store_search split: option.split)

lemma safe_del:
  assumes "handler_ok env h"
  shows "safe_result env (handleDel env args h)"
proof (cases "length args \<noteq> 1 \<or> stringToInt (args ! 0) = None")
  case True
  then show ?thesis using assms by (auto simp: handleDel_def)
next
  case False
  then obtain k where k: "stringToInt (args ! 0) = Some k" "length args = 1" by auto
  from store_delete[OF assms, of k] obtain h' where
    "on_store (\<lambda>s. obind (delete_element k s) (\<lambda>s'. Ok ((), s'))) h = Ok ((), h')" "handler_ok env h'"
    by blast
  with k show ?thesis by (simp add: handleDel_def Let_def handler_ok_steps)
qed

lemma save_Ok:
  assumes "handler_ok env h"
  shows "\<exists>d l. saveData env h = Ok ((), h\<lparr>store_disk := d, lgr := l\<rparr>) \<and>
    handler_ok env (h\<lparr>store_disk := d, lgr := l\<rparr>)"
proof -
  from assms obtain s where s: "store h = Some s" "wf_skiplist s" by (auto simp: handler_ok_def store_ok_def)
  then obtain d where d: "dump_file s (store_disk h) = Ok d" by (auto simp: dump_file_def wf_level_items)
  have "handler_ok env (h\<lparr>store_disk := d\<rparr>)" using assms by (rule handler_ok_frame) simp_all
  from log_at_Ok[OF this, of INFO "''Data saved to file''"] show ?thesis
    using s d by (auto simp: saveData_def)
qed

lemma load_safe:
  assumes "handler_ok env h"
  shows "\<exists>h'. handler_ok env h' \<and> (loadData env h = Ok ((), h') \<or> (\<exists>e. loadData env h = Throw (e, h')))"
proof -
  from assms obtain s where s: "store h = Some s" "store_ok (env_rand env) s" by (auto simp: handler_ok_def)
  from load_file_safe[OF s(2), of "store_disk h"] obtain s' where s': "store_ok (env_rand env) s'"
    "load_file (env_rand env) (store_disk h) s = Ok s' \<or>
     (\<exists>e. load_file (env_rand env) (store_disk h) s = Throw (e, s'))" by blast
  have ok: "handler_ok env (h\<lparr>store := Some s'\<rparr>)" using assms s' by (simp add: handler_ok_def)
  from log_at_Ok[OF ok, of INFO "''Data loaded from file''"] show ?thesis
    using s s' ok by (auto simp: loadData_def)
qed

lemma safe_save: "handler_ok env h \<Longrightarrow> safe_result env (handleSave env args h)"
  using save_Ok[of env h] by (auto simp: handleSave_def handler_ok_steps)

lemma safe_load: "handler_ok env h \<Longrightarrow> safe_result env (handleLoad env args h)"
  using load_safe[of env h] by (auto simp: handleLoad_def handler_ok_steps safe_result_def)

lemma safe_rest:
  assumes "handler_ok env h"
  shows "safe_result env (handlePing env args h)" "safe_result env (handleEcho env args h)"
    "safe_result env (handleKeys env args h)" "safe_result env (handleFlush env args h)"
    "safe_result env (handleInfo env args h)" "safe_result env (handleConfig env args h)"
    "safe_result env (handleSelect env args h)" "safe_result env (handleAuth env args h)"
    "safe_result env (handleQuit env args h)" "safe_result env (handleUnknown env args h)"
proof -
  have "handler_ok env (h\<lparr>current_db := x\<rparr>)" "handler_ok env (h\<lparr>authenticated := b\<rparr>)" for x b
    using assms by (rule handler_ok_frame; simp)+
  with assms show "safe_result env (handlePing env args h)" "safe_result env (handleEcho env args h)"
    "safe_result env (handleKeys env args h)" "safe_result env (handleFlush env args h)"
    "safe_result env (handleInfo env args h)" "safe_result env (handleConfig env args h)"
    "safe_result env (handleSelect env args h)" "safe_result env (handleAuth env args h)"
    "safe_result env (handleQuit env args h)" "safe_result env (handleUnknown env args h)"
    by (simp_all add: handlePing_def handleEcho_def handleKeys_def handleFlush_def handleInfo_def
        handleConfig_def handleSelect_def handleAuth_def handleQuit_def handleUnknown_def Let_def
        handler_ok_steps split: option.split)
qed

lemma safe_find_handler:
  assumes "handler_ok env h"
  shows "safe_result env (find_handler c h env args h)"
proof -
  have "safe_result env (f env args h)" if "map_of command_table c = Some f" for f
  proof -
    have "(c, f) \<in> set command_table" using that by (rule map_of_SomeD)
    then show ?thesis
      using safe_rest[OF assms] safe_set[OF assms] safe_get[OF assms] safe_del[OF assms]
        safe_exists[OF assms] safe_save[OF assms] safe_load[OF assms]
      by (auto simp: command_table_def)
  qed
  then show ?thesis
    using safe_rest(10)[OF assms] by (auto simp: find_handler_def split: option.split)
qed

lemma handleCommand_safe:
  assumes "handler_ok env h"
  shows "\<exists>reply h'. handleCommand env request h = Ok (reply, h') \<and> handler_ok env h' \<and> isValidRESP reply"
proof (cases "command (parseCommand request) = ''''")
  case True
  then show ?thesis using assms by (simp add: handleCommand_def)
next
  case False
  let ?h = "with_stats (\<lambda>s. s\<lparr>total_commands := total_commands s + 1\<rparr>) h"
  let ?r = "find_handler (command (parseCommand request)) ?h env (arguments (parseCommand request)) ?h"
  have safe: "safe_result env ?r" using assms by (intro safe_find_handler handler_ok_steps)
  show ?thesis
  proof (cases ?r)
    case (Ok rh)
    then show ?thesis using False safe by (cases rh) (simp add: handleCommand_def Let_def)
  next
    case (Throw eh)
    obtain e h2 where "eh = (e, h2)" by fastforce
    moreover from this have "handler_ok env h2" using safe Throw by (simp add: safe_result_def)
    ultimately show ?thesis
      using log_at_Ok[of env h2 LOG_ERROR "''Error handling command: '' @ what e"] False Throw
      by (auto simp: handleCommand_def Let_def)
  next
    case (Fault d)
    then show ?thesis using safe by (simp add: safe_result_def)
  qed
qed

subsection \<open>Requests on the wire\<close>

lemma parseCommand_wire:
  assumes "\<forall>x\<in>set (c # args). short x" "int (length (c # args)) \<le> int64_max"
  shows "parseCommand (createArray (c # args) @ rest) = \<lparr>command = map toupper_c c, arguments = args\<rparr>"
  using parse_createArray[OF assms, of rest] by (simp add: parseCommand_def)

definition request_ok :: "string list \<Rightarrow> bool" where
  "request_ok xs \<longleftrightarrow> (\<forall>x\<in>set xs. short x) \<and> int (length xs) \<le> int64_max"

lemma handleCommand_wire:
  assumes "request_ok (c # args)" "handler_ok env h" "map_of command_table (map toupper_c c) = Some f"
    and "f env args (with_stats (\<lambda>s. s\<lparr>total_commands := total_commands s + 1\<rparr>) h) = Ok r"
  shows "handleCommand env (createArray (c # args) @ rest) h = Ok r"
proof -
  have "map toupper_c c \<noteq> ''''" using assms(3) by (auto simp: command_table_def)
  moreover have "registered h" using assms(2) by (simp add: handler_ok_def)
  ultimately show ?thesis
    using assms parseCommand_wire[of c args rest]
    by (simp add: handleCommand_def Let_def find_handler_def request_ok_def)
qed

lemma command_table_hits:
  "map_of command_table ''SET'' = Some handleSet" "map_of command_table ''GET'' = Some handleGet"
  "map_of command_table ''DEL'' = Some handleDel" "map_of command_table ''FLUSH'' = Some handleFlush"
  "map_of command_table ''EXISTS'' = Some handleExists" "map_of command_table ''SAVE'' = Some handleSave"
  by (simp_all add: command_table_def)

lemma handler_ok_count: "handler_ok env h \<Longrightarrow>
    handler_ok env (with_stats (\<lambda>s. s\<lparr>total_commands := total_commands s + 1\<rparr>) h)"
  by (rule handler_ok_steps(3))

subsection \<open>What the append-only file has received\<close>

definition aof_log :: "handler \<Rightarrow> string" where
  "aof_log h = (case aof_disk h of None \<Rightarrow> '''' | Some t \<Rightarrow> t) @ aof_buffer h"

lemma aof_log_append:
  "aof_log (appendAOF env l h) =
    (if aof_enabled h \<and> aof_open h then aof_log h @ l @ [LF] else aof_log h)"
  by (simp add: aof_log_def appendAOF_def aof_flush_def Let_def)

lemma aof_log_frame [simp]:
  "aof_log (replicate env c h) = aof_log h" "aof_log (with_stats f h) = aof_log h"
  "aof_log (h\<lparr>store := x\<rparr>) = aof_log h"
  by (simp_all add: aof_log_def with_stats_def)

lemma aof_flags_frame [simp]:
  "aof_enabled (with_stats f h) = aof_enabled h" "aof_open (with_stats f h) = aof_open h"
  by (simp_all add: with_stats_def)

subsection \<open>Lines of text are not commands\<close>

lemma line_is_no_command:
  assumes "LF \<notin> set data"
  shows "command (parseCommand data) = ''''"
proof (cases data)
  case (Cons t rest)
  obtain l p where rl: "readLine data 1 = (l, p)" by fastforce
  have elems: "parse_elems data p n = []" for n
  proof (cases n)
    case (Suc m)
    have l: "l = takeWhile (\<lambda>c. c \<noteq> CR) (drop 1 data)" using rl by (simp add: readLine_def Let_def)
    have p: "p = 1 + length l"
    proof -
      have "i + 1 < length data \<Longrightarrow> data ! (i + 1) \<noteq> LF" for i using assms nth_mem by metis
      then show ?thesis using rl l by (auto simp: readLine_def Let_def split: if_splits)
    qed
    have "drop p data = dropWhile (\<lambda>c. c \<noteq> CR) (drop 1 data)"
      by (simp add: p l dropWhile_eq_drop)
    moreover have "parse (dropWhile (\<lambda>c. c \<noteq> CR) xs) = None" for xs
    proof (cases "dropWhile (\<lambda>c. c \<noteq> CR) xs")
      case (Cons y ys)
      then have "y = CR" using hd_dropWhile[of "\<lambda>c. c \<noteq> CR" xs] by simp
      then show ?thesis using Cons parse_CR by simp
    next
      case Nil
      then show ?thesis by (simp only: parse.simps(1))
    qed
    ultimately show ?thesis using Suc by (simp add: parse_elems.simps(2))
  qed simp
  show ?thesis
  proof (cases "t = CHR ''*''")
    case True
    then have "parse data = None \<or> parse data = Some (RArray [])"
      using Cons rl elems by (auto simp: parse.simps(2) split: outcome.split)
    then show ?thesis by (auto simp: parseCommand_def empty_command_def)
  next
    case False
    then have "parse data \<noteq> Some (RArray xs)" for xs
      by (auto simp: Cons parse.simps(2) parseSimpleString_def parseError_def parseInteger_def
          parseBulkString_def split: outcome.splits prod.splits if_splits)
    then show ?thesis by (auto simp: parseCommand_def empty_command_def split: option.split resp.split)
  qed
qed (simp add: parseCommand_def empty_command_def)

lemma replay_lines_nothing: "\<forall>l\<in>set ls. LF \<notin> set l \<Longrightarrow> replay_lines env ls h = Ok h"
  by (induction ls) (auto simp: handleCommand_def line_is_no_command)

lemma loadAOF_nothing: "loadAOF env h = Ok h"
  using getlines_no_delim by (auto simp: loadAOF_def intro!: replay_lines_nothing split: option.split)

subsection \<open>A handler for the examples\<close>

definition quiet_env :: henv where
  "quiet_env = \<lparr>env_rand = \<lambda>_. 0, lenv = \<lparr>can_open = \<lambda>_. False, can_mkdir = \<lambda>_. True, stamp = ''t''\<rparr>,
     now_aof = 0, now_repl = 0, now_info = 0, pid = 1\<rparr>"

definition with_list :: "skiplist \<Rightarrow> handler" where
  "with_list s = (RedisHandler_init (static_logger Map.empty) \<lparr>content = None, writable = True\<rparr> None True)
     \<lparr>store := Some s, registered := True, aof_enabled := True, aof_open := True\<rparr>"

lemma handler_ok_with_list:
  "store_ok (\<lambda>_. 0) s \<Longrightarrow> handler_ok quiet_env (with_list s)"
  by (simp add: handler_ok_def with_list_def RedisHandler_init_def quiet_env_def log_quiet_def static_logger_def)

lemma empty_list_exists:
  obtains s where "SkipList_init 4 0 = Ok s" "store_ok (\<lambda>_. 0) s" "items s = []" "contents_of s = Map.empty"
proof -
  have "rand_fair (\<lambda>_. 0)" by (simp add: rand_fair_def rand_ends_def)
  with init_Ok[of 4 0] that show thesis by (auto simp: store_ok_def contents_of_def)
qed

lemma stringToInt_Ok: "stoi a = Ok k \<Longrightarrow> stringToInt a = Some k"
  by (simp add: stringToInt_def)

lemma request_ok_examples [simp]:
  "request_ok [''get'', ''7''] " "request_ok [''set'', ''7'', ''x'']" "request_ok [''DEL'', ''7'']"
  "request_ok [''FLUSH'']" "request_ok [''SAVE'']"
  by (simp_all add: request_ok_def short_def int_limits)

lemma upper_examples [simp]:
  "map toupper_c ''get'' = ''GET''" "map toupper_c ''set'' = ''SET''" "map toupper_c ''DEL'' = ''DEL''"
  "map toupper_c ''FLUSH'' = ''FLUSH''" "map toupper_c ''SAVE'' = ''SAVE''"
  by code_simp+

lemma upper_names:
  "map toupper_c ''SET'' = ''SET''" "map toupper_c ''GET'' = ''GET''" "map toupper_c ''DEL'' = ''DEL''"
  "map toupper_c ''EXISTS'' = ''EXISTS''"
  by code_simp+

lemma stoi_7: "stoi ''7'' = Ok 7"
  by (simp add: stoi_def strtol_def Let_def isspace_c_def isdigit_c_def digits_val_def digit_val_def int_limits)

subsection \<open>The store's commands on the wire\<close>

lemma set_wire:
  assumes "handler_ok env h" and "request_ok [c, a, v]" and "map toupper_c c = ''SET''" and "stoi a = Ok k"
  shows "\<exists>h'. handleCommand env (createArray [c, a, v] @ rest) h =
      Ok (if contents h k = None then createSimpleString ''OK'' else err ''failed to set key'', h') \<and>
    contents h' = map_op (Put k v) (contents h) \<and>
    aof_log h' = (if contents h k = None \<and> aof_enabled h \<and> aof_open h
      then aof_log h @ ''SET '' @ a @ '' '' @ v @ [LF] else aof_log h)"
proof -
  let ?h = "with_stats (\<lambda>s. s\<lparr>total_commands := total_commands s + 1\<rparr>) h"
  obtain r h1 s1 where ins: "on_store (insert_element (env_rand env) k v) ?h = Ok (r, h1)"
      "contents h1 = map_op (Put k v) (contents ?h)" "r = 0 \<longleftrightarrow> contents ?h k = None"
      and h1: "h1 = ?h\<lparr>store := Some s1\<rparr>"
    by (rule store_insertE[OF handler_ok_count[OF assms(1)], of k v])
  let ?h2 = "with_stats (\<lambda>s. s\<lparr>set_commands := set_commands s + 1\<rparr>) h1"
  let ?l = "''SET '' @ a @ '' '' @ v"
  let ?out = "if r = 0 then (createSimpleString ''OK'', replicate env ?l (appendAOF env ?l ?h2))
      else (err ''failed to set key'', ?h2)"
  have "handleSet env [a, v] ?h = Ok ?out"
    using ins(1) stringToInt_Ok[OF assms(4)] by (simp add: handleSet_def Let_def)
  then have "handleCommand env (createArray (c # [a, v]) @ rest) h = Ok ?out"
    by (intro handleCommand_wire[where f = handleSet]) (simp_all add: assms command_table_hits)
  moreover have "aof_enabled h1 = aof_enabled h" "aof_open h1 = aof_open h" "aof_log h1 = aof_log h"
    using h1 by simp_all
  ultimately show ?thesis using ins(2,3) by (auto simp: aof_log_append)
qed

lemma get_wire:
  assumes "handler_ok env h" and "request_ok [c, a]" and "map toupper_c c = ''GET''" and "stoi a = Ok k"
  shows "\<exists>h'. handleCommand env (createArray [c, a] @ rest) h =
      Ok (if contents h k = None then createNullBulkString else createBulkString (''value_for_key_'' @ a), h') \<and>
    contents h' = contents h \<and> aof_log h' = aof_log h"
proof -
  let ?h = "with_stats (\<lambda>s. s\<lparr>total_commands := total_commands s + 1\<rparr>) h"
  let ?h2 = "with_stats (\<lambda>s. s\<lparr>get_commands := get_commands s + 1\<rparr>) ?h"
  have "handleGet env [a] ?h =
      Ok (if contents h k = None then createNullBulkString else createBulkString (''value_for_key_'' @ a), ?h2)"
    using store_search[OF handler_ok_count[OF assms(1)], of k] stringToInt_Ok[OF assms(4)]
    by (simp add: handleGet_def Let_def)
  then have "handleCommand env (createArray (c # [a]) @ rest) h =
      Ok (if contents h k = None then createNullBulkString else createBulkString (''value_for_key_'' @ a), ?h2)"
    by (intro handleCommand_wire[where f = handleGet]) (simp_all only: assms command_table_hits)
  then show ?thesis by simp
qed

lemma del_wire:
  assumes "handler_ok env h" and "request_ok [c, a]" and "map toupper_c c = ''DEL''" and "stoi a = Ok k"
  shows "\<exists>h'. handleCommand env (createArray [c, a] @ rest) h = Ok (createInteger 1, h') \<and>
    contents h' = (contents h)(k := None) \<and>
    aof_log h' = (if aof_enabled h \<and> aof_open h then aof_log h @ ''DEL '' @ a @ [LF] else aof_log h)"
proof -
  let ?h = "with_stats (\<lambda>s. s\<lparr>total_commands := total_commands s + 1\<rparr>) h"
  from store_delete[OF handler_ok_count[OF assms(1)], of k] obtain h1 s1 where
    del: "on_store (\<lambda>s. obind (delete_element k s) (\<lambda>s'. Ok ((), s'))) ?h = Ok ((), h1)"
      "contents h1 = (contents ?h)(k := None)" "h1 = ?h\<lparr>store := Some s1\<rparr>" by blast
  let ?h2 = "with_stats (\<lambda>s. s\<lparr>del_commands := del_commands s + 1\<rparr>) h1" and ?l = "''DEL '' @ a"
  have "handleDel env [a] ?h = Ok (createInteger 1, replicate env ?l (appendAOF env ?l ?h2))"
    using del(1) stringToInt_Ok[OF assms(4)] by (simp add: handleDel_def Let_def)
  then have "handleCommand env (createArray (c # [a]) @ rest) h =
      Ok (createInteger 1, replicate env ?l (appendAOF env ?l ?h2))"
    by (intro handleCommand_wire[where f = handleDel]) (simp_all only: assms command_table_hits)
  moreover have "aof_enabled h1 = aof_enabled h" "aof_open h1 = aof_open h" "aof_log h1 = aof_log h"
    using del(3) by simp_all
  ultimately show ?thesis using del(2) by (auto simp: aof_log_append)
qed

lemma exists_wire:
  assumes "handler_ok env h" and "request_ok [c, a]" and "map toupper_c c = ''EXISTS''" and "stoi a = Ok k"
  shows "\<exists>h'. handleCommand env (createArray [c, a] @ rest) h =
      Ok (createInteger (if contents h k = None then 0 else 1), h') \<and> contents h' = contents h"
proof -
  let ?h = "with_stats (\<lambda>s. s\<lparr>total_commands := total_commands s + 1\<rparr>) h"
  let ?out = "(createInteger (if contents h k = None then 0 else 1),
      with_stats (\<lambda>s. s\<lparr>exists_commands := exists_commands s + 1\<rparr>) ?h)"
  have "handleExists env [a] ?h = Ok ?out"
    using store_search[OF handler_ok_count[OF assms(1)], of k] stringToInt_Ok[OF assms(4)]
    by (simp add: handleExists_def Let_def)
  then have "handleCommand env (createArray (c # [a]) @ rest) h = Ok ?out"
    by (intro handleCommand_wire[where f = handleExists]) (simp_all only: assms command_table_hits)
  then show ?thesis by simp
qed

subsection \<open>Properties\<close>

text \<open>
  C9. Every request is answered.  On a handler with a well-formed store and a logger without an
  open file, any bytes whatever produce a reply that is valid RESP, without an exception and
  without a fault, and leave the handler in such a state again.
\<close>
theorem every_request_answered:
  assumes "handler_ok env h"
  shows "\<exists>reply h'. handleCommand env request h = Ok (reply, h') \<and> handler_ok env h' \<and> isValidRESP reply"
  by (rule handleCommand_safe[OF assms])

theorem every_request_answered_witness:
  "\<exists>s reply h'. SkipList_init 4 0 = Ok s \<and>
    handleCommand quiet_env ''hello'' (with_list s) = Ok (reply, h') \<and> isValidRESP reply"
proof -
  obtain s where s: "SkipList_init 4 0 = Ok s" "store_ok (\<lambda>_. 0) s" by (rule empty_list_exists)
  from every_request_answered[OF handler_ok_with_list[OF s(2)]] s(1) show ?thesis by blast
qed

text \<open>
  C33. What is appended.  A SET that is carried out appends one line to the log of commands, a
  refused one none; a DEL appends its line whether or not the key was there.
\<close>
theorem appended_lines:
  assumes "handler_ok env h" and "request_ok [a, v]" and "stoi a = Ok k" and "aof_enabled h" and "aof_open h"
  shows "(\<exists>reply h'. handleCommand env (createArray [''SET'', a, v]) h = Ok (reply, h') \<and>
      aof_log h' = aof_log h @ (if contents h k = None then ''SET '' @ a @ '' '' @ v @ [LF] else [])) \<and>
    (\<exists>reply h'. handleCommand env (createArray [''DEL'', a]) h = Ok (reply, h') \<and>
      aof_log h' = aof_log h @ ''DEL '' @ a @ [LF])"
proof -
  have "request_ok [''SET'', a, v]" "request_ok [''DEL'', a]"
    using assms(2) by (simp_all add: request_ok_def short_def int_limits)
  with set_wire[OF assms(1) _ _ assms(3), of "''SET''" v "[]"]
    del_wire[OF assms(1) _ _ assms(3), of "''DEL''" "[]"] assms(4,5)
  show ?thesis by (auto simp: upper_names simp del: list.map)
qed

theorem appended_lines_witness:
  "\<exists>s h1 h2. SkipList_init 4 0 = Ok s \<and>
    (\<exists>r. handleCommand quiet_env (createArray [''SET'', ''7'', ''x'']) (with_list s) = Ok (r, h1)) \<and>
    aof_log h1 = aof_log (with_list s) @ ''SET 7 x'' @ [LF] \<and>
    (\<exists>r. handleCommand quiet_env (createArray [''DEL'', ''7'']) (with_list s) = Ok (r, h2)) \<and>
    aof_log h2 = aof_log (with_list s) @ ''DEL 7'' @ [LF]"
proof -
  obtain s where s: "SkipList_init 4 0 = Ok s" "store_ok (\<lambda>_. 0) s" "contents_of s = Map.empty"
    by (rule empty_list_exists)
  have "contents (with_list s) 7 = None" using s(3) by (simp add: contents_def with_list_def)
  moreover have "request_ok [''7'', ''x'']" by (simp add: request_ok_def short_def int_limits)
  moreover have "aof_enabled (with_list s)" "aof_open (with_list s)" by (simp_all add: with_list_def)
  ultimately show ?thesis
    using appended_lines[OF handler_ok_with_list[OF s(2)] _ stoi_7, of "''x''"] s(1) by auto
qed

text \<open>
  GET never returns what was stored.  For a present key the client decodes the text
  \<^verbatim>\<open>value_for_key_\<close> followed by the key as it wrote it, whatever value the key has; nothing changes.
\<close>
theorem get_never_returns_value:
  assumes "handler_ok env h" and "request_ok [''GET'', a]" and "stoi a = Ok k"
    and "contents h k = Some v" and "short (''value_for_key_'' @ a)"
  shows "\<exists>reply h'. handleCommand env (createArray [''GET'', a]) h = Ok (reply, h') \<and>
    parse reply = Some (RString (''value_for_key_'' @ a)) \<and> contents h' = contents h"
proof -
  have "parse (createBulkString (''value_for_key_'' @ a) @ []) = Some (RString (''value_for_key_'' @ a))"
    by (rule parse_bulk) (use assms(5) in \<open>simp only: short_def\<close>)
  with get_wire[OF assms(1,2) upper_names(2) assms(3), of "[]"] assms(4) show ?thesis
    by (simp del: append.simps append_Cons) blast
qed

theorem get_never_returns_value_witness:
  "\<exists>s h reply h'. SkipList_init 4 0 = Ok s \<and> contents h 7 = Some ''x'' \<and>
    handleCommand quiet_env (createArray [''GET'', ''7'']) h = Ok (reply, h') \<and>
    parse reply = Some (RString (''value_for_key_'' @ ''7''))"
proof -
  obtain s where s: "SkipList_init 4 0 = Ok s" "store_ok (\<lambda>_. 0) s" "contents_of s = Map.empty"
    by (rule empty_list_exists)
  note ok = handler_ok_with_list[OF s(2)]
  have "contents (with_list s) 7 = None" using s(3) by (simp add: contents_def with_list_def)
  with store_insert[OF ok, of 7 "''x''"] obtain h where h: "handler_ok quiet_env h" "contents h 7 = Some ''x''"
    by auto
  have "request_ok [''GET'', ''7'']" "short (''value_for_key_'' @ ''7'')"
    by (simp_all add: request_ok_def short_def int_limits)
  from get_never_returns_value[OF h(1) this(1) stoi_7 h(2) this(2)] s(1) h(2) show ?thesis by blast
qed

text \<open>
  FLUSH empties nothing.  It is answered with OK and logged, and the store is what it was.
\<close>
theorem flush_keeps_everything:
  assumes "handler_ok env h" and "request_ok (c # args)" and "map toupper_c c = ''FLUSH''"
  shows "\<exists>h'. handleCommand env (createArray (c # args) @ rest) h = Ok (createSimpleString ''OK'', h') \<and>
    store h' = store h"
proof -
  have "handleFlush env args (with_stats (\<lambda>s. s\<lparr>total_commands := total_commands s + 1\<rparr>) h) =
      Ok (createSimpleString ''OK'', replicate env ''FLUSH'' (appendAOF env ''FLUSH''
        (with_stats (\<lambda>s. s\<lparr>flush_commands := flush_commands s + 1\<rparr>)
          (with_stats (\<lambda>s. s\<lparr>total_commands := total_commands s + 1\<rparr>) h))))"
    by (simp add: handleFlush_def Let_def)
  with handleCommand_wire[OF assms(2,1), where f = handleFlush] show ?thesis
    by (simp add: assms(3) command_table_hits)
qed

theorem flush_keeps_everything_witness:
  "\<exists>s h'. SkipList_init 4 0 = Ok s \<and>
    handleCommand quiet_env (createArray [''FLUSH''] @ '''') (with_list s) =
      Ok (createSimpleString ''OK'', h') \<and> store h' = Some s"
proof -
  obtain s where s: "SkipList_init 4 0 = Ok s" "store_ok (\<lambda>_. 0) s" by (rule empty_list_exists)
  with flush_keeps_everything[OF handler_ok_with_list[OF s(2)] request_ok_examples(4) upper_examples(4), of "''''"]
  show ?thesis by (auto simp: with_list_def)
qed

text \<open>
  The append-only file restores nothing.  Whatever it contains, replaying it leaves the handler
  unchanged: the lines are plain text, a line has no line feed, and without one the parser
  finds no command.
\<close>
theorem aof_replay_restores_nothing:
  "loadAOF env h = Ok h"
  by (rule loadAOF_nothing)

text \<open>
  A replicated command is not applied.  The callback of the replication manager hands the text
  a master replicates (\<^verbatim>\<open>SET key value\<close>, \<^verbatim>\<open>DEL key\<close>, \<^verbatim>\<open>FLUSH\<close>) to the RESP parser, which takes only
  arrays: nothing changes.
\<close>
theorem replicated_command_not_applied:
  assumes "l = ''SET '' @ a @ '' '' @ v \<or> l = ''DEL '' @ a \<or> l = ''FLUSH''"
  shows "replication_callback env l h = Ok h"
proof -
  have "\<exists>t r. l = t # r \<and> t \<noteq> CHR ''*'' \<and> t \<noteq> CHR ''$'' \<and> t \<noteq> CHR '':'' \<and> t \<noteq> CHR ''+'' \<and> t \<noteq> CHR ''-''"
    using assms by auto
  then obtain t r where "l = t # r" "t \<noteq> CHR ''*''" "t \<noteq> CHR ''$''" "t \<noteq> CHR '':''" "t \<noteq> CHR ''+''"
    "t \<noteq> CHR ''-''" by blast
  then have "parse l = None" by (simp add: parse.simps(2))
  then show ?thesis by (simp add: replication_callback_def handleCommand_def parseCommand_def empty_command_def)
qed

theorem replicated_command_not_applied_witness:
  "\<forall>h. replication_callback quiet_env (''SET '' @ ''1'' @ '' '' @ ''x'') h = Ok h"
  using replicated_command_not_applied[of "''SET '' @ ''1'' @ '' '' @ ''x''" "''1''" "''x''" quiet_env] by blast

text \<open>
  SAVE and an open log file.  Once the logger has opened its file and lets INFO through, a SAVE
  request never returns: the data is dumped, and the message about it hangs on the logger's
  mutex.
\<close>
theorem save_hangs_with_open_log:
  assumes "store h = Some s" and "store_ok (env_rand env) s" and "registered h"
    and "\<not> log_locked (lgr h)" and "\<not> initializing (lgr h)" and "stream (lgr h) \<noteq> None"
    and "level_num (log_level_cur (lgr h)) \<le> 1"
    and "request_ok (c # args)" and "map toupper_c c = ''SAVE''"
  shows "handleCommand env (createArray (c # args) @ rest) h = Fault Deadlock"
proof -
  let ?h = "with_stats (\<lambda>s. s\<lparr>total_commands := total_commands s + 1\<rparr>) h"
  obtain d where "dump_file s (store_disk ?h) = Ok d"
    using assms(2) by (auto simp: dump_file_def wf_level_items store_ok_def)
  then have "saveData env ?h = Fault Deadlock"
    using assms by (simp add: saveData_def log_at_def log_unlocked)
  then have "handleSave env args ?h = Fault Deadlock" by (simp add: handleSave_def)
  then show ?thesis
    using assms(3,8,9) parseCommand_wire[of c args rest]
    by (simp add: handleCommand_def Let_def find_handler_def request_ok_def command_table_hits)
qed

theorem save_hangs_with_open_log_witness:
  "\<exists>s. SkipList_init 4 0 = Ok s \<and>
    handleCommand quiet_env (createArray [''SAVE''] @ '''')
      ((with_list s)\<lparr>lgr := (static_logger Map.empty)\<lparr>stream := Some ''a.log''\<rparr>\<rparr>) = Fault Deadlock"
proof -
  obtain s where s: "SkipList_init 4 0 = Ok s" "store_ok (\<lambda>_. 0) s" by (rule empty_list_exists)
  have "handleCommand quiet_env (createArray (''SAVE'' # []) @ '''')
      ((with_list s)\<lparr>lgr := (static_logger Map.empty)\<lparr>stream := Some ''a.log''\<rparr>\<rparr>) = Fault Deadlock"
    by (rule save_hangs_with_open_log[of _ s, OF _ _ _ _ _ _ _ request_ok_examples(5) upper_examples(5)])
      (use s in \<open>simp_all add: with_list_def quiet_env_def static_logger_def RedisHandler_init_def\<close>)
  with s(1) show ?thesis by simp
qed

end
