(* ===== verification/SkipListServerProps.thy ===== *)
theory SkipListServerProps
  imports SkipListServer RedisHandlerProps
begin

section \<open>Properties of the server and of the program\<close>

subsection \<open>Starting the parts\<close>

lemma load_env_Ok:
  assumes "\<not> locked c"
  obtains c' where "loadFromEnvironment e c = Ok ((), c')" "\<not> locked c'"
    "custom_config c' = custom_config c" "aof_cfg c' = aof_cfg c"
  using assms by (simp add: loadFromEnvironment_def config_guard_def)

lemma loadConfiguration_no_file:
  assumes "loadFromEnvironment (sv_getenv env) (cfg s) = Ok ((), c)"
  shows "loadConfiguration env '''' s = Ok (True, s\<lparr>cfg := c,
    persistence_enabled := enable_persistence (skiplist_cfg c), srv_interval := persistence_interval (skiplist_cfg c)\<rparr>)"
  using assms by (simp add: loadConfiguration_def on_config_def)

lemma createDirectories_Ok:
  "(\<forall>p. can_mkdir (lenv (sv_henv env)) p) \<Longrightarrow> createDirectories env s = Ok ((), s)"
  by (simp add: createDirectories_def make_dirs_def)

lemma initLogging_hangs:
  assumes "\<not> log_locked (lgr (redis s))" "stream (lgr (redis s)) = None"
    "\<forall>p. can_mkdir (lenv (sv_henv env)) p" "can_open (lenv (sv_henv env)) (cfg_log_file (log_cfg (cfg s)))"
    "level_num (level_of_name (cfg_log_level (log_cfg (cfg s)))) \<le> 1"
  shows "initLogging env s = Fault Deadlock"
  using assms by (simp add: initLogging_def init_logger_def Let_def info_def log_unlocked open_stream_def)

lemma init_logger_quiet:
  assumes "log_quiet s" "\<forall>p. can_mkdir e p" "\<not> can_open e file"
  shows "\<exists>l. init_logger e file lv con s = Ok l \<and> log_quiet l"
proof -
  define s1 where "s1 = s\<lparr>initializing := True, log_level_cur := lv, log_file := file,
      console_on := con, max_file_size := 100 * 1024 * 1024, max_files := 10, current_file_size := 0\<rparr>"
  have s1: "\<not> log_locked s" "stream s1 = None" "log_locked s1 = False"
    using assms(1) by (simp_all add: s1_def log_quiet_def)
  have open1: "open_stream e file s1 = s1\<lparr>stream_fail := True\<rparr>" using assms(3) by (simp add: open_stream_def)
  have "log_quiet (s1\<lparr>stream_fail := True, initializing := False\<rparr>)" using s1 by (simp add: log_quiet_def)
  from log_quiet_Ok[OF this, of e INFO "''Logger initialized''"] obtain l where
    "log_message e INFO ''Logger initialized'' (s1\<lparr>stream_fail := True, initializing := False\<rparr>) = Ok l" "log_quiet l"
    by blast
  then show ?thesis
    using s1 assms(2) open1
    unfolding init_logger_def info_def s1_def[symmetric] Let_def by simp
qed

lemma initLogging_quiet:
  assumes "log_quiet (lgr (redis s))" "\<forall>p. can_mkdir (lenv (sv_henv env)) p"
    "\<not> can_open (lenv (sv_henv env)) (cfg_log_file (log_cfg (cfg s)))"
  shows "\<exists>l. initLogging env s = Ok ((), s\<lparr>redis := (redis s)\<lparr>lgr := l\<rparr>\<rparr>) \<and> log_quiet l"
proof -
  let ?lc = "log_cfg (cfg s)"
  obtain l where l: "init_logger (lenv (sv_henv env)) (cfg_log_file ?lc) (level_of_name (cfg_log_level ?lc))
      (enable_console ?lc) (lgr (redis s)) = Ok l" "log_quiet l"
    using init_logger_quiet[OF assms] by blast
  let ?n = "nat (cfg_max_file_size ?lc mod 2 ^ 64)"
  have "logger_guard (\<lambda>x. x\<lparr>max_file_size := ?n\<rparr>) l = Ok (l\<lparr>max_file_size := ?n\<rparr>)"
    and q: "log_quiet (l\<lparr>max_file_size := ?n\<rparr>)"
    using l(2) by (simp_all add: logger_guard_def log_quiet_def)
  moreover have "logger_guard (\<lambda>x. x\<lparr>max_files := cfg_max_files ?lc\<rparr>) (l\<lparr>max_file_size := ?n\<rparr>) =
      Ok (l\<lparr>max_file_size := ?n, max_files := cfg_max_files ?lc\<rparr>)"
    using q by (simp add: logger_guard_def log_quiet_def)
  moreover have "log_quiet (l\<lparr>max_file_size := ?n, max_files := cfg_max_files ?lc\<rparr>)"
    using l(2) by (simp add: log_quiet_def)
  ultimately show ?thesis
    using l(1) by (auto simp: initLogging_def Let_def on_logger_def setMaxFileSize_def setMaxFiles_def)
qed

lemma init_handler_Ok:
  assumes "SkipList_init lvl rp = Ok s0" "rand_fair (env_rand env)" "0 \<le> lvl"
    "load_file (env_rand env) (store_disk h) s0 = Ok s1" "store_ok (env_rand env) s1" "log_quiet (lgr h)"
  shows "\<exists>h'. init_handler env lvl rp ac h = Ok h' \<and> handler_ok env h' \<and> contents h' = contents_of s1 \<and>
    handler_isMaster h'"
proof -
  have log: "\<exists>l. log_at env lv m g = Ok ((), g\<lparr>lgr := l\<rparr>) \<and> log_quiet l" if "log_quiet (lgr g)" for lv m g
    using log_quiet_Ok[OF that, of "lenv env" lv m] by (auto simp: log_at_def)
  define h1 where "h1 = h\<lparr>store := Some s0, registered := True, aof_enabled := enable_aof ac,
      aof_name := aof_file ac, aof_policy := aof_fsync ac,
      aof_interval := aof_fsync_interval ac, last_aof_fsync := now_aof env\<rparr>"
  define opened where "opened = (if \<not> aof_enabled h1 then Ok h1
      else let h2 = open_aof h1
           in if aof_open h2 then Ok h2
              else obind (log_at env LOG_ERROR (''Failed to open AOF file: '' @ aof_name h2) h2)
                     (\<lambda>(u, h3). Ok (h3\<lparr>aof_enabled := False\<rparr>)))"
  have "\<exists>h3. opened = Ok h3 \<and> store h3 = Some s0 \<and> registered h3 \<and> log_quiet (lgr h3) \<and> store_disk h3 = store_disk h"
  proof (cases "aof_enabled h1 \<and> \<not> aof_open (open_aof h1)")
    case True
    have "log_quiet (lgr (open_aof h1))" using assms(6) by (simp add: open_aof_def h1_def)
    from log[OF this, of LOG_ERROR "''Failed to open AOF file: '' @ aof_name (open_aof h1)"] True show ?thesis
      by (auto simp: opened_def Let_def open_aof_def h1_def)
  next
    case False
    then show ?thesis using assms(6) by (auto simp: opened_def Let_def open_aof_def h1_def)
  qed
  then obtain h3 where h3: "opened = Ok h3" "store h3 = Some s0" "registered h3" "log_quiet (lgr h3)"
    "store_disk h3 = store_disk h" by blast
  have "log_quiet (lgr (h3\<lparr>store := Some s1\<rparr>))" using h3(4) by simp
  from log[OF this] obtain l where l: "loadData env h3 = Ok ((), h3\<lparr>store := Some s1, lgr := l\<rparr>)" "log_quiet l"
    using h3 assms(4) by (auto simp: loadData_def)
  let ?h5 = "h3\<lparr>store := Some s1, lgr := l\<rparr>"
  have "log_quiet (lgr (initReplication '''' 0 ?h5))" using l(2) by (simp add: initReplication_def)
  from log[OF this, of INFO "''Redis handler initialized with max level: '' @ int_to_string lvl"] obtain l2 where
    l2: "log_at env INFO (''Redis handler initialized with max level: '' @ int_to_string lvl)
        (initReplication '''' 0 ?h5) = Ok ((), (initReplication '''' 0 ?h5)\<lparr>lgr := l2\<rparr>)" "log_quiet l2" by blast
  have "init_handler env lvl rp ac h = Ok ((initReplication '''' 0 ?h5)\<lparr>lgr := l2\<rparr>)"
    using assms(1) h3(1) l(1) l2(1) loadAOF_nothing[of env h3]
    unfolding init_handler_def opened_def h1_def by (simp add: Let_def)
  moreover have "handler_ok env ((initReplication '''' 0 ?h5)\<lparr>lgr := l2\<rparr>)"
    using assms(5) h3(3) l2(2) by (simp add: handler_ok_def initReplication_def)
  ultimately show ?thesis
    by (simp add: contents_def initReplication_def handler_isMaster_def isMaster_def setCommandHandler_def
        init_repl_def setRole_def)
qed

subsection \<open>Keys stay in the configuration\<close>

lemma config_lines_keep_key:
  "config_lines ls c = Ok c1 \<Longrightarrow> map_of (custom_config c) k \<noteq> None \<Longrightarrow> map_of (custom_config c1) k \<noteq> None"
proof (induction ls arbitrary: c)
  case (Cons l ls)
  show ?case
  proof (cases "l = [] \<or> List.hd l = CHR ''#''")
    case True
    then show ?thesis using Cons by simp
  next
    case False
    then obtain pos where p: "find_char (CHR ''='') l = Some pos"
      using Cons.prems(1) by (auto split: option.splits)
    let ?key = "trim_with isblank_c (take pos l)" and ?v = "trim_with isblank_c (drop (pos + 1) l)"
    have r: "config_lines ls (c\<lparr>custom_config := map_put ?key ?v (custom_config c)\<rparr>) = Ok c1"
      using Cons.prems(1) False p by (auto simp: Let_def split: if_splits)
    show ?thesis by (rule Cons.IH[OF r]) (use Cons.prems(2) in \<open>simp add: map_of_map_put\<close>)
  qed
qed simp

lemma loadFromFile_deadlock:
  assumes "\<not> locked c" "config_lines (getlines LF t) c = Ok c1" "map_of (custom_config c) k \<noteq> None"
    "k \<in> set known_keys"
  shows "loadFromFile f (Some t) c = Fault Deadlock"
proof -
  have "has_known_key (c1\<lparr>locked := True\<rparr>)"
    using config_lines_keep_key[OF assms(2,3)] assms(4) by (auto simp: has_known_key_def)
  then show ?thesis
    using assms(1,2) by (simp add: loadFromFile_def config_guard_def config_lines_locked applyCustomConfig_locked)
qed

subsection \<open>Properties\<close>

text \<open>
  C27. With its log file the server does not start.  Without a configuration file, when the log
  directory exists and the log file can be opened, and the level is not above INFO (the default
  is INFO), \<^verbatim>\<open>init\<close> never returns: the logger's first message hangs.
\<close>
theorem startup_hangs_on_log_file:
  assumes "loadFromEnvironment (sv_getenv env) (cfg s) = Ok ((), c)"
    and "\<forall>p. can_mkdir (lenv (sv_henv env)) p"
    and "can_open (lenv (sv_henv env)) (cfg_log_file (log_cfg c))"
    and "level_num (level_of_name (cfg_log_level (log_cfg c))) \<le> 1"
    and "\<not> log_locked (lgr (redis s))" and "stream (lgr (redis s)) = None"
  shows "server_init env '''' s = Fault Deadlock"
proof -
  let ?s = "s\<lparr>cfg := c, persistence_enabled := enable_persistence (skiplist_cfg c),
      srv_interval := persistence_interval (skiplist_cfg c)\<rparr>"
  have "initLogging env ?s = Fault Deadlock" by (rule initLogging_hangs) (use assms in simp_all)
  then show ?thesis
    using loadConfiguration_no_file[OF assms(1)] createDirectories_Ok[OF assms(2)]
    by (simp add: server_init_def)
qed

definition log_file_env :: senv where
  "log_file_env = \<lparr>sv_henv = quiet_env\<lparr>lenv := \<lparr>can_open = \<lambda>_. True, can_mkdir = \<lambda>_. True, stamp = ''t''\<rparr>\<rparr>,
     sv_getenv = \<lambda>_. None, sv_file = \<lambda>_. None,
     sv_tcp = \<lparr>socket_ok = True, setsockopt_ok = True, bind_ok = True, listen_ok = True, joins_end = True\<rparr>\<rparr>"

definition fresh_handler :: handler where
  "fresh_handler = RedisHandler_init (static_logger Map.empty) \<lparr>content = None, writable = True\<rparr> None True"

lemma load_no_env: "loadFromEnvironment (\<lambda>_. None) default_config = Ok ((), default_config)"
  by (simp add: loadFromEnvironment_def config_guard_def default_config_def from_env_def Let_def)

theorem startup_hangs_on_log_file_witness:
  "server_init log_file_env '''' (SkipListServer_init default_config fresh_handler) = Fault Deadlock"
proof (rule startup_hangs_on_log_file)
  show "loadFromEnvironment (sv_getenv log_file_env) (cfg (SkipListServer_init default_config fresh_handler)) =
      Ok ((), default_config)"
    using load_no_env by (simp add: log_file_env_def SkipListServer_init_def)
qed (simp_all add: log_file_env_def quiet_env_def default_config_def level_of_name_def SkipListServer_init_def
      fresh_handler_def RedisHandler_init_def static_logger_def)

lemma startup_quiet:
  assumes "loadFromEnvironment (sv_getenv env) (cfg s) = Ok ((), c)"
    and "\<forall>p. can_mkdir (lenv (sv_henv env)) p"
    and "\<not> can_open (lenv (sv_henv env)) (cfg_log_file (log_cfg c))"
    and "log_quiet (lgr (redis s))" and "rand_fair (env_rand (sv_henv env))"
    and "0 \<le> cfg_max_level (skiplist_cfg c)"
    and "SkipList_init (cfg_max_level (skiplist_cfg c)) 0 = Ok s0"
    and "load_file (env_rand (sv_henv env)) (store_disk (redis s)) s0 = Ok s1"
    and "store_ok (env_rand (sv_henv env)) s1"
    and "socket_ok (sv_tcp env) \<and> setsockopt_ok (sv_tcp env) \<and> bind_ok (sv_tcp env) \<and> listen_ok (sv_tcp env)"
  shows "\<exists>s'. server_init env '''' s = Ok (True, s') \<and> handler_ok (sv_henv env) (redis s') \<and>
    contents (redis s') = contents_of s1 \<and> handler_isMaster (redis s')"
proof -
  let ?s = "s\<lparr>cfg := c, persistence_enabled := enable_persistence (skiplist_cfg c),
      srv_interval := persistence_interval (skiplist_cfg c)\<rparr>"
  obtain l where l: "initLogging env ?s = Ok ((), ?s\<lparr>redis := (redis ?s)\<lparr>lgr := l\<rparr>\<rparr>)" "log_quiet l"
    using initLogging_quiet[of ?s env] assms(2-4) by auto
  let ?s3 = "?s\<lparr>redis := (redis ?s)\<lparr>lgr := l\<rparr>\<rparr>"
  obtain h where h: "init_handler (sv_henv env) (cfg_max_level (skiplist_cfg c)) 0 (aof_cfg c) (redis ?s3) = Ok h"
    "handler_ok (sv_henv env) h" "contents h = contents_of s1" "handler_isMaster h"
    using init_handler_Ok[OF assms(7,5,6), of "redis ?s3" s1 "aof_cfg c"] assms(8,9) l(2) by auto
  have redis: "init_redis env ?s3 = Ok ((), ?s3\<lparr>redis := h\<rparr>)" using h(1) by (simp add: init_redis_def)
  obtain t where net: "initNetworkServer env (?s3\<lparr>redis := h\<rparr>) = Ok (True, ?s3\<lparr>redis := h, tcp_server := Some t\<rparr>)"
    using assms(10) by (auto simp: initNetworkServer_def tcp_init_def Let_def)
  have "log_quiet (lgr h)" using h(2) by (simp add: handler_ok_def)
  from log_quiet_Ok[OF this] obtain l2 where
    l2: "log_message (lenv (sv_henv env)) INFO ''SkipList server initialized successfully'' (lgr h) = Ok l2" "log_quiet l2"
    by blast
  have ok2: "handler_ok (sv_henv env) (h\<lparr>lgr := l2\<rparr>)" using h(2) l2(2) by (simp add: handler_ok_def)
  have same: "contents (h\<lparr>lgr := l2\<rparr>) = contents h" "handler_isMaster (h\<lparr>lgr := l2\<rparr>) = handler_isMaster h"
    by (simp_all add: contents_def handler_isMaster_def)
  let ?s6 = "?s3\<lparr>tcp_server := Some t, srv_start_time := now_info (sv_henv env), redis := h\<lparr>lgr := l2\<rparr>\<rparr>"
  have "server_init env '''' s = Ok (True, ?s6)"
    using loadConfiguration_no_file[OF assms(1)] createDirectories_Ok[OF assms(2)] l(1) redis net l2(1)
    by (simp add: server_init_def slog_def on_logger_def)
  then show ?thesis using ok2 same h(3,4) by (intro exI[of _ ?s6]) simp
qed

text \<open>
  C26. Without a log file it starts, as a master, with the dumped data.  When the environment can be
  read into a configuration without an exception, whose level is not negative, the directories can be
  made, the log file cannot be opened, the dump file loads into a new list without an exception and the
  calls on the listening socket succeed, then \<^verbatim>\<open>init\<close> returns true, the handler can serve every request,
  it is a replication master whatever the configuration says, and it holds what the dump file gave;
  the append-only file contributed nothing.
\<close>
theorem startup_without_log_file:
  assumes "loadFromEnvironment (sv_getenv env) (cfg s) = Ok ((), c)"
    and "\<forall>p. can_mkdir (lenv (sv_henv env)) p"
    and "\<not> can_open (lenv (sv_henv env)) (cfg_log_file (log_cfg c))"
    and "log_quiet (lgr (redis s))" and "rand_fair (env_rand (sv_henv env))"
    and "0 \<le> cfg_max_level (skiplist_cfg c)"
    and "SkipList_init (cfg_max_level (skiplist_cfg c)) 0 = Ok s0"
    and "load_file (env_rand (sv_henv env)) (store_disk (redis s)) s0 = Ok s1"
    and "socket_ok (sv_tcp env) \<and> setsockopt_ok (sv_tcp env) \<and> bind_ok (sv_tcp env) \<and> listen_ok (sv_tcp env)"
  shows "\<exists>s'. server_init env '''' s = Ok (True, s') \<and> handler_ok (sv_henv env) (redis s') \<and>
    contents (redis s') = contents_of s1 \<and> handler_isMaster (redis s')"
proof -
  have "store_ok (env_rand (sv_henv env)) s0" using init_Ok[OF assms(6), of 0] assms(5,7) by (simp add: store_ok_def)
  from load_file_safe[OF this, of "store_disk (redis s)"] assms(8) have "store_ok (env_rand (sv_henv env)) s1" by auto
  then show ?thesis by (intro startup_quiet) (use assms in auto)
qed

definition no_log_env :: senv where
  "no_log_env = log_file_env\<lparr>sv_henv := quiet_env\<rparr>"

theorem startup_without_log_file_witness:
  "\<exists>s'. server_init no_log_env '''' (SkipListServer_init default_config fresh_handler) = Ok (True, s') \<and>
    handler_ok quiet_env (redis s') \<and> contents (redis s') = Map.empty"
proof -
  let ?s = "SkipListServer_init default_config fresh_handler"
  have fair: "rand_fair (\<lambda>_. 0)" by (simp add: rand_fair_def rand_ends_def)
  obtain s0 where s0: "SkipList_init 18 0 = Ok s0" "wf_skiplist s0" "items s0 = []" "reader_open s0 = False"
    using init_Ok[of 18 0] by auto
  have load: "load_file (\<lambda>_. 0) \<lparr>content = None, writable = True\<rparr> s0 = Ok s0" using s0 by (simp add: load_file_def)
  have "\<exists>s'. server_init no_log_env '''' ?s = Ok (True, s') \<and> handler_ok (sv_henv no_log_env) (redis s') \<and>
      contents (redis s') = contents_of s0 \<and> handler_isMaster (redis s')"
  proof (rule startup_without_log_file[where c = default_config and ?s0.0 = s0 and ?s1.0 = s0])
    show "loadFromEnvironment (sv_getenv no_log_env) (cfg ?s) = Ok ((), default_config)"
      using load_no_env by (simp add: no_log_env_def log_file_env_def SkipListServer_init_def)
  qed (use s0 load fair in \<open>simp_all add: no_log_env_def log_file_env_def quiet_env_def default_config_def
      SkipListServer_init_def fresh_handler_def RedisHandler_init_def static_logger_def log_quiet_def\<close>)
  moreover have "contents_of s0 = Map.empty" "sv_henv no_log_env = quiet_env"
    using s0(3) by (simp_all add: no_log_env_def contents_of_def)
  ultimately show ?thesis by auto
qed

lemma option_port: "option_of ''-p'' = Opt_port" "option_of ''-c'' = Opt_config"
  by (simp_all add: option_of_def)

text \<open>
  The port option.  \<^verbatim>\<open>-p\<close> only makes a custom entry: the port the server will bind is not
  changed.  Together with a configuration file whose lines are well formed it makes the start
  hang, because the entry is then applied under the lock.
\<close>
theorem port_option_ignored_or_hangs:
  assumes "\<not> locked c" and "stoi v = Ok p" and "f \<noteq> ''''"
  shows "\<exists>c1. parseArguments [''-p'', v] '''' c = Ok ((True, ''''), c1) \<and> server_cfg c1 = server_cfg c \<and>
    parseArguments [''-p'', v, ''-c'', f] '''' c = Ok ((True, f), c1) \<and>
    (\<forall>env t h c2 c3. sv_file env f = Some t \<and> loadFromEnvironment (sv_getenv env) c1 = Ok ((), c2) \<and>
      config_lines (getlines LF t) c2 = Ok c3 \<longrightarrow>
      server_init env f (SkipListServer_init c1 h) = Fault Deadlock)"
proof -
  let ?c1 = "c\<lparr>custom_config := map_put ''port'' (int_to_string p) (custom_config c)\<rparr>"
  have set: "setInt ''port'' p c = Ok ((), ?c1)" using assms(1) by (simp add: setInt_def setString_unlocked)
  have hang: "server_init env f (SkipListServer_init ?c1 h) = Fault Deadlock"
    if fl: "sv_file env f = Some t" and e: "loadFromEnvironment (sv_getenv env) ?c1 = Ok ((), c2)"
      and lines: "config_lines (getlines LF t) c2 = Ok c3" for env t h c2 c3
  proof -
    have "\<not> locked c2" "custom_config c2 = custom_config ?c1"
      using e assms(1) by (auto simp: loadFromEnvironment_def config_guard_def)
    then have "loadFromFile f (Some t) c2 = Fault Deadlock"
      using lines by (intro loadFromFile_deadlock[where k = "''port''"]) (auto simp: map_of_map_put known_keys_def)
    then show ?thesis
      using fl e assms(3) by (simp add: server_init_def loadConfiguration_def on_config_def SkipListServer_init_def)
  qed
  have "parseArguments [''-p'', v] '''' c = Ok ((True, ''''), ?c1)"
    "parseArguments [''-p'', v, ''-c'', f] '''' c = Ok ((True, f), ?c1)"
    using set assms(2) by (simp_all add: option_port)
  then show ?thesis using hang by (intro exI[of _ ?c1]) auto
qed

theorem port_option_ignored_or_hangs_witness:
  "\<exists>c1. parseArguments [''-p'', ''7''] '''' default_config = Ok ((True, ''''), c1) \<and> port (server_cfg c1) = 6379"
proof -
  have "\<not> locked default_config" "''a.conf'' \<noteq> ''''" by (simp_all add: default_config_def)
  from port_option_ignored_or_hangs[OF this(1) stoi_7 this(2)] show ?thesis
    by (auto simp: default_config_def)
qed

text \<open>
  The performance test cannot be run.  Arguments that \<^verbatim>\<open>main\<close> accepts do not begin with
  \<^verbatim>\<open>--test\<close>, which is an unknown option, so the branch that runs the test is dead.
\<close>
theorem performance_test_unreachable:
  assumes "parseArguments args f c = Ok ((True, f'), c')"
  shows "args = [] \<or> List.hd args \<noteq> ''--test''"
proof (cases args)
  case (Cons a rest)
  have "option_of ''--test'' = Opt_unknown" by (simp add: option_of_def)
  then show ?thesis using Cons assms by (cases "a = ''--test''") simp_all
qed simp

theorem performance_test_unreachable_witness:
  "parseArguments [''-d''] '''' default_config = Ok ((True, ''''), default_config) \<and> List.hd [''-d''] \<noteq> ''--test''"
proof -
  have "option_of ''-d'' = Opt_daemon" by (simp add: option_of_def)
  then have "parseArguments [''-d''] '''' default_config = Ok ((True, ''''), default_config)" by simp
  with performance_test_unreachable[OF this] show ?thesis by simp
qed

end
