(* ===== verification/TcpServerProps.thy ===== *)
theory TcpServerProps
  imports TcpServer
begin

section \<open>Properties of the TCP server\<close>

subsection \<open>Sending\<close>

lemma send_length_id: "n < 2 ^ 31 \<Longrightarrow> send_length n = int n"
  using signed_take_bit_int_eq_self[of 31 "int n"] by (simp add: send_length_def signed_of_nat)

lemma os_send_rest:
  "length data < 2 ^ 31 \<Longrightarrow> n \<le> int (length data - pos) \<Longrightarrow>
    take pos data @ os_send (drop pos data) (send_length (length data - pos)) n = take (pos + nat n) data"
  by (simp add: os_send_def send_length_id take_add)

lemma send_loop_prefix:
  assumes "send_results_ok results (length data - pos)" "pos \<le> length data" "length data < 2 ^ 31"
    and "send_loop results data pos (take pos data) = Some (ok, wire)"
  shows "(ok \<longleftrightarrow> wire = data) \<and> (\<exists>rest. data = wire @ rest)"
  using assms(1,2,4)
proof (induction results arbitrary: pos)
  case Nil
  then show ?case by (simp add: send_loop.simps split: if_splits)
next
  case (Cons n results)
  consider "length data \<le> pos" | "pos < length data" "n \<le> 0" | "pos < length data" "0 < n" by linarith
  then show ?case
  proof cases
    case 2
    have "take pos data \<noteq> data" "data = take pos data @ drop pos data" using 2(1) by (simp_all add: take_all_iff)
    with Cons.prems(3) 2 show ?thesis by (auto simp: send_loop.simps)
  next
    case 3
    have n: "n \<le> int (length data - pos)" "send_results_ok results (length data - (pos + nat n))"
      using Cons.prems(1) 3 by (auto simp: diff_diff_eq)
    have "send_loop results data (pos + nat n) (take (pos + nat n) data) = Some (ok, wire)"
      using Cons.prems(3) 3 os_send_rest[OF assms(3) n(1)] by (simp add: send_loop.simps[of "n # results"])
    moreover have "pos + nat n \<le> length data" using n(1) 3 by linarith
    ultimately show ?thesis using Cons.IH n(2) by blast
  qed (use Cons.prems in \<open>simp add: send_loop.simps\<close>)
qed

lemma send_loop_total:
  assumes "\<forall>n\<in>set results. 0 < n" "length data - pos \<le> length results"
  shows "\<exists>wire'. send_loop results data pos wire = Some (True, wire')"
  using assms
proof (induction results arbitrary: pos wire)
  case Nil
  then show ?case by (simp add: send_loop.simps)
next
  case (Cons n rest)
  show ?case
  proof (cases "pos < length data")
    case True
    have "\<exists>wire'. send_loop rest data (pos + nat n) w = Some (True, wire')" for w
      using Cons by (intro Cons.IH) auto
    then show ?thesis using True Cons.prems(1) by (simp add: send_loop.simps[of "n # rest"])
  qed (simp add: send_loop.simps)
qed

text \<open>
  C34. send delivers everything or says so.  Under the contract of \<^verbatim>\<open>send(2)\<close>, that a call takes no
  more than it is given, and for less than 2 GiB, the pieces the kernel took in the calls make a
  prefix of the data in its order, and all of it exactly when the function returns true; when every
  call takes at least one byte, the loop ends after at most one call per byte.
\<close>
theorem send_all_or_false:
  assumes "send_results_ok results (length data)" and "length data < 2 ^ 31"
  shows "(\<forall>ok wire. conn_send True results data = Some (ok, wire) \<longrightarrow>
      (ok \<longleftrightarrow> wire = data) \<and> (\<exists>rest. data = wire @ rest)) \<and>
    ((\<forall>n\<in>set results. 0 < n) \<and> length data \<le> length results \<longrightarrow>
      conn_send True results data = Some (True, data))"
  using send_loop_prefix[of results data 0] send_loop_total[of results data 0 "[]"] assms
  by (auto simp: conn_send_def)

theorem send_all_or_false_witness:
  "conn_send True [2, 1, 1] ''abc'' = Some (True, ''abc'')"
  using send_all_or_false[of "[2, 1, 1]" "''abc''"] by auto

subsection \<open>Receiving\<close>

lemma find_str_append: "find_str sub (a @ sub @ b) \<noteq> None"
proof (induction a)
  case Nil
  have "find_str sub (sub @ b) = Some 0" unfolding find_str_0 by simp
  then show ?case by simp
qed simp

lemma receive_first_chunk:
  assumes "c \<noteq> []" "NUL \<notin> set a" "c = a \<or> c = a @ NUL # b" "a = x @ CRLF @ y"
  shows "conn_receive (c # cs) = (a, cs)"
proof -
  have "takeWhile (\<lambda>z. z \<noteq> NUL) c = a"
    using assms(2,3) by (auto simp: takeWhile_append takeWhile_eq_all_conv)
  moreover have "find_str CRLF a \<noteq> None" unfolding assms(4) by (rule find_str_append)
  ultimately show ?thesis using assms(1) by (simp add: conn_receive_def Let_def)
qed

lemma createArray_no_NUL:
  assumes "\<forall>x\<in>set xs. NUL \<notin> set x"
  shows "NUL \<notin> set (createArray xs)"
proof -
  have "NUL \<notin> set (nat_to_string n)" for n
  proof
    assume "NUL \<in> set (nat_to_string n)"
    then have "isdigit_c NUL" using nat_to_string_digits by blast
    then show False by (simp add: isdigit_c_def NUL_def)
  qed
  then show ?thesis
    using assms by (auto simp: createArray_def createBulkString_def CRLF_def CR_def LF_def NUL_def)
qed

lemma receive_request:
  assumes "\<forall>x\<in>set xs. NUL \<notin> set x" and "NUL \<notin> set extra"
  shows "conn_receive ((createArray xs @ extra) # cs) = (createArray xs @ extra, cs)"
proof -
  have split: "createArray xs @ extra =
      (''*'' @ nat_to_string (length xs)) @ CRLF @ (concat (map createBulkString xs) @ extra)"
    by (simp add: createArray_def)
  have "NUL \<notin> set (createArray xs @ extra)" using createArray_no_NUL[OF assms(1)] assms(2) by simp
  moreover have "createArray xs @ extra \<noteq> []" by (simp add: createArray_def)
  ultimately show ?thesis using receive_first_chunk[OF _ _ _ split, of _ "[]"] by blast
qed

text \<open>
  C32. A request that arrives in two pieces is executed from the first.  When the first chunk holds
  the array header, \<^verbatim>\<open>receive\<close> returns it alone, because the header ends in CRLF; the parser then
  sees only the elements that arrived completely, fewer than were sent.
\<close>
theorem fragmented_request_runs_short:
  assumes "\<forall>x\<in>set xs. short x \<and> NUL \<notin> set x" and "int (length xs) \<le> int64_max"
    and "length (array_header (length xs)) \<le> m" and "m < length (createArray xs)"
  shows "conn_receive (take m (createArray xs) # cs) = (take m (createArray xs), cs) \<and>
    (\<exists>k < length xs. parse (fst (conn_receive (take m (createArray xs) # cs))) =
      Some (RArray (map (Some \<circ> RString) (take k xs))))"
proof -
  let ?d = "take m (createArray xs)"
  have "NUL \<notin> set (createArray xs)" using createArray_no_NUL assms(1) by blast
  then have nul: "NUL \<notin> set ?d" by (meson in_set_takeD)
  obtain i where "m = length (array_header (length xs)) + i" using assms(3) le_Suc_ex by blast
  then have d: "?d = (''*'' @ nat_to_string (length xs)) @ CRLF @ take i (concat (map createBulkString xs))"
    by (simp add: createArray_header) (simp add: array_header_def)
  then have "?d \<noteq> []" by simp
  from receive_first_chunk[OF this nul _ d, of "[]" cs]
  have r: "conn_receive (?d # cs) = (?d, cs)" by simp
  have "\<exists>k < length xs. parse ?d = Some (RArray (map (Some \<circ> RString) (take k xs)))"
    by (rule cut_prefix) (use assms in auto)
  with r show ?thesis by simp
qed

theorem fragmented_request_runs_short_witness:
  "\<exists>k < 2. parse (fst (conn_receive (take 12 (createArray [''DEL'', ''1'']) # [''x'']))) =
    Some (RArray (map (Some \<circ> RString) (take k [''DEL'', ''1''])))"
proof -
  have "\<forall>x\<in>set [''DEL'', ''1'']. short x \<and> NUL \<notin> set x" "int (length [''DEL'', ''1'']) \<le> int64_max"
    by (simp_all add: short_def int_limits NUL_def)
  moreover have "length (array_header (length [''DEL'', ''1''])) \<le> 12"
    "12 < length (createArray [''DEL'', ''1''])"
    by (simp_all add: array_header_def createArray_def createBulkString_def CRLF_def nat_to_string.simps)
  ultimately have "\<exists>k < length [''DEL'', ''1'']. parse (fst (conn_receive (take 12 (createArray [''DEL'', ''1'']) # [''x'']))) =
      Some (RArray (map (Some \<circ> RString) (take k [''DEL'', ''1''])))"
    using fragmented_request_runs_short[of "[''DEL'', ''1'']" 12 "[''x'']"] by blast
  then show ?thesis by (simp add: numeral_2_eq_2)
qed

subsection \<open>The invariant of the threads\<close>

definition tcp_inv :: "tcp \<Rightarrow> bool" where
  "tcp_inv s \<longleftrightarrow> task_queue s = [] \<and> (\<forall>t. W_Run t \<notin> set (workers s)) \<and>
     length (filter holds_mutex (workers s)) \<le> 1"

lemma filter_update_le:
  assumes "i < length ws" "holds_mutex w \<longrightarrow> holds_mutex (ws ! i) \<or> filter holds_mutex ws = []"
    and "length (filter holds_mutex ws) \<le> 1"
  shows "length (filter holds_mutex (ws[i := w])) \<le> 1"
proof -
  have ws: "ws = take i ws @ ws ! i # drop (Suc i) ws" using assms(1) by (rule id_take_nth_drop)
  have "filter holds_mutex ws = filter holds_mutex (take i ws) @
      (if holds_mutex (ws ! i) then [ws ! i] else []) @ filter holds_mutex (drop (Suc i) ws)"
    by (subst ws) simp
  moreover have "filter holds_mutex (ws[i := w]) = filter holds_mutex (take i ws) @
      (if holds_mutex w then [w] else []) @ filter holds_mutex (drop (Suc i) ws)"
    using assms(1) by (simp add: upd_conv_take_nth_drop)
  ultimately show ?thesis using assms(2,3) by (auto split: if_splits)
qed

lemma mutex_free_filter: "mutex_free s \<longleftrightarrow> filter holds_mutex (workers s) = []"
  by (auto simp: mutex_free_def filter_empty_conv)

lemma tcp_inv_worker:
  assumes "tcp_inv s" "step_worker i s = Some s'"
  shows "tcp_inv s'"
proof -
  obtain w q where i: "i < length (workers s)" and w: "worker_step s (workers s ! i) = Some (w, q)"
    and s': "s' = s\<lparr>workers := (workers s)[i := w], task_queue := q\<rparr>"
    using assms(2) by (auto simp: step_worker_def split: if_splits option.splits)
  have "workers s ! i \<noteq> W_Run t" for t using assms(1) i nth_mem by (force simp: tcp_inv_def)
  then have "q = []" "\<forall>t. w \<noteq> W_Run t"
    "holds_mutex w \<longrightarrow> holds_mutex (workers s ! i) \<or> filter holds_mutex (workers s) = []"
    using w assms(1) by (auto simp: worker_step_def tcp_inv_def mutex_free_filter holds_mutex_def
        split: worker.splits if_splits)
  then show ?thesis
    using assms(1) s' filter_update_le[OF i] by (auto simp: tcp_inv_def dest!: set_update_subset_insert[THEN subsetD])
qed

lemma tcp_inv_spurious: "spurious_wakeup s t \<Longrightarrow> tcp_inv s \<Longrightarrow> tcp_inv t"
proof (induction rule: spurious_wakeup.induct)
  case (1 i s)
  then have "length (filter holds_mutex ((workers s)[i := W_Wake])) \<le> 1"
    by (intro filter_update_le) (simp_all add: tcp_inv_def holds_mutex_def)
  then show ?case using 1(3) by (auto simp: tcp_inv_def dest!: set_update_subset_insert[THEN subsetD])
qed

lemma notified_inv: "tcp_inv s \<Longrightarrow> tcp_inv (stop_notify s)"
proof -
  have "filter holds_mutex (map notified ws) = filter holds_mutex ws" for ws
    by (induction ws) (auto simp: holds_mutex_def notified_def)
  moreover have "W_Run t \<notin> set ws \<Longrightarrow> W_Run t \<notin> set (map notified ws)" for t ws
    by (auto simp: notified_def split: if_splits)
  ultimately show "tcp_inv s \<Longrightarrow> tcp_inv (stop_notify s)"
    by (simp add: tcp_inv_def stop_notify_def)
qed

lemma tcp_inv_step: "tcp_step s t \<Longrightarrow> tcp_inv s \<Longrightarrow> tcp_inv t"
proof (induction rule: tcp_step.induct)
  case (t_worker i s s')
  then show ?case using tcp_inv_worker by blast
next
  case (t_spurious s s')
  then show ?case by (rule tcp_inv_spurious)
next
  case (t_notify s)
  then show ?case using notified_inv by blast
qed (auto simp: tcp_inv_def tcp_start_def accept_client_def accept_call_def accept_failed_def client_gone_def
    stop_begin_def stop_finish_def
    split: if_splits)

lemma tcp_inv_init: "tcp_init env h p n TCPServer_init = Ok (True, s) \<Longrightarrow> tcp_inv s"
  by (auto simp: tcp_init_def TCPServer_init_def tcp_inv_def Let_def holds_mutex_def split: if_splits)

text \<open>
  C35. The thread pool never works.  In every reachable state the task queue is empty and no worker
  runs the message handler (the clients' own threads do), and at most one worker holds the
  mutex of the queue.
\<close>
theorem thread_pool_idle:
  assumes "tcp_reachable n s"
  shows "task_queue s = [] \<and> (\<forall>t. W_Run t \<notin> set (workers s)) \<and>
    length (filter holds_mutex (workers s)) \<le> 1"
proof -
  have "tcp_inv s" using assms
    by (induction rule: tcp_reachable.induct) (auto intro: tcp_inv_init tcp_inv_step)
  then show ?thesis by (simp add: tcp_inv_def)
qed

definition all_ok :: tcp_env where
  "all_ok = \<lparr>socket_ok = True, setsockopt_ok = True, bind_ok = True, listen_ok = True, joins_end = True\<rparr>"

definition fresh_server :: "nat \<Rightarrow> tcp" where
  "fresh_server n = TCPServer_init\<lparr>tcp_host := ''0.0.0.0'', tcp_port := 6379, sock_open := True,
     workers := replicate n W_Loop\<rparr>"

lemma fresh_reachable: "tcp_reachable (int n) (fresh_server n)"
  by (rule tr_init[of all_ok "''0.0.0.0''" 6379])
    (simp add: tcp_init_def all_ok_def fresh_server_def TCPServer_init_def Let_def)

theorem thread_pool_idle_witness:
  "task_queue (fresh_server 4) = [] \<and> length (filter holds_mutex (workers (fresh_server 4))) \<le> 1"
  using thread_pool_idle[OF fresh_reachable[of 4]] by blast

subsection \<open>Connections are not limited\<close>

definition started :: "nat \<Rightarrow> tcp" where
  "started n = (fresh_server n)\<lparr>tcp_running := True, accept_state := A_Run\<rparr>"

lemma started_reachable: "tcp_reachable (int n) (started n)"
  by (rule tr_step[OF fresh_reachable t_start])
    (simp_all add: fresh_server_def started_def tcp_start_def TCPServer_init_def)

text \<open>
  No limit on connections.  Whatever the size of the pool, the server reaches states with any
  number of open connections, each with a thread of its own: \<^verbatim>\<open>max_connections\<close> plays no part.
\<close>
theorem connections_unbounded:
  "\<exists>s. tcp_reachable (int n) s \<and> getConnectionCount s = m"
proof -
  have "\<exists>s. tcp_reachable (int n) s \<and> getConnectionCount s = m \<and> accept_state s = A_Run \<and> tcp_running s"
  proof (induction m)
    case 0
    have "getConnectionCount (started n) = 0" "accept_state (started n) = A_Run" "tcp_running (started n)"
      by (simp_all add: started_def fresh_server_def TCPServer_init_def getConnectionCount_def)
    then show ?case using started_reachable by blast
  next
    case (Suc m)
    then obtain s where s: "tcp_reachable (int n) s" "getConnectionCount s = m" "accept_state s = A_Run"
      "tcp_running s" by blast
    have "tcp_step (accept_call s) (accept_client (accept_call s))" by (rule t_accept) (simp add: accept_call_def)
    then have "tcp_reachable (int n) (accept_client (accept_call s))"
      using tr_step[OF tr_step[OF s(1) t_accept_call[OF s(3,4)]]] by blast
    then show ?case using s by (auto simp: accept_client_def accept_call_def getConnectionCount_def
        intro!: exI[of _ "accept_client (accept_call s)"])
  qed
  then show ?thesis by blast
qed

subsection \<open>The lost wake-up\<close>

definition late_sleeper :: "tcp \<Rightarrow> bool" where
  "late_sleeper s \<longleftrightarrow> owner_state s = O_JoinWorkers \<and> (\<exists>ws. workers s = W_Sleep # ws)"

text \<open>The steps other than a spurious wake-up.\<close>

definition quiet_step :: "tcp \<Rightarrow> tcp \<Rightarrow> bool" where
  "quiet_step s t \<longleftrightarrow> tcp_step s t \<and> \<not> spurious_wakeup s t"

lemma late_sleeper_step:
  assumes "tcp_step s t" "\<not> spurious_wakeup s t" "late_sleeper s"
  shows "late_sleeper t"
  using assms
proof (induction rule: tcp_step.induct)
  case (t_worker i s s')
  then show ?case
    by (cases i) (auto simp: late_sleeper_def step_worker_def worker_step_def split: if_splits option.splits)
qed (auto simp: late_sleeper_def accept_client_def accept_call_def accept_failed_def client_gone_def)

lemma late_sleeper_for_ever: "quiet_step\<^sup>*\<^sup>* s t \<Longrightarrow> late_sleeper s \<Longrightarrow> late_sleeper t"
  by (induction rule: rtranclp_induct) (auto simp: quiet_step_def intro: late_sleeper_step)

lemma late_sleeper_reachable: "\<exists>s. tcp_reachable (int (Suc n)) s \<and> late_sleeper s"
proof -
  let ?s0 = "started (Suc n)"
  let ?w = "\<lambda>w. w # replicate n W_Loop"
  let ?s1 = "?s0\<lparr>workers := ?w W_Locked\<rparr>" and ?s2 = "?s0\<lparr>workers := ?w W_Check\<rparr>"
  let ?s3 = "stop_begin ?s2"
  let ?s4 = "?s3\<lparr>accept_state := A_Exited\<rparr>"
  let ?s5 = "stop_notify ?s4"
  let ?s6 = "?s5\<lparr>workers := W_Sleep # map notified (replicate n W_Loop)\<rparr>"
  note defs = started_def fresh_server_def TCPServer_init_def stop_begin_def stop_notify_def
  have 1: "tcp_step ?s0 ?s1"
    by (rule t_worker[of 0]) (auto simp: step_worker_def worker_step_def mutex_free_def holds_mutex_def defs)
  have 2: "tcp_step ?s1 ?s2" by (rule t_worker[of 0]) (simp add: step_worker_def worker_step_def defs)
  have 3: "tcp_step ?s2 ?s3" by (rule t_stop) (simp add: defs)
  have 4: "tcp_step ?s3 ?s4" by (rule t_accept_exit) (simp_all add: defs)
  have 5: "tcp_step ?s4 ?s5" by (rule t_notify) (simp_all add: defs)
  have 6: "tcp_step ?s5 ?s6"
    by (rule t_worker[of 0]) (simp add: step_worker_def worker_step_def defs notified_def)
  have "tcp_reachable (int (Suc n)) ?s6"
    by (rule tr_step[OF tr_step[OF tr_step[OF tr_step[OF tr_step[OF tr_step[OF
      started_reachable 1] 2] 3] 4] 5] 6])
  moreover have "late_sleeper ?s6" by (simp add: late_sleeper_def defs)
  ultimately show ?thesis by blast
qed

text \<open>
  C25. stop can hang.  With a pool of any positive size the server reaches a state of \<^verbatim>\<open>stop\<close> from
  which the join of the workers never ends unless a wait on the condition variable ends without a
  notification, which C++ permits and never promises: \<^verbatim>\<open>stop\<close> clears \<^verbatim>\<open>running_\<close> and notifies without
  the mutex, so the notification can fall between a worker's test of the predicate and its sleep.
\<close>
theorem stop_loses_wakeup:
  "\<exists>s. tcp_reachable (int (Suc n)) s \<and> owner_state s = O_JoinWorkers \<and>
    (\<forall>t. quiet_step\<^sup>*\<^sup>* s t \<longrightarrow> owner_state t = O_JoinWorkers \<and> W_Sleep \<in> set (workers t))"
proof -
  obtain s where s: "tcp_reachable (int (Suc n)) s" "late_sleeper s" using late_sleeper_reachable by blast
  have "owner_state t = O_JoinWorkers \<and> W_Sleep \<in> set (workers t)" if "quiet_step\<^sup>*\<^sup>* s t" for t
    using late_sleeper_for_ever[OF that s(2)] by (auto simp: late_sleeper_def)
  with s show ?thesis by (auto simp: late_sleeper_def intro!: exI[of _ s])
qed

theorem stop_loses_wakeup_witness:
  "\<exists>s. tcp_reachable 4 s \<and> owner_state s = O_JoinWorkers"
  using stop_loses_wakeup[of 3] by auto

subsection \<open>The workers before the start\<close>

text \<open>
  \<^verbatim>\<open>init\<close> creates the workers while \<^verbatim>\<open>running_\<close> is still false: those that run before \<^verbatim>\<open>start\<close>
  leave their loop at once.
\<close>

lemma worker_exits: "tcp_step ((fresh_server n)\<lparr>workers := replicate m W_Exited @ W_Loop # ws\<rparr>)
    ((fresh_server n)\<lparr>workers := replicate (Suc m) W_Exited @ ws\<rparr>)"
  by (rule t_worker[of m])
    (simp add: step_worker_def worker_step_def nth_append fresh_server_def TCPServer_init_def
      list_update_append replicate_append_same[symmetric] del: replicate_append_same)

lemma workers_exit: "m \<le> n \<Longrightarrow>
    tcp_reachable (int n) ((fresh_server n)\<lparr>workers := replicate m W_Exited @ replicate (n - m) W_Loop\<rparr>)"
proof (induction m)
  case 0
  then show ?case using fresh_reachable[of n] by (simp add: fresh_server_def)
next
  case (Suc m)
  then have "replicate (n - m) W_Loop = W_Loop # replicate (n - Suc m) W_Loop"
    by (metis Suc_diff_le Suc_leD diff_Suc_Suc replicate_Suc)
  then show ?case
    using tr_step[OF Suc.IH, of "(fresh_server n)\<lparr>workers := replicate (Suc m) W_Exited @ replicate (n - Suc m) W_Loop\<rparr>"]
      worker_exits[of m "replicate (n - Suc m) W_Loop" n] Suc.prems by (simp del: replicate_Suc)
qed

text \<open>
  A server without workers.  Whatever size of the pool is asked for, the server can be running with
  all of its workers gone.
\<close>
theorem pool_gone_at_start:
  "\<exists>s. tcp_reachable (int n) s \<and> tcp_running s \<and> workers s = replicate n W_Exited"
proof -
  let ?s = "(fresh_server n)\<lparr>workers := replicate n W_Exited\<rparr>"
  have "tcp_step ?s (?s\<lparr>tcp_running := True, accept_state := A_Run\<rparr>)"
    by (rule t_start) (simp_all add: tcp_start_def fresh_server_def TCPServer_init_def)
  moreover have "tcp_reachable (int n) ?s" using workers_exit[of n n] by simp
  ultimately have "tcp_reachable (int n) (?s\<lparr>tcp_running := True, accept_state := A_Run\<rparr>)" by (rule tr_step[rotated])
  then show ?thesis by (intro exI[of _ "?s\<lparr>tcp_running := True, accept_state := A_Run\<rparr>"]) simp
qed

subsection \<open>stop beside a waiting accept\<close>

text \<open>The steps in which the call of \<^verbatim>\<open>accept\<close> does not return.\<close>

definition accept_waits :: "tcp \<Rightarrow> tcp \<Rightarrow> bool" where
  "accept_waits s t \<longleftrightarrow> tcp_step s t \<and> (accept_state s = A_Blocked \<longrightarrow> accept_state t = A_Blocked)"

lemma accept_waits_join:
  assumes "accept_waits\<^sup>*\<^sup>* s t" "owner_state s = O_JoinAccept" "accept_state s = A_Blocked"
  shows "owner_state t = O_JoinAccept \<and> accept_state t = A_Blocked"
  using assms
proof (induction rule: rtranclp_induct)
  case (step t u)
  then have "tcp_step t u" "owner_state t = O_JoinAccept" "accept_state t = A_Blocked"
    "accept_state u = A_Blocked" by (auto simp: accept_waits_def)
  then show ?case
    by (induction rule: tcp_step.induct) (auto simp: step_worker_def client_gone_def accept_client_def accept_failed_def
          spurious_wakeup.simps split: option.splits if_splits)
qed simp

lemma accept_return_ends_join:
  assumes "owner_state s = O_JoinAccept" "accept_state s = A_Run" "\<not> tcp_running s"
  shows "\<exists>t. tcp_step\<^sup>*\<^sup>* s t \<and> owner_state t = O_JoinWorkers"
proof -
  let ?b = "s\<lparr>accept_state := A_Exited\<rparr>"
  have "tcp_step s ?b" by (rule t_accept_exit) (simp_all add: assms)
  moreover have "tcp_step ?b (stop_notify ?b)" by (rule t_notify) (simp_all add: assms)
  ultimately have "tcp_step\<^sup>*\<^sup>* s (stop_notify ?b)" by auto
  then show ?thesis by (intro exI[of _ "stop_notify ?b"]) (simp add: stop_notify_def)
qed

text \<open>
  C15. stop waits for a client.  When \<^verbatim>\<open>stop\<close> is called while the accept thread waits in \<^verbatim>\<open>accept\<close>, the
  usual place, then whatever the threads do it stays at the join of the accept thread as long as that
  call does not return.  The call returns when the next client connects, which is then still
  accepted, or when it fails; either return lets \<^verbatim>\<open>stop\<close> go on to the workers.
\<close>
theorem stop_waits_for_a_client:
  assumes "tcp_reachable n s" "owner_state s = O_Free" "accept_state s = A_Blocked"
  shows "tcp_step s (stop_begin s) \<and>
    (\<forall>t. accept_waits\<^sup>*\<^sup>* (stop_begin s) t \<longrightarrow> owner_state t = O_JoinAccept) \<and>
    (\<forall>u\<in>{accept_client (stop_begin s), accept_failed (stop_begin s)}.
      tcp_step (stop_begin s) u \<and> (\<exists>t. tcp_step\<^sup>*\<^sup>* u t \<and> owner_state t = O_JoinWorkers))"
proof (intro conjI allI impI ballI)
  show "tcp_step s (stop_begin s)" using assms(2) by (rule t_stop)
  fix t assume "accept_waits\<^sup>*\<^sup>* (stop_begin s) t"
  then show "owner_state t = O_JoinAccept"
    using accept_waits_join assms(3) by (auto simp: stop_begin_def)
next
  fix u assume u: "u \<in> {accept_client (stop_begin s), accept_failed (stop_begin s)}"
  have "accept_state (stop_begin s) = A_Blocked" by (simp add: stop_begin_def assms(3))
  with u show "tcp_step (stop_begin s) u" by (auto intro: t_accept t_accept_failed)
  show "\<exists>t. tcp_step\<^sup>*\<^sup>* u t \<and> owner_state t = O_JoinWorkers"
    using u by (intro accept_return_ends_join) (auto simp: accept_client_def accept_failed_def stop_begin_def)
qed

theorem stop_waits_for_a_client_witness:
  "\<exists>t. tcp_step\<^sup>*\<^sup>* (accept_client (stop_begin (accept_call (started 4)))) t \<and> owner_state t = O_JoinWorkers"
proof -
  have "tcp_reachable (int 4) (accept_call (started 4))"
    by (rule tr_step[OF started_reachable t_accept_call]) (simp_all add: started_def)
  from stop_waits_for_a_client[OF this] show ?thesis
    by (auto simp: accept_call_def started_def fresh_server_def TCPServer_init_def)
qed

end
