(* ===== verification/RedisService.thy ===== *)
theory RedisService
  imports SkipListServerProps TcpServerProps
begin

section \<open>A client session, from the socket to the store\<close>

text \<open>
  The connection loop of the TCP server relies on the message handler, and the message handler on
  the store.  The interface between the first two is the locale \<open>store_service\<close>: what the handler
  answers to the four commands on keys, over a view of its state as a map.  The sessions of a
  client are reasoned about in the locale; the server's own callback interprets it.
\<close>

subsection \<open>Requests and what they mean\<close>

datatype store_req =
    Req_set string string
  | Req_get string
  | Req_del string
  | Req_exists string

primrec req_words :: "store_req \<Rightarrow> string list" where
  "req_words (Req_set a v) = [''SET'', a, v]"
| "req_words (Req_get a) = [''GET'', a]"
| "req_words (Req_del a) = [''DEL'', a]"
| "req_words (Req_exists a) = [''EXISTS'', a]"

primrec req_key :: "store_req \<Rightarrow> string" where
  "req_key (Req_set a v) = a"
| "req_key (Req_get a) = a"
| "req_key (Req_del a) = a"
| "req_key (Req_exists a) = a"

text \<open>The bytes survive the C string of \<^verbatim>\<open>receive\<close>, and the key is a number.\<close>

definition req_ok :: "store_req \<Rightarrow> bool" where
  "req_ok r \<longleftrightarrow> (\<forall>x\<in>set (req_words r). short x \<and> NUL \<notin> set x) \<and> returns (stoi (req_key r))"

primrec req_spec :: "store_req \<Rightarrow> int \<Rightarrow> (int \<rightharpoonup> string) \<Rightarrow> string \<times> (int \<rightharpoonup> string)" where
  "req_spec (Req_set a v) k m =
     (if m k = None then createSimpleString ''OK'' else err ''failed to set key'', map_op (Put k v) m)"
| "req_spec (Req_get a) k m =
     (if m k = None then createNullBulkString else createBulkString (''value_for_key_'' @ a), m)"
| "req_spec (Req_del a) k m = (createInteger 1, m(k := None))"
| "req_spec (Req_exists a) k m = (createInteger (if m k = None then 0 else 1), m)"

definition key_of :: "store_req \<Rightarrow> int" where
  "key_of r = (case stoi (req_key r) of Ok k \<Rightarrow> k | _ \<Rightarrow> 0)"

fun session_spec :: "store_req list \<Rightarrow> (int \<rightharpoonup> string) \<Rightarrow> string list \<times> (int \<rightharpoonup> string)" where
  "session_spec [] m = ([], m)"
| "session_spec (r # rs) m =
     (let (reply, m1) = req_spec r (key_of r) m; (out, m2) = session_spec rs m1
      in (reply # out, m2))"

lemma req_ok_key: "req_ok r \<Longrightarrow> stoi (req_key r) = Ok (key_of r)"
  by (cases "stoi (req_key r)") (auto simp: req_ok_def key_of_def)

lemma req_ok_words: "req_ok r \<Longrightarrow> request_ok (req_words r)"
  by (cases r) (auto simp: req_ok_def request_ok_def int_limits)

lemma req_spec_not_Nil: "fst (req_spec r k m) \<noteq> []"
  by (cases r) (auto simp: createSimpleString_def err_def createError_def createNullBulkString_def
      createBulkString_def createInteger_def)

subsection \<open>The interface\<close>

locale store_service =
  fixes handle :: "string \<Rightarrow> 's \<Rightarrow> string \<times> 's"
    and ready :: "'s \<Rightarrow> bool"
    and view :: "'s \<Rightarrow> (int \<rightharpoonup> string)"
  assumes handle_ready: "ready s \<Longrightarrow> ready (snd (handle msg s))"
    and handle_req: "ready s \<Longrightarrow> req_ok r \<Longrightarrow>
      fst (handle (createArray (req_words r) @ rest) s) = fst (req_spec r (key_of r) (view s)) \<and>
      view (snd (handle (createArray (req_words r) @ rest) s)) = snd (req_spec r (key_of r) (view s))"
begin

text \<open>
  Each chunk is what one \<^verbatim>\<open>recv\<close> delivers: a complete request and whatever the client sent behind
  it.  There is one reply per chunk, to its first request.
\<close>

lemma serve_session:
  assumes "ready s" and "\<forall>(r, extra)\<in>set cs. req_ok r \<and> NUL \<notin> set extra"
  shows "fst (serve handle (map (\<lambda>(r, extra). createArray (req_words r) @ extra) cs) s) =
      fst (session_spec (map fst cs) (view s)) \<and>
    view (snd (serve handle (map (\<lambda>(r, extra). createArray (req_words r) @ extra) cs) s)) =
      snd (session_spec (map fst cs) (view s)) \<and>
    ready (snd (serve handle (map (\<lambda>(r, extra). createArray (req_words r) @ extra) cs) s))"
  using assms
proof (induction cs arbitrary: s)
  case Nil
  then show ?case by (simp add: serve.simps conn_receive_def)
next
  case (Cons c cs)
  obtain r extra where c: "c = (r, extra)" by (cases c)
  let ?d = "createArray (req_words r) @ extra"
  let ?f = "\<lambda>(r, extra). createArray (req_words r) @ extra"
  have ok: "req_ok r" "NUL \<notin> set extra" using Cons.prems c by auto
  have recv: "conn_receive (?d # map ?f cs) = (?d, map ?f cs)"
    by (rule receive_request) (use ok in \<open>auto simp: req_ok_def\<close>)
  obtain reply s1 where h: "handle ?d s = (reply, s1)" by fastforce
  have s1: "ready s1" "reply = fst (req_spec r (key_of r) (view s))"
    "view s1 = snd (req_spec r (key_of r) (view s))"
    using handle_ready[OF Cons.prems(1), of ?d] handle_req[OF Cons.prems(1) ok(1), of extra] h by simp_all
  have "serve handle (map ?f (c # cs)) s =
      (reply # fst (serve handle (map ?f cs) s1), snd (serve handle (map ?f cs) s1))"
    using recv h s1(2) req_spec_not_Nil c by (simp add: serve.simps[of _ "_ # _"] createArray_def split: prod.split)
  then show ?case
    using Cons.IH[OF s1(1)] Cons.prems(2) s1(2,3) c by (simp add: Let_def split: prod.split)
qed

end

subsection \<open>The server provides it\<close>

definition server_ready :: "senv \<Rightarrow> server \<Rightarrow> bool" where
  "server_ready env s \<longleftrightarrow> handler_ok (sv_henv env) (redis s)"

lemma serve_message_Ok:
  assumes "handleCommand (sv_henv env) msg (redis s) = Ok (reply, h)"
  shows "fst (serve_message env msg s) = reply" "redis (snd (serve_message env msg s)) = h"
  using assms by (simp_all add: serve_message_def handleMessage_def on_redis_def)

lemma handler_req:
  assumes "handler_ok env h" and "req_ok r"
  shows "\<exists>h'. handleCommand env (createArray (req_words r) @ rest) h =
      Ok (fst (req_spec r (key_of r) (contents h)), h') \<and>
    contents h' = snd (req_spec r (key_of r) (contents h))"
proof -
  define k where "k = key_of r"
  note k = req_ok_key[OF assms(2), folded k_def] and w = req_ok_words[OF assms(2)]
  show ?thesis
  proof (cases r)
    case (Req_set a v)
    with set_wire[OF assms(1) _ upper_names(1), of a v k rest] k w show ?thesis
      unfolding k_def[symmetric] by auto
  next
    case (Req_get a)
    with get_wire[OF assms(1) _ upper_names(2), of a k rest] k w show ?thesis
      unfolding k_def[symmetric] by auto
  next
    case (Req_del a)
    with del_wire[OF assms(1) _ upper_names(3), of a k rest] k w show ?thesis
      unfolding k_def[symmetric] by auto
  next
    case (Req_exists a)
    with exists_wire[OF assms(1) _ upper_names(4), of a k rest] k w show ?thesis
      unfolding k_def[symmetric] by auto
  qed
qed

interpretation svc: store_service "serve_message env" "server_ready env" "\<lambda>s. contents (redis s)" for env
proof
  fix s :: server and msg
  assume "server_ready env s"
  then obtain reply h where "handleCommand (sv_henv env) msg (redis s) = Ok (reply, h)"
    "handler_ok (sv_henv env) h"
    using handleCommand_safe by (metis server_ready_def)
  then show "server_ready env (snd (serve_message env msg s))"
    using serve_message_Ok by (metis server_ready_def)
next
  fix s :: server and r rest
  assume "server_ready env s" "req_ok r"
  then obtain h where "handleCommand (sv_henv env) (createArray (req_words r) @ rest) (redis s) =
      Ok (fst (req_spec r (key_of r) (contents (redis s))), h)"
    "contents h = snd (req_spec r (key_of r) (contents (redis s)))"
    using handler_req by (metis server_ready_def)
  then show "fst (serve_message env (createArray (req_words r) @ rest) s) =
        fst (req_spec r (key_of r) (contents (redis s))) \<and>
      contents (redis (snd (serve_message env (createArray (req_words r) @ rest) s))) =
        snd (req_spec r (key_of r) (contents (redis s)))"
    using serve_message_Ok by metis
qed

end
