(* ===== verification/ReplicationProps.thy ===== *)
theory ReplicationProps
  imports Replication
begin

section \<open>Properties of replication\<close>

text \<open>
  The process is a step relation: a step is one call of an operation by a thread (a command
  handler, the message handler of the replication port, a pass of one of the three loops, start
  and stop).  Reachable states start at the constructor followed by \<^verbatim>\<open>init\<close>.
\<close>

definition start_state :: "tcp_env \<Rightarrow> repl \<Rightarrow> repl" where
  "start_state env s = (case startReplication env s of
       Ok (b, t) \<Rightarrow> t | Throw (e, t) \<Rightarrow> t | Fault d \<Rightarrow> s)"

inductive repl_step :: "repl \<Rightarrow> repl \<Rightarrow> bool" where
  st_replicate: "repl_step s (replicateCommand now c s)"
| st_add: "repl_step s (snd (addSlave h p s))"
| st_remove: "repl_step s (removeSlave i s)"
| st_message: "repl_step s (snd (handleReplicationMessage now m c s))"
| st_master: "master_thread s \<Longrightarrow> repl_step s (masterLoop_pass now1 now2 s)"
| st_ping: "ping_thread s \<Longrightarrow> repl_step s (pingSlaves_pass now1 now2 s)"
| st_slave: "slave_thread s \<Longrightarrow> repl_step s (slaveLoop_pass s)"
| st_start: "repl_step s (start_state env s)"
| st_stop: "repl_step s (stopReplication s)"
| st_handler: "repl_step s (setCommandHandler s)"

inductive repl_reachable :: "string \<Rightarrow> int \<Rightarrow> repl \<Rightarrow> bool" for h p where
  reach_init: "repl_reachable h p (init_repl h p ReplicationManager_init)"
| reach_step: "repl_reachable h p s \<Longrightarrow> repl_step s t \<Longrightarrow> repl_reachable h p t"

inductive_cases repl_stepE: "repl_step s t"

subsection \<open>What the operations leave alone\<close>

lemmas repl_defs = setRole_def setMasterAddress_def updateState_def init_repl_def setCommandHandler_def
  stopReplication_def addSlave_def removeSlave_def updateSlavePing_def
  updateSlaveOffset_def replicateToSlaves_def handleNewSlaveConnections_def updateSlaveStats_def
  checkSlaveHealth_def cleanupDeadSlaves_def client_send_def

lemma start_state_cases:
  "start_state env s = s \<or> start_state env s = s\<lparr>running := True\<rparr> \<or>
   \<not> running s \<and> isMaster s \<and> start_state env s =
     s\<lparr>running := True, server_up := True, master_thread := True, ping_thread := True, rstate := ONLINE\<rparr> \<or>
   \<not> running s \<and> isSlave s \<and> start_state env s = s\<lparr>running := True, slave_thread := True, rstate := CONNECTING\<rparr>"
  by (auto simp: start_state_def startReplication_def Let_def updateState_def isMaster_def isSlave_def
      tcp_init_def)

lemma start_state_slave:
  "role s = SLAVE \<Longrightarrow> start_state env s =
    (if running s then s else s\<lparr>running := True, slave_thread := True, rstate := CONNECTING\<rparr>)"
  by (simp add: start_state_def startReplication_def updateState_def isMaster_def isSlave_def)

lemma drain_log_frame:
  "drain_log es cur s = (cur', s') \<Longrightarrow> \<exists>a. s' = s\<lparr>announced := a\<rparr>"
proof (induction es cur s rule: drain_log.induct)
  case (2 e es cur s)
  then show ?case by (fastforce simp: replicateToSlaves_def split: if_splits)
qed (simp, metis repl.surjective repl.update_convs(20))

lemma drain_log_stale:
  "\<forall>e\<in>set es. entry_offset e \<le> cur \<Longrightarrow> drain_log es cur s = (cur, s)"
  by (induction es) auto

lemma apply_synced_frame:
  "role (apply_synced i n s) = role s \<and> slaves (apply_synced i n s) = slaves s \<and>
   rlog (apply_synced i n s) = rlog s \<and> sent (apply_synced i n s) = sent s \<and>
   max_replication_log_size (apply_synced i n s) = max_replication_log_size s"
  by (induction n arbitrary: i s) (auto simp: applyReplicationCommand_def)

lemma update_first_map:
  "(\<And>x. x \<in> set xs \<Longrightarrow> P x \<Longrightarrow> g (f x) = g x) \<Longrightarrow> map g (update_first P f xs) = map g xs"
  by (induction xs) auto

lemma update_first_none: "\<forall>x\<in>set xs. \<not> P x \<Longrightarrow> update_first P f xs = xs"
  by (induction xs) auto

subsection \<open>The replication log\<close>

definition log_ok :: "repl \<Rightarrow> bool" where
  "log_ok s \<longleftrightarrow> length (rlog s) \<le> max_replication_log_size s \<and>
     (\<forall>i < length (rlog s). entry_offset (rlog s ! i) = roffset s - int (length (rlog s)) + int i)"

lemma log_ok_stale: "log_ok s \<Longrightarrow> \<forall>e\<in>set (rlog s). entry_offset e \<le> roffset s"
  by (auto simp: log_ok_def in_set_conv_nth)

lemma processReplicationQueue_discards:
  "log_ok s \<Longrightarrow> processReplicationQueue s = s\<lparr>rlog := []\<rparr>"
  using drain_log_stale[OF log_ok_stale] by (auto simp: processReplicationQueue_def)

lemma log_ok_snoc:
  assumes "log_ok s"
  shows "log_ok (logReplicationEntry now c s)"
  using assms by (auto simp: log_ok_def logReplicationEntry_def drop_front_def nth_append)

lemma log_ok_cong:
  "rlog t = rlog s \<Longrightarrow> roffset t = roffset s \<Longrightarrow>
    max_replication_log_size t = max_replication_log_size s \<Longrightarrow> log_ok t = log_ok s"
  by (simp add: log_ok_def)

subsection \<open>The invariant\<close>

definition slave_key :: "slave_info \<Rightarrow> string \<times> int \<times> string" where
  "slave_key sl = (slave_host sl, slave_port sl, slave_id sl)"

definition slaves_ok :: "slave_info list \<Rightarrow> bool" where
  "slaves_ok sls \<longleftrightarrow> distinct (map (\<lambda>sl. (slave_host sl, slave_port sl)) sls) \<and>
     (\<forall>sl\<in>set sls. slave_id sl = slave_host sl @ '':'' @ int_to_string (slave_port sl))"

definition control_message :: "string \<Rightarrow> bool" where
  "control_message m \<longleftrightarrow> (\<exists>n. m = ''MASTER:OK:'' @ int_to_string n) \<or>
     (\<exists>a b. m = ''SYNC:'' @ int_to_string a @ '':'' @ int_to_string b) \<or>
     (\<exists>n. m = ''SYNC:START:'' @ int_to_string n)"

definition repl_inv :: "repl \<Rightarrow> bool" where
  "repl_inv s \<longleftrightarrow> log_ok s \<and> (role s \<noteq> MASTER \<longrightarrow> rlog s = []) \<and> slaves_ok (slaves s) \<and>
     (\<forall>am\<in>set (sent s). control_message (snd am))"

lemma slaves_ok_keys: "map slave_key xs = map slave_key ys \<Longrightarrow> slaves_ok xs = slaves_ok ys"
proof -
  assume a: "map slave_key xs = map slave_key ys"
  have "map (\<lambda>sl. (slave_host sl, slave_port sl)) zs = map (\<lambda>(h, p, i). (h, p)) (map slave_key zs)" for zs
    by (simp add: slave_key_def)
  moreover have "(\<forall>sl\<in>set zs. slave_id sl = slave_host sl @ '':'' @ int_to_string (slave_port sl)) =
      (\<forall>k\<in>set (map slave_key zs). snd (snd k) = fst k @ '':'' @ int_to_string (fst (snd k)))" for zs
    by (simp add: slave_key_def)
  ultimately show ?thesis unfolding slaves_ok_def using a by presburger
qed

lemma slaves_ok_filter: "slaves_ok xs \<Longrightarrow> slaves_ok (filter P xs)"
  by (auto simp: slaves_ok_def distinct_map_filter)

lemma slaves_ok_snoc:
  "slaves_ok xs \<Longrightarrow> (\<And>sl. sl \<in> set xs \<Longrightarrow> (slave_host sl, slave_port sl) \<noteq> (h, p)) \<Longrightarrow>
    slave_key sl' = (h, p, h @ '':'' @ int_to_string p) \<Longrightarrow> slaves_ok (xs @ [sl'])"
  unfolding slaves_ok_def slave_key_def by (auto, metis)

lemma repl_inv_slaves:
  assumes "repl_inv s" "slaves_ok sls"
  shows "repl_inv (s\<lparr>slaves := sls\<rparr>)"
  using assms by (simp add: repl_inv_def log_ok_def)

lemma repl_inv_same_keys:
  assumes "repl_inv s" "map slave_key sls = map slave_key (slaves s)"
  shows "repl_inv (s\<lparr>slaves := sls\<rparr>)"
  using assms slaves_ok_keys[OF assms(2)] by (intro repl_inv_slaves) (auto simp: repl_inv_def)

lemma repl_inv_send:
  assumes "repl_inv s" "control_message m"
  shows "repl_inv (client_send c m s)"
  using assms by (auto simp: repl_inv_def client_send_def log_ok_def)

lemma repl_inv_other:
  "repl_inv s \<Longrightarrow> repl_inv (s\<lparr>rstats := x\<rparr>)" "repl_inv s \<Longrightarrow> repl_inv (s\<lparr>announced := a\<rparr>)"
  "repl_inv s \<Longrightarrow> repl_inv (s\<lparr>rstate := st\<rparr>)" "repl_inv s \<Longrightarrow> repl_inv (s\<lparr>has_handler := b\<rparr>)"
  by (simp_all add: repl_inv_def log_ok_def)

lemma repl_inv_process: "repl_inv s \<Longrightarrow> repl_inv (processReplicationQueue s)"
  using processReplicationQueue_discards[of s] by (simp add: repl_inv_def log_ok_def)

lemma repl_inv_replicate: "repl_inv s \<Longrightarrow> repl_inv (replicateCommand now c s)"
proof -
  assume inv: "repl_inv s"
  then have "repl_inv (logReplicationEntry now c s)" if "isMaster s"
    using that log_ok_snoc[of s now c] by (simp add: repl_inv_def logReplicationEntry_def isMaster_def)
  then show ?thesis
    using inv by (simp add: replicateCommand_def Let_def replicateToSlaves_def repl_inv_other)
qed

lemma repl_inv_apply: "repl_inv s \<Longrightarrow> repl_inv (applyReplicationCommand c s)"
  by (auto simp: repl_inv_def applyReplicationCommand_def isSlave_def log_ok_def)

lemma repl_inv_apply_synced: "repl_inv s \<Longrightarrow> repl_inv (apply_synced i n s)"
  by (induction n arbitrary: i s) (simp_all add: repl_inv_apply)

subsection \<open>Every step keeps it\<close>

lemma map_keys_map: "(\<And>x. slave_key (f x) = slave_key x) \<Longrightarrow> map slave_key (map f xs) = map slave_key xs"
  by simp

lemma repl_inv_health: "repl_inv s \<Longrightarrow> repl_inv (checkSlaveHealth now s)"
  unfolding checkSlaveHealth_def
  by (intro repl_inv_same_keys map_keys_map) (auto simp: slave_key_def)

lemma repl_inv_cleanup: "repl_inv s \<Longrightarrow> repl_inv (cleanupDeadSlaves now s)"
  unfolding cleanupDeadSlaves_def
  by (intro repl_inv_slaves slaves_ok_filter) (auto simp: repl_inv_def)

lemma repl_inv_master_pass: "repl_inv s \<Longrightarrow> repl_inv (masterLoop_pass now1 now2 s)"
  by (simp add: masterLoop_pass_def handleNewSlaveConnections_def updateSlaveStats_def Let_def
      repl_inv_cleanup repl_inv_health repl_inv_other repl_inv_process)

lemma repl_inv_ping_pass: "repl_inv s \<Longrightarrow> repl_inv (pingSlaves_pass now1 now2 s)"
  unfolding pingSlaves_pass_def Let_def
  by (intro repl_inv_same_keys map_keys_map repl_inv_cleanup) (auto simp: slave_key_def ping_one_def)

lemma repl_inv_slave_pass: "repl_inv s \<Longrightarrow> repl_inv (slaveLoop_pass s)"
  by (auto simp: slaveLoop_pass_def connectToMaster_def connect_with_def syncWithMaster_def sync_with_def
      handleMasterCommands_def master_commands_with_def updateState_def repl_inv_other
      repl_inv_apply_synced split: option.split outcome.split)

lemma control_messages [simp]:
  "control_message (''MASTER:OK:'' @ int_to_string n)"
  "control_message (''SYNC:'' @ int_to_string a @ '':'' @ int_to_string b)"
  "control_message (''SYNC:START:'' @ int_to_string n)"
  unfolding control_message_def by blast+

lemma client_send_frame [simp]:
  "slaves (client_send c m s) = slaves s" "roffset (client_send c m s) = roffset s"
  "rlog (client_send c m s) = rlog s" "applied (client_send c m s) = applied s"
  by (simp_all add: client_send_def)

lemma greet_slave_inv:
  assumes "greet_slave now c sl0 s = (sl, s')"
  shows "slave_key sl = slave_key sl0" "slaves s' = slaves s" "repl_inv s \<Longrightarrow> repl_inv s'"
  using assms repl_inv_send[of s "''MASTER:OK:'' @ int_to_string (roffset s)" c]
    repl_inv_send[OF repl_inv_send, of s "''MASTER:OK:'' @ int_to_string (roffset s)"
      "''SYNC:'' @ int_to_string (slave_offset sl0) @ '':'' @ int_to_string (roffset s)" c c]
  by (auto simp: greet_slave_def sendSyncCommands_def Let_def slave_key_def simp del: append_Cons append.simps
      split: if_splits)

lemma repl_inv_connection:
  assumes "repl_inv s"
  shows "repl_inv (handleSlaveConnection now c s)"
proof (cases "find (\<lambda>sl. slave_host sl = cl_address c) (slaves s)")
  case None
  obtain sl s1 where g: "greet_slave now c (new_slave (cl_address c) 0) s = (sl, s1)" by fastforce
  have "\<forall>x\<in>set (slaves s). slave_host x \<noteq> cl_address c" using None by (auto simp: find_None_iff)
  then have "slaves_ok (slaves s1 @ [sl])"
    using assms greet_slave_inv(1,2)[OF g]
    by (intro slaves_ok_snoc) (auto simp: repl_inv_def slave_key_def new_slave_def)
  then show ?thesis
    using None assms g repl_inv_slaves[OF greet_slave_inv(3)[OF g assms]]
    by (simp add: handleSlaveConnection_def Let_def)
next
  case (Some sl0)
  obtain sl s1 where g: "greet_slave now c sl0 s = (sl, s1)" by fastforce
  have first: "update_first P (\<lambda>_. y) xs = ys @ y # zs" if "xs = ys @ x # zs" "P x" "\<forall>z\<in>set ys. \<not> P z"
    for P xs ys zs and x y :: slave_info
    using that by (induction ys arbitrary: xs) auto
  from Some obtain i where "i < length (slaves s)" "slave_host (slaves s ! i) = cl_address c"
    "sl0 = slaves s ! i" "\<forall>j<i. slave_host (slaves s ! j) \<noteq> cl_address c"
    by (auto simp: find_Some_iff)
  then have "slaves s = take i (slaves s) @ sl0 # drop (Suc i) (slaves s)" "slave_host sl0 = cl_address c"
    "\<forall>z\<in>set (take i (slaves s)). slave_host z \<noteq> cl_address c"
    by (auto simp: id_take_nth_drop in_set_conv_nth)
  from first[where P = "\<lambda>sl. slave_host sl = cl_address c", OF this, of sl]
  have "map slave_key (update_first (\<lambda>sl. slave_host sl = cl_address c) (\<lambda>_. sl) (slaves s)) =
      map slave_key (slaves s)"
    using greet_slave_inv(1)[OF g] \<open>slaves s = _\<close> by (metis list.simps(9) map_append)
  then show ?thesis
    using Some assms g greet_slave_inv(2,3)[OF g] by (auto simp: handleSlaveConnection_def Let_def
        intro!: repl_inv_same_keys)
qed

lemma repl_inv_message: "repl_inv s \<Longrightarrow> repl_inv (snd (handleReplicationMessage now m c s))"
proof -
  assume inv: "repl_inv s"
  have "repl_inv (updateSlavePing now i s)" "repl_inv (updateSlaveOffset i off s)" for i off
    unfolding updateSlavePing_def updateSlaveOffset_def
    by (intro repl_inv_same_keys[OF inv] update_first_map; simp add: slave_key_def)+
  moreover have "repl_inv (snd (handleSyncRequest c off s))" for off
    using inv repl_inv_send control_messages(3) by (auto simp: handleSyncRequest_def Let_def
        simp del: append_Cons append.simps)
  ultimately show ?thesis
    using inv repl_inv_connection
    by (auto simp: handleReplicationMessage_def Let_def simp del: append_Cons append.simps
        split: option.split outcome.split)
qed

lemma repl_inv_step: "repl_step s t \<Longrightarrow> repl_inv s \<Longrightarrow> repl_inv t"
proof (induction rule: repl_step.induct)
  case (st_add s h p)
  have "slaves_ok (slaves s @ [new_slave h p])"
    if "\<not> (\<exists>sl\<in>set (slaves s). slave_host sl = h \<and> slave_port sl = p)"
    using that st_add by (intro slaves_ok_snoc[of _ h p]) (auto simp: repl_inv_def slave_key_def new_slave_def)
  then show ?case using st_add by (auto simp: addSlave_def intro!: repl_inv_slaves)
next
  case (st_remove s i)
  then have "repl_inv (s\<lparr>slaves := filter P (slaves s)\<rparr>)" for P
    by (intro repl_inv_slaves slaves_ok_filter) (auto simp: repl_inv_def)
  then show ?case using st_remove by (simp add: removeSlave_def)
next
  case (st_start s env)
  then show ?case
    using start_state_cases[of env s] by (elim disjE) (auto simp: repl_inv_def log_ok_def)
next
  case (st_stop s)
  then show ?case by (auto simp: stopReplication_def updateState_def repl_inv_def log_ok_def)
qed (auto simp: repl_inv_replicate repl_inv_message repl_inv_master_pass repl_inv_ping_pass
    repl_inv_slave_pass setCommandHandler_def repl_inv_other)

lemma repl_inv_reachable: "repl_reachable h p s \<Longrightarrow> repl_inv s"
proof (induction rule: repl_reachable.induct)
  case reach_init
  show ?case by (simp add: init_repl_def setMasterAddress_def setRole_def ReplicationManager_init_def
        repl_inv_def log_ok_def slaves_ok_def)
qed (rule repl_inv_step)

subsection \<open>Properties\<close>

text \<open>
  C24. The replication invariant.  In every reachable state the log holds at most the configured
  number of entries, its offsets are consecutive and end just below the replication offset, a
  process that is not a master has an empty log, no two slaves have the same address and port,
  every slave is identified by host and port, and everything that was ever sent to a client is
  a handshake or a synchronisation header: no replicated command leaves the process.
\<close>
theorem replication_invariant:
  assumes "repl_reachable h p s"
  shows "length (rlog s) \<le> max_replication_log_size s \<and>
    (\<forall>i < length (rlog s). entry_offset (rlog s ! i) = roffset s - int (length (rlog s)) + int i) \<and>
    (role s \<noteq> MASTER \<longrightarrow> rlog s = []) \<and>
    distinct (map (\<lambda>sl. (slave_host sl, slave_port sl)) (slaves s)) \<and>
    (\<forall>sl\<in>set (slaves s). slave_id sl = slave_host sl @ '':'' @ int_to_string (slave_port sl)) \<and>
    (\<forall>am\<in>set (sent s). control_message (snd am))"
  using repl_inv_reachable[OF assms] by (auto simp: repl_inv_def log_ok_def slaves_ok_def)

theorem replication_invariant_witness:
  "\<exists>s. repl_reachable '''' 0 s \<and> rlog s = [\<lparr>entry_offset = 0, entry_command = ''FLUSH'', entry_time = 5\<rparr>] \<and>
    (\<forall>am\<in>set (sent s). control_message (snd am))"
proof -
  let ?s = "replicateCommand 5 ''FLUSH'' (init_repl '''' 0 ReplicationManager_init)"
  have r: "repl_reachable '''' 0 ?s" by (rule reach_step[OF reach_init st_replicate])
  have "rlog ?s = [\<lparr>entry_offset = 0, entry_command = ''FLUSH'', entry_time = 5\<rparr>]"
    by (simp add: replicateCommand_def logReplicationEntry_def replicateToSlaves_def init_repl_def setRole_def
        isMaster_def ReplicationManager_init_def drop_front_def Let_def)
  with r replication_invariant[OF r] show ?thesis by blast
qed

text \<open>
  The replication queue is thrown away.  In a reachable state a pass of the master's loop over
  the queue empties the log; no entry is newer than the current offset, so nothing is
  replicated, announced or sent and the offset stays.
\<close>
theorem replication_queue_discarded:
  assumes "repl_reachable h p s"
  shows "processReplicationQueue s = s\<lparr>rlog := []\<rparr>"
  using repl_inv_reachable[OF assms] processReplicationQueue_discards by (simp add: repl_inv_def)

theorem replication_queue_discarded_witness:
  "processReplicationQueue (replicateCommand 5 ''FLUSH'' (init_repl '''' 0 ReplicationManager_init)) =
     (replicateCommand 5 ''FLUSH'' (init_repl '''' 0 ReplicationManager_init))\<lparr>rlog := []\<rparr>"
  by (rule replication_queue_discarded[OF reach_step[OF reach_init st_replicate]])

text \<open>
  A slave added by address disappears.  \<^verbatim>\<open>addSlave\<close> does not set the time of the last ping, which
  is therefore the epoch: the first clean-up later than three ping intervals after the epoch
  removes the new entry, and every other entry as before.
\<close>
theorem added_slave_removed_at_cleanup:
  assumes "addSlave h p s = (True, s')" and "now > ms (ping_interval_ms s * 3)"
  shows "slaves (cleanupDeadSlaves now s') = slaves (cleanupDeadSlaves now s)"
  using assms by (auto simp: addSlave_def cleanupDeadSlaves_def new_slave_def split: if_splits)

theorem added_slave_removed_at_cleanup_witness:
  "\<exists>s'. addSlave ''127.0.0.1'' 6380 (init_repl '''' 0 ReplicationManager_init) = (True, s') \<and>
    slaves (cleanupDeadSlaves 1700000000000000000 s') = []"
proof -
  let ?m = "init_repl '''' 0 ReplicationManager_init"
  obtain s' where a: "addSlave ''127.0.0.1'' 6380 ?m = (True, s')"
    by (simp add: addSlave_def init_repl_def setRole_def isMaster_def ReplicationManager_init_def)
  have "slaves (cleanupDeadSlaves 1700000000000000000 ?m) = []"
    by (simp add: cleanupDeadSlaves_def init_repl_def setRole_def ReplicationManager_init_def)
  with added_slave_removed_at_cleanup[OF a, of 1700000000000000000] a show ?thesis
    by (simp add: init_repl_def setRole_def ReplicationManager_init_def ms_def)
qed

subsection \<open>Death of a slave\<close>

definition shows_online :: "string \<Rightarrow> int \<Rightarrow> int \<Rightarrow> repl \<Rightarrow> bool" where
  "shows_online i t ival s \<longleftrightarrow> ping_interval_ms s = ival \<and>
     (\<exists>sl\<in>set (slaves s). slave_id sl = i \<and> is_online sl \<and> last_ping sl = t)"

definition ping_and_check :: "int \<Rightarrow> repl \<Rightarrow> repl" where
  "ping_and_check now s = checkSlaveHealth now (pingSlaves_pass now now s)"

fun close_times :: "int \<Rightarrow> int \<Rightarrow> int list \<Rightarrow> bool" where
  "close_times d t [] = True"
| "close_times d t (u # us) \<longleftrightarrow> u - t \<le> d \<and> close_times d u us"

lemma ping_keeps_online:
  assumes "shows_online i t ival s" "now - t \<le> ms (ival * 3)" "0 \<le> ival"
  shows "shows_online i now ival (ping_and_check now s)"
proof -
  from assms(1) obtain sl where sl: "sl \<in> set (slaves s)" "slave_id sl = i" "is_online sl" "last_ping sl = t"
    and ival: "ping_interval_ms s = ival" by (auto simp: shows_online_def)
  let ?s1 = "pingSlaves_pass now now s" and ?sl = "sl\<lparr>last_ping := now\<rparr>"
  have "?sl = ping_one now sl" using sl(3) by (simp add: ping_one_def)
  then have "?sl \<in> set (slaves ?s1)"
    using sl assms(2) ival by (simp add: pingSlaves_pass_def Let_def cleanupDeadSlaves_def)
  moreover have "0 \<le> ms (ival * 2)" using assms(3) by (simp add: ms_def)
  moreover have "ping_interval_ms ?s1 = ival"
    by (simp add: pingSlaves_pass_def Let_def cleanupDeadSlaves_def ival)
  ultimately show ?thesis
    using sl by (auto simp: shows_online_def ping_and_check_def checkSlaveHealth_def intro!: bexI[of _ ?sl])
qed

text \<open>
  A dead slave is never noticed.  The ping loop answers itself: as long as its passes are not
  more than three intervals apart, a slave that is listed as online stays online with a fresh
  time of its last ping, although nothing is received from it.
\<close>
theorem dead_slave_never_noticed:
  assumes "shows_online i t ival s" and "0 \<le> ival" and "close_times (ms (ival * 3)) t ts"
  shows "shows_online i (last (t # ts)) ival (fold ping_and_check ts s)"
  using assms
proof (induction ts arbitrary: t s)
  case (Cons u us)
  then show ?case using ping_keeps_online[OF Cons.prems(1), of u] by auto
qed simp

definition one_slave :: repl where
  "one_slave = (init_repl '''' 0 ReplicationManager_init)
     \<lparr>slaves := [(new_slave ''10.0.0.2:5000'' 0)\<lparr>is_online := True, last_ping := 100\<rparr>]\<rparr>"

theorem dead_slave_never_noticed_witness:
  "shows_online ''10.0.0.2:5000:0'' (100 + ms 2000) 1000
     (fold ping_and_check [100 + ms 1000, 100 + ms 2000] one_slave)"
proof -
  have "slave_id (new_slave ''10.0.0.2:5000'' 0) = ''10.0.0.2:5000:0''"
    by (simp add: new_slave_def int_to_string_def nat_to_string.simps digit_char_def)
  then have "shows_online ''10.0.0.2:5000:0'' 100 1000 one_slave"
    by (simp add: one_slave_def shows_online_def init_repl_def setRole_def ReplicationManager_init_def)
  from dead_slave_never_noticed[OF this, of "[100 + ms 1000, 100 + ms 2000]"] show ?thesis
    by (simp add: ms_def)
qed

subsection \<open>Messages of a slave\<close>

lemma no_match_key: "slave_key x = slave_key y \<Longrightarrow> slave_matches i x = slave_matches i y"
  by (simp add: slave_key_def slave_matches_def)

lemma no_match_new: "\<not> slave_matches h (new_slave h p)"
  by (simp add: new_slave_def slave_matches_def)

lemma set_update_first: "x \<in> set (update_first P (\<lambda>_. y) xs) \<Longrightarrow> x = y \<or> x \<in> set xs"
  by (induction xs) (auto split: if_splits)

lemma connection_no_match:
  assumes "\<forall>sl\<in>set (slaves s). \<not> slave_matches (cl_address c) sl" "cl_valid c"
  shows "\<forall>sl\<in>set (slaves (handleSlaveConnection now c s)). \<not> slave_matches (cl_address c) sl"
proof (cases "cl_receive c = ''''")
  case False
  let ?f = "find (\<lambda>sl. slave_host sl = cl_address c) (slaves s)"
  let ?sl0 = "case ?f of None \<Rightarrow> new_slave (cl_address c) 0 | Some sl \<Rightarrow> sl"
  obtain sl s1 where g: "greet_slave now c ?sl0 s = (sl, s1)" by fastforce
  have "\<not> slave_matches (cl_address c) ?sl0"
    using assms(1) no_match_new by (auto simp: find_Some_iff split: option.split)
  then have new: "\<not> slave_matches (cl_address c) sl"
    using no_match_key[OF greet_slave_inv(1)[OF g]] by simp
  have "slaves (handleSlaveConnection now c s) = (case ?f of None \<Rightarrow> slaves s @ [sl]
      | Some _ \<Rightarrow> update_first (\<lambda>sl. slave_host sl = cl_address c) (\<lambda>_. sl) (slaves s))"
    using False assms(2) g greet_slave_inv(2)[OF g]
    by (cases ?f) (simp_all add: handleSlaveConnection_def Let_def)
  then have "\<forall>x\<in>set (slaves (handleSlaveConnection now c s)). x = sl \<or> x \<in> set (slaves s)"
    using set_update_first by (cases ?f) fastforce+
  then show ?thesis using new assms(1) by auto
qed (use assms in \<open>simp add: handleSlaveConnection_def\<close>)

lemma message_kinds:
  "find_str ''SLAVE_CONNECT'' ''SLAVE_CONNECT'' = Some 0"
  "find_str ''PING'' ''PING'' = Some 0" "find_str ''SLAVE_CONNECT'' ''PING'' \<noteq> Some 0"
  "find_str ''COMMAND_ACK'' (''COMMAND_ACK:'' @ x) = Some 0"
  "find_str ''SLAVE_CONNECT'' (''COMMAND_ACK:'' @ x) \<noteq> Some 0"
  "find_str ''PING'' (''COMMAND_ACK:'' @ x) \<noteq> Some 0"
  "find_str ''SYNC_REQUEST'' (''COMMAND_ACK:'' @ x) \<noteq> Some 0"
  "find_char (CHR '':'') (''COMMAND_ACK:'' @ x) = Some 11"
  "drop (11 + 1) (''COMMAND_ACK:'' @ x) = x"
  unfolding find_str_0 by (simp_all add: starts_with_def)

text \<open>
  The messages of a connected slave are not attributed to it.  A slave is registered under its
  address followed by \<^verbatim>\<open>:0\<close>, and later messages are looked up by the address alone: after a
  connection, PING and COMMAND_ACK from the same client are answered and change nothing.
\<close>
theorem slave_messages_do_not_match:
  assumes "\<forall>sl\<in>set (slaves s). \<not> slave_matches (cl_address c) sl" and "cl_valid c"
    and "int64_min \<le> off" and "off \<le> int64_max"
    and "s1 = snd (handleReplicationMessage now ''SLAVE_CONNECT'' c s)"
  shows "handleReplicationMessage now2 ''PING'' c s1 = (''PONG'', s1) \<and>
    handleReplicationMessage now3 (''COMMAND_ACK:'' @ int_to_string off) c s1 = (''OK'', s1)"
proof
  have "s1 = handleSlaveConnection now c s"
    using assms(2,5) message_kinds(1) by (simp add: handleReplicationMessage_def Let_def del: find_str.simps)
  then have none: "\<forall>sl\<in>set (slaves s1). \<not> slave_matches (cl_address c) sl"
    using connection_no_match[OF assms(1,2)] by simp
  show "handleReplicationMessage now2 ''PING'' c s1 = (''PONG'', s1)"
    using assms(2) message_kinds(2,3) update_first_none[OF none]
    by (simp add: handleReplicationMessage_def updateSlavePing_def del: find_str.simps)
  show "handleReplicationMessage now3 (''COMMAND_ACK:'' @ int_to_string off) c s1 = (''OK'', s1)"
    unfolding handleReplicationMessage_def message_kinds(8) option.case message_kinds(9)
    using assms(2-4) message_kinds(4-7) update_first_none[OF none]
    by (simp add: updateSlaveOffset_def del: find_str.simps append_Cons append.simps)
qed

definition some_client :: repl_client where
  "some_client = \<lparr>cl_address = ''10.0.0.2:5000'', cl_valid = True, cl_receive = ''hello'', cl_send_ok = True\<rparr>"

theorem slave_messages_do_not_match_witness:
  "\<exists>s1. s1 = snd (handleReplicationMessage 1 ''SLAVE_CONNECT'' some_client
       (init_repl '''' 0 ReplicationManager_init)) \<and>
     handleReplicationMessage 2 ''PING'' some_client s1 = (''PONG'', s1)"
proof -
  have "\<forall>sl\<in>set (slaves (init_repl '''' 0 ReplicationManager_init)). \<not> slave_matches (cl_address some_client) sl"
    by (simp add: init_repl_def setRole_def ReplicationManager_init_def)
  moreover have "cl_valid some_client" "int64_min \<le> 0" "0 \<le> int64_max"
    by (simp_all add: some_client_def int_limits)
  ultimately have "handleReplicationMessage 2 ''PING'' some_client
      (snd (handleReplicationMessage 1 ''SLAVE_CONNECT'' some_client (init_repl '''' 0 ReplicationManager_init))) =
    (''PONG'', snd (handleReplicationMessage 1 ''SLAVE_CONNECT'' some_client (init_repl '''' 0 ReplicationManager_init)))"
    by (rule slave_messages_do_not_match[OF _ _ _ _ refl, THEN conjunct1])
  then show ?thesis by (intro exI conjI) (rule refl)
qed

text \<open>
  Whatever the master answers to a synchronisation request, the slave cannot read it.  Both
  forms of the reply of \<^verbatim>\<open>handleSyncRequest\<close> bring the slave that reads it to ERROR with nothing
  applied: the count is looked for behind the first colon, where the reply has the word START.
\<close>
theorem sync_reply_unreadable:
  "sync_with (fst (handleSyncRequest c off s)) t = updateState REPL_ERROR t"
proof -
  have bad: "stoi (''START:'' @ x) = Throw (Std_exception ''stoi'')" for x
    by (simp add: stoi_def strtol_def Let_def isspace_c_def isdigit_c_def)
  have colon: "find_char (CHR '':'') (''SYNC:START:'' @ x) = Some 4"
    "drop (4 + 1) (''SYNC:START:'' @ x) = ''START:'' @ x"
    "(find_str ''SYNC:START'' (''SYNC:START:'' @ x) = Some 0) = True"
    "(find_str ''SYNC:START'' ''SYNC:OK:0'' = Some 0) = False" for x
    unfolding find_str_0 by (simp_all add: starts_with_def)
  have start: "sync_with (''SYNC:START:'' @ x) t = updateState REPL_ERROR t" for x
    by (simp only: sync_with_def colon bad option.case outcome.case if_True)
  have ok: "sync_with ''SYNC:OK:0'' t = updateState REPL_ERROR t"
    by (simp only: sync_with_def colon if_False)
  show ?thesis
  proof (cases "wrap64 (roffset s - off) \<le> 0")
    case True
    then show ?thesis using ok by (simp add: handleSyncRequest_def)
  next
    case False
    then have "fst (handleSyncRequest c off s) = ''SYNC:START:'' @ int_to_string (wrap64 (roffset s - off))"
      by (simp add: handleSyncRequest_def Let_def)
    then show ?thesis using start by metis
  qed
qed

text \<open>
  A request from the least offset makes the difference wrap: the slave that is furthest behind is
  told that there is nothing to synchronise.
\<close>
theorem sync_request_wraps:
  assumes "0 \<le> roffset s" "roffset s \<le> int64_max"
  shows "handleSyncRequest c int64_min s = (''SYNC:OK:0'', s)"
proof -
  have "wrap64 (roffset s - int64_min) = roffset s - 2 ^ 63"
    using assms by (simp add: wrap64_def int_limits)
  then show ?thesis using assms by (simp add: handleSyncRequest_def int_limits)
qed

subsection \<open>The slave never comes online\<close>

lemma connectToMaster_Ok: "connectToMaster s = updateState CONNECTED s"
proof -
  have "(find_str ''MASTER:OK'' (''MASTER:OK:'' @ x) = Some 0) = True" for x
    unfolding find_str_0 by (simp add: starts_with_def)
  then show ?thesis by (simp only: connectToMaster_def connect_with_def if_True)
qed

lemma syncWithMaster_fails: "syncWithMaster s = updateState REPL_ERROR s"
proof -
  have "stoi ''START:0'' = Throw (Std_exception ''stoi'')"
    by (simp add: stoi_def strtol_def Let_def isspace_c_def isdigit_c_def)
  moreover have "find_char (CHR '':'') ''SYNC:START:0'' = Some 4" "drop (4 + 1) ''SYNC:START:0'' = ''START:0''"
    "(find_str ''SYNC:START'' ''SYNC:START:0'' = Some 0) = True"
    unfolding find_str_0 by (simp_all add: starts_with_def)
  ultimately show ?thesis
    by (simp only: syncWithMaster_def sync_with_def option.case outcome.case if_True)
qed

lemma slave_pass:
  "slaveLoop_pass s =
    (if rstate s = CONNECTING \<or> rstate s = DISCONNECTED then updateState CONNECTED s
     else if rstate s = CONNECTED then updateState REPL_ERROR s else s)"
  by (simp add: slaveLoop_pass_def connectToMaster_Ok syncWithMaster_fails handleMasterCommands_def
      master_commands_with_def)

definition slave_inv :: "repl \<Rightarrow> bool" where
  "slave_inv s \<longleftrightarrow> role s = SLAVE \<and> applied s = [] \<and> rstate s \<noteq> ONLINE \<and> \<not> master_thread s \<and> \<not> ping_thread s"

lemma client_send_slave_inv [simp]: "slave_inv (client_send c m s) = slave_inv s"
  by (simp add: slave_inv_def client_send_def)

lemma slave_inv_slaves [simp]: "slave_inv (s\<lparr>slaves := x\<rparr>) = slave_inv s"
  by (simp add: slave_inv_def)

lemma slave_inv_message: "slave_inv s \<Longrightarrow> slave_inv (snd (handleReplicationMessage now m c s))"
proof -
  assume inv: "slave_inv s"
  have "slave_inv (handleSlaveConnection now c s)"
    using inv by (auto simp: handleSlaveConnection_def greet_slave_def sendSyncCommands_def Let_def
        split: option.split prod.splits if_splits)
  then show ?thesis
    using inv by (auto simp: handleReplicationMessage_def Let_def handleSyncRequest_def
        updateSlavePing_def updateSlaveOffset_def split: option.split outcome.split)
qed

lemma slave_inv_step: "repl_step s t \<Longrightarrow> slave_inv s \<Longrightarrow> slave_inv t"
proof (induction rule: repl_step.induct)
  case (st_message s now m c)
  then show ?case by (rule slave_inv_message)
qed (auto simp: slave_inv_def replicateCommand_def addSlave_def removeSlave_def isMaster_def isSlave_def
    slave_pass start_state_slave stopReplication_def updateState_def Let_def setCommandHandler_def)

text \<open>
  C36. A slave never replicates.  A process initialised with the address of a master is never
  ONLINE and never hands a command to its handler, whatever happens to it; and two passes of
  its loop after a start bring it to ERROR, which no later pass leaves.
\<close>
theorem slave_never_replicates:
  assumes "repl_reachable h p s" and "h \<noteq> ''''"
  shows "applied s = [] \<and> rstate s \<noteq> ONLINE \<and>
    (\<not> running s \<longrightarrow> rstate ((slaveLoop_pass ^^ (n + 2)) (start_state env s)) = REPL_ERROR)"
proof -
  have inv: "slave_inv s"
    using assms(1)
  proof (induction rule: repl_reachable.induct)
    case reach_init
    show ?case using assms(2)
      by (simp add: slave_inv_def init_repl_def setMasterAddress_def setRole_def ReplicationManager_init_def)
  qed (rule slave_inv_step)
  have stay: "(slaveLoop_pass ^^ k) t = t" if "rstate t = REPL_ERROR" for k t
    using that by (induction k) (simp_all add: slave_pass)
  have two: "rstate (slaveLoop_pass (slaveLoop_pass t)) = REPL_ERROR" if "rstate t = CONNECTING" for t
    using that by (simp add: slave_pass updateState_def)
  have "rstate ((slaveLoop_pass ^^ (n + 2)) t) = REPL_ERROR" if "rstate t = CONNECTING" for t
  proof -
    have "(slaveLoop_pass ^^ (n + 2)) t = (slaveLoop_pass ^^ n) (slaveLoop_pass (slaveLoop_pass t))"
      by (simp only: funpow_add comp_def) (simp add: numeral_2_eq_2)
    then show ?thesis using two[OF that] stay[OF two[OF that]] by simp
  qed
  moreover have "rstate (start_state env s) = CONNECTING" if "\<not> running s"
    using that inv by (simp add: start_state_slave slave_inv_def isMaster_def isSlave_def updateState_def Let_def)
  ultimately show ?thesis using inv by (simp add: slave_inv_def)
qed

theorem slave_never_replicates_witness:
  "\<forall>env. rstate ((slaveLoop_pass ^^ 3) (start_state env
     (init_repl ''10.0.0.1'' 6379 ReplicationManager_init))) = REPL_ERROR"
  using slave_never_replicates[OF reach_init[of "''10.0.0.1''" 6379], of 1]
  by (simp add: init_repl_def setMasterAddress_def setRole_def ReplicationManager_init_def numeral_3_eq_3)

text \<open>
  Wire format of a replicated command.  Decoding the encoding of a command gives the command,
  also when bytes of a next one follow.
\<close>
theorem replication_codec_roundtrip:
  assumes "int (length c) \<le> int_max"
  shows "deserializeReplicationCommand (serializeReplicationCommand c @ rest) = Ok c"
proof -
  have "stoi (nat_to_string (length c)) = Ok (int (length c))"
    using strtol_nat_to_string[of "[]" "length c"] assms by (simp add: stoi_def int_limits)
  then show ?thesis
    using find_char_append[OF nat_to_string_no_colon[of "length c"], of "c @ rest"]
    by (simp add: deserializeReplicationCommand_def serializeReplicationCommand_def Let_def)
qed

theorem replication_codec_roundtrip_witness:
  "deserializeReplicationCommand (serializeReplicationCommand ''SET 1 a:b'' @ ''9:'') = Ok ''SET 1 a:b''"
  by (rule replication_codec_roundtrip) (simp add: int_limits)

text \<open>
  A failed start looks like success.  When the replication server of a master cannot be set
  up, the first call returns false, but \<^verbatim>\<open>running_\<close> stays set: every later call returns true
  without having started a server or a thread.
\<close>
theorem failed_start_sticks:
  assumes "isMaster s" and "\<not> running s"
    and "\<not> (socket_ok env \<and> setsockopt_ok env \<and> bind_ok env \<and> listen_ok env)"
  shows "\<exists>e s1. startReplication env s = Throw (e, s1) \<and>
    startReplication env' s1 = Ok (True, s1) \<and> server_up s1 = server_up s \<and>
    master_thread s1 = master_thread s \<and> ping_thread s1 = ping_thread s"
  using assms by (auto simp: startReplication_def isMaster_def Let_def tcp_init_def)

theorem failed_start_sticks_witness:
  "\<exists>e s1. startReplication \<lparr>socket_ok = True, setsockopt_ok = True, bind_ok = False, listen_ok = True, joins_end = True\<rparr>
      (init_repl '''' 0 ReplicationManager_init) = Throw (e, s1) \<and>
    startReplication \<lparr>socket_ok = True, setsockopt_ok = True, bind_ok = True, listen_ok = True, joins_end = True\<rparr> s1 = Ok (True, s1)"
  using failed_start_sticks[of "init_repl '''' 0 ReplicationManager_init"
      "\<lparr>socket_ok = True, setsockopt_ok = True, bind_ok = False, listen_ok = True, joins_end = True\<rparr>"
      "\<lparr>socket_ok = True, setsockopt_ok = True, bind_ok = True, listen_ok = True, joins_end = True\<rparr>"]
  by (auto simp: isMaster_def init_repl_def setRole_def ReplicationManager_init_def)

end
