(* ===== verification/SkipListProps.thy ===== *)
theory SkipListProps
  imports SkipListSpec
begin

section \<open>Properties of the skip list\<close>

lemma rand_fair_const [simp]: "rand_fair (\<lambda>_. 0)"
  by (simp add: rand_fair_def rand_ends_def)

lemma store_ok_init:
  assumes "0 \<le> lvl" "rand_fair rnd"
  obtains s where "SkipList_init lvl rp = Ok s" "store_ok rnd s" "contents_of s = Map.empty"
    "max_level s = lvl" "node_count s = 0"
  using init_Ok[OF assms(1), of rp] assms(2) by (auto simp: store_ok_def contents_of_def)

text \<open>
  C3. Refinement.  From the constructor with a level that is not negative, every sequence of
  insertions and deletions runs to its end without a fault; the list then holds exactly the map
  the sequence describes (the first value put under a key stays until the key is removed), its
  keys ascend on level 0, and a search answers whether the map has the key.
\<close>
theorem skiplist_refines_map:
  assumes "0 \<le> lvl" and "rand_fair rnd"
  shows "\<exists>s0 s. SkipList_init lvl rp = Ok s0 \<and>
    run_ops (insert_element rnd) delete_element ops s0 = Ok s \<and>
    contents_of s = map_ops ops Map.empty \<and>
    sorted_wrt (<) (map fst (items s)) \<and>
    (\<forall>k. search_element k s = Ok (map_ops ops Map.empty k \<noteq> None))"
proof -
  from store_ok_init[OF assms] obtain s0 where
    s0: "SkipList_init lvl rp = Ok s0" "store_ok rnd s0" "contents_of s0 = Map.empty" .
  from sl.run_ops_total[OF s0(2), of ops] obtain s where
    s: "run_ops (insert_element rnd) delete_element ops s0 = Ok s" "store_ok rnd s"
      "contents_of s = map_ops ops Map.empty" using s0(3) by auto
  with s0 sl.srch_law[OF s(2)] wf_sorted[of s] show ?thesis by (auto simp: store_ok_def)
qed

theorem skiplist_refines_map_witness:
  "\<exists>s0 s. SkipList_init 18 0 = Ok s0 \<and>
    run_ops (insert_element (\<lambda>_. 0)) delete_element
      [Put 2 ''b'', Put 1 ''a'', Remove 2, Put 1 ''z''] s0 = Ok s \<and>
    contents_of s = [1 \<mapsto> ''a'']"
  using skiplist_refines_map[of 18 "\<lambda>_. 0" 0 "[Put 2 ''b'', Put 1 ''a'', Remove 2, Put 1 ''z'']"]
  by (auto simp: map_ops_def)

text \<open>
  C5. insert_element.  On a well-formed list, and when rand() gives an even number sooner or
  later, the call returns.  A present key is refused with 1 and nothing changes; an absent key
  is put at its place in the order with 0, and the level of the list does not grow.
\<close>
theorem insert_element_correct:
  assumes "wf_skiplist s" and "rand_ends rnd (rand_pos s)"
  shows "if key \<in> fst ` set (items s) then insert_element rnd key val s = Ok (1, s)
    else \<exists>s'. insert_element rnd key val s = Ok (0, s') \<and> wf_skiplist s' \<and>
      items s' = ins_sorted key val (items s) \<and> max_level s' \<le> max_level s"
  using insert_present[OF assms(1), of key rnd val] insert_absent[OF assms, of key val] by auto

theorem insert_element_correct_witness:
  "\<exists>s s'. SkipList_init 4 0 = Ok s \<and> insert_element (\<lambda>_. 0) 7 ''x'' s = Ok (0, s') \<and>
    items s' = [(7, ''x'')]"
proof -
  obtain s where s: "SkipList_init 4 0 = Ok s" "wf_skiplist s" "items s = []"
    using init_Ok[of 4 0] by auto
  moreover have "rand_ends (\<lambda>_. 0) (rand_pos s)" by (simp add: rand_ends_def)
  ultimately show ?thesis
    using insert_element_correct[of s "\<lambda>_. 0" 7 "''x''"] by (auto simp: ins_sorted_def)
qed

text \<open>
  C8. delete_element.  On a well-formed list the call returns.  An absent key changes nothing; a
  present key is taken out of every level, its node is freed, and the remaining pairs keep
  their order.
\<close>
theorem delete_element_correct:
  assumes "wf_skiplist s"
  shows "\<exists>s'. delete_element key s = Ok s' \<and> wf_skiplist s' \<and>
    items s' = del_sorted key (items s) \<and> max_level s' \<le> max_level s \<and>
    (key \<notin> fst ` set (items s) \<longrightarrow> s' = s)"
proof (cases "key \<in> fst ` set (items s)")
  case True
  with delete_present[OF assms True] show ?thesis by auto
next
  case False
  then have "del_sorted key (items s) = items s" by (force simp: del_sorted_def filter_id_conv)
  with delete_absent[OF assms False] assms show ?thesis by auto
qed

theorem delete_element_correct_witness:
  "\<exists>s s'. SkipList_init 4 0 = Ok s \<and> delete_element 7 s = Ok s' \<and> s' = s"
proof -
  obtain s where s: "SkipList_init 4 0 = Ok s" "wf_skiplist s" "items s = []"
    using init_Ok[of 4 0] by auto
  with delete_element_correct[OF s(2), of 7] show ?thesis by auto
qed

text \<open>An insertion that creates a node leaves the list at the level drawn for the node.\<close>

lemma insert_sets_level:
  assumes "insert_element rnd key val s = Ok (0, s')"
  shows "\<exists>s1. get_random_level rnd s = Ok (max_level s', s1)"
proof -
  obtain update where "insert_new rnd key val update s = Ok s'"
    using assms by (auto simp: insert_element_def obind_eq_Ok split: if_splits option.splits)
  then show ?thesis by (auto simp: insert_new_def obind_eq_Ok split: if_splits)
qed

text \<open>
  C21. Every level is the whole list.  After any sequence of insertions and deletions on a new list,
  following \<^verbatim>\<open>forward[i]\<close> from the head meets all the pairs of level 0 on every level up to
  \<^verbatim>\<open>max_level_\<close>: no level skips a node.  The cause is in \<^verbatim>\<open>insert_element\<close>: an insertion that creates a
  node sets the level of the list to the level drawn for that node, so it is lowered.
\<close>
theorem levels_skip_nothing:
  assumes "0 \<le> lvl" and "rand_fair rnd"
  shows "\<exists>s0 s. SkipList_init lvl rp = Ok s0 \<and>
    run_ops (insert_element rnd) delete_element ops s0 = Ok s \<and> contents_of s = map_ops ops Map.empty \<and>
    (\<forall>i. int i \<le> max_level s \<longrightarrow> level_items i s = Ok (items s)) \<and>
    (\<forall>key val s'. insert_element rnd key val s = Ok (0, s') \<longrightarrow>
      (\<exists>s1. get_random_level rnd s = Ok (max_level s', s1)))"
proof -
  from store_ok_init[OF assms] obtain s0 where
    s0: "SkipList_init lvl rp = Ok s0" "store_ok rnd s0" "contents_of s0 = Map.empty" .
  from sl.run_ops_total[OF s0(2), of ops] obtain s where
    s: "run_ops (insert_element rnd) delete_element ops s0 = Ok s" "store_ok rnd s"
      "contents_of s = map_ops ops Map.empty" using s0(3) by auto
  obtain xs where inv: "nodes_inv s xs" using s(2) by (auto simp: store_ok_def wf_skiplist_def)
  have "level_items i s = Ok (items s)" if "int i \<le> max_level s" for i
  proof -
    have "i \<le> nat (max_level s)" using that by linarith
    then show ?thesis using level_items_inv[OF inv] items_inv[OF inv] by simp
  qed
  with s0(1) s(1,3) insert_sets_level show ?thesis by blast
qed

theorem levels_skip_nothing_witness:
  "\<exists>s0 s. SkipList_init 4 0 = Ok s0 \<and>
    run_ops (insert_element (\<lambda>i. if i < 2 then 1 else 0)) delete_element [Put 2 ''b'', Put 1 ''a''] s0 = Ok s \<and>
    (\<forall>i. int i \<le> max_level s \<longrightarrow> level_items i s = Ok (items s))"
proof -
  have "rand_fair (\<lambda>i. if i < 2 then 1 else 0)"
    by (auto simp: rand_fair_def rand_ends_def intro!: exI[of _ 2] exI[of _ "_ + 2"])
  from levels_skip_nothing[OF _ this, of 4 0 "[Put 2 ''b'', Put 1 ''a'']"] show ?thesis by auto
qed

text \<open>
  C38. get_random_level returns exactly when rand() gives an even number sooner or later, and the
  level is then never above the level of the list, so the branch of \<^verbatim>\<open>insert_element\<close> that
  raises the level (and would write past the end of \<^verbatim>\<open>update\<close>) is dead.
\<close>
theorem random_level_terminates:
  "returns (get_random_level rnd s) = rand_ends rnd (rand_pos s) \<and>
   (\<forall>l s'. get_random_level rnd s = Ok (l, s') \<longrightarrow> l \<le> max_level s' \<and> max_level s' = max_level s)"
  using coin_flips_None_iff[of rnd "rand_pos s" 1]
  by (cases "coin_flips rnd (rand_pos s) 1") (auto simp: get_random_level_def)

theorem random_level_terminates_witness:
  "\<exists>s. SkipList_init 4 0 = Ok s \<and>
    (\<forall>l s'. get_random_level (\<lambda>_. 0) s = Ok (l, s') \<longrightarrow> l \<le> 4) \<and>
    returns (get_random_level (\<lambda>_. 0) s)"
proof -
  obtain s where s: "SkipList_init 4 0 = Ok s" "max_level s = 4"
    using init_Ok[of 4 0] by auto
  have "rand_ends (\<lambda>_. 0) (rand_pos s)" by (simp add: rand_ends_def)
  with random_level_terminates[of "\<lambda>_. 0" s] s show ?thesis by fastforce
qed

subsection \<open>The level after the list was emptied\<close>

lemma shrink_level_None:
  "(\<And>j. j \<le> m \<Longrightarrow> fwd h j a = Some None) \<Longrightarrow> shrink_level h a m = Ok 0"
  by (induction m) simp_all

lemma delete_last_level:
  assumes "nodes_inv s [a]" "key_at (mem s) a = key" "delete_element key s = Ok s'"
  shows "max_level s' = 0"
proof -
  let ?m = "nat (max_level s + 1)"
  have lvl: "0 \<le> max_level s" "head s \<noteq> a" using assms(1) by (auto simp: nodes_inv_def)
  have hi: "from_key (mem s) key [a] = [a]" and lo: "before_key (mem s) key [a] = []"
    using assms(2) by (simp_all add: from_key_def before_key_def)
  have p: "pred_of s key [a] = head s" by (simp add: pred_of_def lo)
  obtain n where n: "deref (mem s) a = Ok n" "get_key n = key"
    using deref_above[OF assms(1), of key] hi assms(2) by auto
  have fw: "fwd (mem s) i (head s) = Some (Some a)" "fwd (mem s) i a = Some None" if "i < ?m" for i
    using nodes_inv_path[OF assms(1), of i] that by auto
  have "\<exists>h'. unlink_levels (mem s) a (replicate ?m (head s)) 0 ?m = Ok h' \<and>
    same_items (mem s) h' \<and>
    (\<forall>x j. fwd h' j x =
      (if 0 \<le> j \<and> j < 0 + ?m \<and> x = head s then fwd (mem s) j a else fwd (mem s) j x))"
    by (rule unlink_levels_Ok[OF lvl(2)]) (use fw in auto)
  then obtain h where h: "unlink_levels (mem s) a (replicate ?m (head s)) 0 ?m = Ok h"
    "\<And>x j. fwd h j x = (if j < ?m \<and> x = head s then fwd (mem s) j a else fwd (mem s) j x)"
    by auto
  have "shrink_level h (head s) (nat (max_level s)) = Ok 0"
    using h(2) fw(2) lvl(1) by (intro shrink_level_None) auto
  with assms(3) n p hi lvl h(1) fwd_pred[OF assms(1), of 0 key] show ?thesis
    by (auto simp: delete_element_def descend_inv[OF assms(1)] first_of_def remove_node_def
        split: if_splits)
qed

lemma run_ops_level:
  assumes "store_ok rnd s" "run_ops (insert_element rnd) delete_element ops s = Ok s'"
  shows "0 \<le> max_level s' \<and> max_level s' \<le> max_level s"
  using assms
proof (induction ops arbitrary: s)
  case Nil
  then show ?case by (auto simp: store_ok_def wf_skiplist_def nodes_inv_def)
next
  case (Cons op ops)
  have wf: "wf_skiplist s" "rand_ends rnd (rand_pos s)"
    using Cons.prems(1) by (auto simp: store_ok_def rand_fair_def)
  show ?case
  proof (cases op)
    case (Put k v)
    with Cons.prems(2) obtain r s1 where s1: "insert_element rnd k v s = Ok (r, s1)"
      "run_ops (insert_element rnd) delete_element ops s1 = Ok s'" by (auto simp: outcome_simps)
    have "store_ok rnd s1" using sl.ins_total[OF Cons.prems(1), of k v] s1(1) by auto
    moreover have "max_level s1 \<le> max_level s"
      using s1(1) insert_present[OF wf(1), of k rnd v] insert_absent[OF wf, of k v]
      by (cases "k \<in> fst ` set (items s)") auto
    ultimately show ?thesis using Cons.IH s1(2) by fastforce
  next
    case (Remove k)
    with Cons.prems(2) obtain s1 where s1: "delete_element k s = Ok s1"
      "run_ops (insert_element rnd) delete_element ops s1 = Ok s'" by (auto simp: outcome_simps)
    have "store_ok rnd s1" using sl.del_law[OF Cons.prems(1), of k] s1(1) by auto
    moreover have "max_level s1 \<le> max_level s"
      using s1(1) delete_absent[OF wf(1), of k] delete_present[OF wf(1), of k]
      by (cases "k \<in> fst ` set (items s)") auto
    ultimately show ?thesis using Cons.IH s1(2) by fastforce
  qed
qed

text \<open>
  The level of a list only falls, and deleting the last node brings it to 0 for good: whatever
  operations follow, the list stays a single linked list.
\<close>
theorem emptied_list_stays_flat:
  assumes "store_ok rnd s" and "items s = [(key, val)]"
    and "run_ops (insert_element rnd) delete_element (Remove key # ops) s = Ok s'"
  shows "max_level s' = 0"
proof -
  from assms(3) obtain s1 where s1: "delete_element key s = Ok s1"
    "run_ops (insert_element rnd) delete_element ops s1 = Ok s'" by (auto simp: outcome_simps)
  obtain xs where inv: "nodes_inv s xs" using assms(1) by (auto simp: store_ok_def wf_skiplist_def)
  with assms(2) obtain a where xs: "xs = [a]" "item_at (mem s) a = (key, val)"
    by (auto simp: items_inv[OF inv])
  then have "max_level s1 = 0" using delete_last_level[OF _ _ s1(1), of a] inv key_at_eq by blast
  moreover have "store_ok rnd s1" using sl.del_law[OF assms(1), of key] s1(1) by auto
  ultimately show ?thesis using run_ops_level[OF _ s1(2)] by fastforce
qed

theorem emptied_list_stays_flat_witness:
  "\<exists>s s1 s'. SkipList_init 4 0 = Ok s \<and> insert_element (\<lambda>_. 0) 7 ''x'' s = Ok (0, s1) \<and>
    run_ops (insert_element (\<lambda>_. 0)) delete_element [Remove 7, Put 1 ''a'', Put 2 ''b''] s1 = Ok s' \<and>
    max_level s' = 0"
proof -
  obtain s where s: "SkipList_init 4 0 = Ok s" "wf_skiplist s" "items s = []"
    using init_Ok[of 4 0] by auto
  have "rand_ends (\<lambda>_. 0) (rand_pos s)" by (simp add: rand_ends_def)
  with s insert_absent[OF s(2), of "\<lambda>_. 0" 7 "''x''"] obtain s1 where
    s1: "insert_element (\<lambda>_. 0) 7 ''x'' s = Ok (0, s1)" "wf_skiplist s1" "items s1 = [(7, ''x'')]"
    by (auto simp: ins_sorted_def)
  then have ok: "store_ok (\<lambda>_. 0) s1" by (simp add: store_ok_def)
  from sl.run_ops_total[OF ok] obtain s' where
    "run_ops (insert_element (\<lambda>_. 0)) delete_element [Remove 7, Put 1 ''a'', Put 2 ''b''] s1 = Ok s'"
    by blast
  with emptied_list_stays_flat[OF ok s1(3)] s(1) s1(1) show ?thesis by blast
qed

subsection \<open>size\<close>

text \<open>The deletions of a sequence that meet their key.\<close>

fun removals :: "kv_op list \<Rightarrow> (int \<rightharpoonup> string) \<Rightarrow> nat" where
  "removals [] m = 0"
| "removals (Put k v # ops) m = removals ops (map_op (Put k v) m)"
| "removals (Remove k # ops) m =
     (if m k = None then 0 else 1) + removals ops (map_op (Remove k) m)"

lemma run_ops_count:
  assumes "store_ok rnd s" "run_ops (insert_element rnd) delete_element ops s = Ok s'"
  shows "node_count s' = node_count s - int (removals ops (contents_of s))"
  using assms
proof (induction ops arbitrary: s)
  case (Cons op ops)
  have wf: "wf_skiplist s" "rand_ends rnd (rand_pos s)"
    using Cons.prems(1) by (auto simp: store_ok_def rand_fair_def)
  show ?case
  proof (cases op)
    case (Put k v)
    with Cons.prems(2) obtain r s1 where s1: "insert_element rnd k v s = Ok (r, s1)"
      "run_ops (insert_element rnd) delete_element ops s1 = Ok s'" by (auto simp: outcome_simps)
    have "store_ok rnd s1" "contents_of s1 = map_op op (contents_of s)"
      using sl.ins_total[OF Cons.prems(1), of k v] s1(1) Put by auto
    moreover have "node_count s1 = node_count s"
      using s1(1) insert_present[OF wf(1), of k rnd v] insert_absent[OF wf, of k v]
      by (cases "k \<in> fst ` set (items s)") auto
    ultimately show ?thesis using Cons.IH[of s1] s1(2) Put by simp
  next
    case (Remove k)
    with Cons.prems(2) obtain s1 where s1: "delete_element k s = Ok s1"
      "run_ops (insert_element rnd) delete_element ops s1 = Ok s'" by (auto simp: outcome_simps)
    have "store_ok rnd s1" "contents_of s1 = map_op op (contents_of s)"
      using sl.del_law[OF Cons.prems(1), of k] s1(1) Remove by auto
    moreover have "node_count s1 = node_count s - (if contents_of s k = None then 0 else 1)"
      using s1(1) delete_absent[OF wf(1), of k] delete_present[OF wf(1), of k]
      by (cases "k \<in> fst ` set (items s)") (auto simp: contents_None)
    ultimately show ?thesis using Cons.IH[of s1] s1(2) Remove by (auto simp: fun_upd_def)
  qed
qed simp

text \<open>
  size() does not count the elements: nothing increments \<^verbatim>\<open>node_count_\<close>, so after any sequence
  of operations on a new list it is minus the number of deletions that met their key.
\<close>
theorem size_counts_removals_only:
  assumes "0 \<le> lvl" and "rand_fair rnd" and "SkipList_init lvl rp = Ok s0"
    and "run_ops (insert_element rnd) delete_element ops s0 = Ok s"
  shows "size_of s = - int (removals ops Map.empty)"
proof -
  from store_ok_init[OF assms(1,2), of rp] assms(3)
  have "store_ok rnd s0" "contents_of s0 = Map.empty" "node_count s0 = 0" by auto
  with run_ops_count[OF _ assms(4)] show ?thesis by (simp add: size_of_def)
qed

theorem size_counts_removals_only_witness:
  "\<exists>s0 s. SkipList_init 18 0 = Ok s0 \<and>
    run_ops (insert_element (\<lambda>_. 0)) delete_element [Put 1 ''a'', Put 2 ''b'', Remove 1] s0 = Ok s \<and>
    size_of s = -1"
proof -
  from store_ok_init[of 18 "\<lambda>_. 0" 0] obtain s0 where
    s0: "SkipList_init 18 0 = Ok s0" "store_ok (\<lambda>_. 0) s0" by auto
  from sl.run_ops_total[OF s0(2)] obtain s where
    "run_ops (insert_element (\<lambda>_. 0)) delete_element [Put 1 ''a'', Put 2 ''b'', Remove 1] s0 = Ok s"
    by blast
  with size_counts_removals_only[OF _ _ s0(1) this] s0(1) show ?thesis by auto
qed

text \<open>
  The destructor of a well-formed list frees every node exactly once, the head included, and
  leaves nothing allocated.
\<close>
theorem destructor_frees_all:
  assumes "wf_skiplist s"
  shows "SkipList_destroy s = Ok Map.empty"
  using assms destroy_inv by (auto simp: wf_skiplist_def)

theorem destructor_frees_all_witness:
  "\<exists>s. SkipList_init 18 0 = Ok s \<and> SkipList_destroy s = Ok Map.empty"
  using init_Ok[of 18 0] destructor_frees_all by auto

end
