(* ===== verification/Utils.thy ===== *)
theory Utils
  imports Logger "HOL-Library.Signed_Division"
begin

section \<open>The helper functions (utils/utils.h, utils/utils.cpp)\<close>

text \<open>
  The static functions of class \<^verbatim>\<open>Utils\<close> that work on strings and whole numbers.  The clock, the
  random device, the environment and \<^verbatim>\<open>/proc/self/status\<close> are arguments.  Left out are the
  functions on \<^verbatim>\<open>double\<close> (statistics and number formatting), those that only call the operating
  system, and the regular expressions for mail addresses and links.
\<close>

subsection \<open>Strings\<close>

definition split :: "string \<Rightarrow> char \<Rightarrow> string list" where
  "split str delimiter = getlines delimiter str"

definition trim_blank :: "char \<Rightarrow> bool" where
  "trim_blank c \<longleftrightarrow> c = CHR '' '' \<or> c = CHR 0x09 \<or> c = CR \<or> c = LF"

definition trim :: "string \<Rightarrow> string" where
  "trim str = trim_with trim_blank str"

definition toLower :: "string \<Rightarrow> string" where
  "toLower str = map tolower_c str"

definition toUpper :: "string \<Rightarrow> string" where
  "toUpper str = map toupper_c str"

definition startsWith :: "string \<Rightarrow> string \<Rightarrow> bool" where
  "startsWith str prefix =
     (if length str < length prefix then False else take (length prefix) str = prefix)"

definition endsWith :: "string \<Rightarrow> string \<Rightarrow> bool" where
  "endsWith str suffix =
     (if length str < length suffix then False
      else drop (length str - length suffix) str = suffix)"

text \<open>
  \<^verbatim>\<open>s.find(sub, pos)\<close>, and the loop of \<^verbatim>\<open>replace\<close> over the pair of \<^verbatim>\<open>result\<close> and \<^verbatim>\<open>pos\<close>; not
  returning is the value None.
\<close>

definition find_from :: "string \<Rightarrow> string \<Rightarrow> nat \<Rightarrow> nat option" where
  "find_from sub s pos =
     (if pos > length s then None else map_option (\<lambda>i. pos + i) (find_str sub (drop pos s)))"

partial_function (option) replace_loop :: "string \<Rightarrow> string \<Rightarrow> string \<Rightarrow> nat \<Rightarrow> string option" where
  "replace_loop fro to result pos =
     (case find_from fro result pos of
        None \<Rightarrow> Some result
      | Some p \<Rightarrow> replace_loop fro to (take p result @ to @ drop (p + length fro) result)
                    (p + length to))"

definition replace :: "string \<Rightarrow> string \<Rightarrow> string \<Rightarrow> string option" where
  "replace str fro to = replace_loop fro to str 0"

subsection \<open>Numbers\<close>

fun isNumber_loop :: "bool \<Rightarrow> bool \<Rightarrow> string \<Rightarrow> bool" where
  "isNumber_loop hasDigit hasDot [] = hasDigit"
| "isNumber_loop hasDigit hasDot (c # cs) =
     (if isdigit_c c then isNumber_loop True hasDot cs
      else if c = CHR ''.'' \<and> \<not> hasDot then isNumber_loop hasDigit True cs
      else False)"

definition isNumber :: "string \<Rightarrow> bool" where
  "isNumber str =
     (if str = [] then False
      else isNumber_loop False False
             (if List.hd str = CHR ''-'' \<or> List.hd str = CHR ''+'' then tl str else str))"

definition utils_stringToInt :: "string \<Rightarrow> int \<Rightarrow> int" where
  "utils_stringToInt str default_value = (case stoi str of Ok v \<Rightarrow> v | _ \<Rightarrow> default_value)"

definition intToString :: "int \<Rightarrow> string" where
  "intToString value = int_to_string value"

subsection \<open>Time and random text\<close>

text \<open>\<^verbatim>\<open>duration_cast\<close> to a coarser unit truncates towards zero.\<close>

definition formatDuration :: "int \<Rightarrow> string" where
  "formatDuration duration =
     (let hours = duration sdiv 3600000;
          minutes = (duration - hours * 3600000) sdiv 60000;
          seconds = (duration - hours * 3600000 - minutes * 60000) sdiv 1000;
          ms = duration - hours * 3600000 - minutes * 60000 - seconds * 1000
      in (if hours > 0 then int_to_string hours @ ''h '' else '''')
         @ (if minutes > 0 \<or> hours > 0 then int_to_string minutes @ ''m '' else '''')
         @ int_to_string seconds @ ''s '' @ int_to_string ms @ ''ms'')"

definition random_chars :: string where
  "random_chars = ''abcdefghijklmnopqrstuvwxyzABCDEFGHIJKLMNOPQRSTUVWXYZ0123456789''"

text \<open>
  \<open>dist\<close> is the sequence of numbers the distribution over 0 to 61 delivers; the result carries how
  much of it is left.
\<close>

fun randomString :: "nat \<Rightarrow> nat list \<Rightarrow> (string \<times> nat list) option" where
  "randomString 0 dist = Some ([], dist)"
| "randomString (Suc n) [] = None"
| "randomString (Suc n) (d # dist) =
     map_option (\<lambda>(s, rest). ((random_chars ! d) # s, rest)) (randomString n dist)"

definition generateUUID :: "nat list \<Rightarrow> (string \<times> nat list) option" where
  "generateUUID d0 =
     Option.bind (randomString 8 d0) (\<lambda>(a, d1).
     Option.bind (randomString 4 d1) (\<lambda>(b, d2).
     Option.bind (randomString 4 d2) (\<lambda>(c, d3).
     Option.bind (randomString 4 d3) (\<lambda>(d, d4).
     map_option (\<lambda>(e, d5). (a @ ''-'' @ b @ ''-'' @ c @ ''-'' @ d @ ''-'' @ e, d5))
       (randomString 12 d4)))))"

subsection \<open>Files, network, process\<close>

definition getFileExtension :: "string \<Rightarrow> string" where
  "getFileExtension filename = path_extension filename"

definition getFileName :: "string \<Rightarrow> string" where
  "getFileName path = path_filename path"

definition getDirectory :: "string \<Rightarrow> string" where
  "getDirectory path = parent_path path"

text \<open>\<^verbatim>\<open>^(?:[0-9]{1,3}\.){n}[0-9]{1,3}$\<close> by recursion on the number of groups.\<close>

fun ip_regex :: "nat \<Rightarrow> string \<Rightarrow> bool" where
  "ip_regex 0 s = (1 \<le> length s \<and> length s \<le> 3 \<and> list_all isdigit_c s)"
| "ip_regex (Suc n) s =
     list_ex (\<lambda>k. k < length s \<and> list_all isdigit_c (take k s) \<and> s ! k = CHR ''.''
                  \<and> ip_regex n (drop (Suc k) s)) [1, 2, 3]"

definition isValidIP :: "string \<Rightarrow> bool" where
  "isValidIP ip =
     (if \<not> ip_regex 3 ip then False
      else list_all (\<lambda>part. let num = utils_stringToInt part 0 in \<not> (num < 0 \<or> num > 255))
             (split ip CHR ''.''))"

definition isValidPort :: "int \<Rightarrow> bool" where
  "isValidPort port \<longleftrightarrow> port \<ge> 1 \<and> port \<le> 65535"

definition getLocalIP :: string where
  "getLocalIP = ''127.0.0.1''"

text \<open>
  \<^verbatim>\<open>getCurrentMemoryUsage\<close> on Linux, over the text of \<^verbatim>\<open>/proc/self/status\<close>.  The product is
  computed in \<^verbatim>\<open>int\<close>: when it overflows the behaviour is undefined, the value None.
\<close>

fun memory_usage :: "string list \<Rightarrow> int option" where
  "memory_usage [] = Some 0"
| "memory_usage (l # ls) =
     (if take 6 l = ''VmRSS:'' then
        (let rest = dropWhile (\<lambda>c. \<not> isdigit_c c) l
         in if rest = [] then memory_usage ls
            else let v = utils_stringToInt rest 0 * 1024
                 in if v > int_max \<or> v < int_min then None else Some v)
      else memory_usage ls)"

definition getCurrentMemoryUsage :: "string \<Rightarrow> int option" where
  "getCurrentMemoryUsage status = memory_usage (getlines LF status)"

subsection \<open>Stand-ins, environment, logging\<close>

definition md5 :: "string \<Rightarrow> string" where
  "md5 input = ''md5_'' @ input"

definition sha1 :: "string \<Rightarrow> string" where
  "sha1 input = ''sha1_'' @ input"

definition base64Encode :: "string \<Rightarrow> string" where
  "base64Encode input = ''base64_'' @ input"

definition base64Decode :: "string \<Rightarrow> string" where
  "base64Decode input = (if startsWith input ''base64_'' then drop 7 input else input)"

definition getProcessName :: string where
  "getProcessName = ''skiplist_server''"

definition getThreadId :: int where
  "getThreadId = 0"

definition getOsName :: string where
  "getOsName = ''Linux''"

definition getOsVersion :: string where
  "getOsVersion = ''1.0''"

definition getEnvironmentVariable :: "(string \<rightharpoonup> string) \<Rightarrow> string \<Rightarrow> string \<Rightarrow> string" where
  "getEnvironmentVariable env nam default_value =
     (case env nam of Some v \<Rightarrow> v | None \<Rightarrow> default_value)"

definition getLogLevelString :: "int \<Rightarrow> string" where
  "getLogLevelString level =
     (if level = 0 then ''DEBUG'' else if level = 1 then ''INFO'' else if level = 2 then ''WARN''
      else if level = 3 then ''ERROR'' else if level = 4 then ''FATAL'' else ''UNKNOWN'')"

definition formatLogMessage :: "string \<Rightarrow> string \<Rightarrow> string \<Rightarrow> string \<Rightarrow> int \<Rightarrow> string" where
  "formatLogMessage now level message fil lin =
     ''['' @ now @ ''] ['' @ level @ ''] ''
     @ (if fil \<noteq> [] then ''['' @ fil @ '':'' @ int_to_string lin @ ''] '' else '''')
     @ message"

text \<open>\<^verbatim>\<open>\+?[1-9]\d{1,14}\<close> and \<^verbatim>\<open>\d{13,19}\<close>.\<close>

definition isValidPhoneNumber :: "string \<Rightarrow> bool" where
  "isValidPhoneNumber phone =
     (let s = (if phone \<noteq> [] \<and> List.hd phone = CHR ''+'' then tl phone else phone)
      in s \<noteq> [] \<and> isdigit_c (List.hd s) \<and> List.hd s \<noteq> CHR ''0''
         \<and> list_all isdigit_c (tl s) \<and> 1 \<le> length (tl s) \<and> length (tl s) \<le> 14)"

definition isValidCreditCard :: "string \<Rightarrow> bool" where
  "isValidCreditCard number = (list_all isdigit_c number \<and> 13 \<le> length number \<and> length number \<le> 19)"

definition getStackTrace :: string where
  "getStackTrace = ''Stack trace not available''"

subsection \<open>Replacing\<close>

text \<open>What \<^verbatim>\<open>replace\<close> is to compute: one scan from the left, over non-overlapping occurrences.\<close>

fun replaced :: "string \<Rightarrow> string \<Rightarrow> string \<Rightarrow> string" where
  "replaced fro to [] = []"
| "replaced fro to (c # cs) =
     (if fro \<noteq> [] \<and> starts_with fro (c # cs)
      then to @ replaced fro to (drop (length fro - 1) cs)
      else c # replaced fro to cs)"

lemma find_str_None:
  "fro \<noteq> [] \<Longrightarrow> find_str fro s = None \<Longrightarrow> replaced fro to s = s"
  by (induction s) (auto split: if_splits)

lemma find_str_split:
  "fro \<noteq> [] \<Longrightarrow> find_str fro s = Some n \<Longrightarrow>
     replaced fro to s = take n s @ to @ replaced fro to (drop (n + length fro) s)"
proof (induction s arbitrary: n)
  case (Cons c cs)
  show ?case
  proof (cases "starts_with fro (c # cs)")
    case True
    with Cons.prems have "n = 0" by simp
    with True Cons.prems show ?thesis by (cases "length fro") auto
  next
    case False
    with Cons.prems obtain m where "n = Suc m" "find_str fro cs = Some m" by auto
    with Cons.IH[of m] Cons.prems False show ?thesis by simp
  qed
qed simp

lemma replace_loop_ends:
  "fro \<noteq> [] \<Longrightarrow> replace_loop fro to (pre @ s) (length pre) = Some (pre @ replaced fro to s)"
proof (induction "length s" arbitrary: s pre rule: less_induct)
  case less
  show ?case
  proof (cases "find_str fro s")
    case None
    then show ?thesis
      using find_str_None[OF less.prems None]
      by (subst replace_loop.simps) (simp add: find_from_def)
  next
    case (Some n)
    from find_str_Some[OF Some] less.prems have n: "n \<le> length s" "s \<noteq> []"
      by (auto simp: starts_with_def)
    then have l: "length (drop (n + length fro) s) < length s" using less.prems by simp
    have "replace_loop fro to (pre @ s) (length pre)
        = replace_loop fro to ((pre @ take n s @ to) @ drop (n + length fro) s)
            (length (pre @ take n s @ to))"
      using Some n by (subst replace_loop.simps) (simp add: find_from_def algebra_simps)
    also have "\<dots> = Some ((pre @ take n s @ to) @ replaced fro to (drop (n + length fro) s))"
      by (rule less.hyps[OF l less.prems])
    finally show ?thesis using find_str_split[OF less.prems Some, of to] by simp
  qed
qed

lemma replace_loop_empty:
  assumes "replace_loop fro to result pos = Some y"
  shows "\<not> (fro = [] \<and> pos \<le> length result)"
proof (rule replace_loop.raw_induct[where
    P = "\<lambda>fro to result pos y. \<not> (fro = [] \<and> pos \<le> length result)", OF _ assms])
  fix f :: "string \<Rightarrow> string \<Rightarrow> string \<Rightarrow> nat \<Rightarrow> string option" and fro to result pos y
  assume IH: "\<And>fro to result pos y. f fro to result pos = Some y \<Longrightarrow> \<not> (fro = [] \<and> pos \<le> length result)"
    and step: "(case find_from fro result pos of None \<Rightarrow> Some result
      | Some p \<Rightarrow> f fro to (take p result @ to @ drop (p + length fro) result) (p + length to)) = Some y"
  show "\<not> (fro = [] \<and> pos \<le> length result)"
  proof
    assume a: "fro = [] \<and> pos \<le> length result"
    then have "find_from fro result pos = Some pos"
      by (simp add: find_from_def find_str_0 starts_with_def)
    with step have "f fro to (take pos result @ to @ drop pos result) (pos + length to) = Some y"
      using a by simp
    from IH[OF this] a show False by auto
  qed
qed

lemma replaced_same: "fro \<noteq> [] \<Longrightarrow> replaced fro fro s = s"
proof (induction "length s" arbitrary: s rule: less_induct)
  case less
  show ?case
  proof (cases s)
    case (Cons c cs)
    show ?thesis
    proof (cases "starts_with fro (c # cs)")
      case True
      then have "fro @ drop (length fro) (c # cs) = c # cs"
        unfolding starts_with_def by (metis append_take_drop_id)
      moreover have "drop (length fro) (c # cs) = drop (length fro - 1) cs"
        using less.prems by (cases fro) auto
      ultimately show ?thesis using less Cons True by simp
    qed (use less Cons in simp)
  qed simp
qed

text \<open>
  \<^verbatim>\<open>replace\<close> returns for every search text but the empty one, and then replaces every
  occurrence met in one scan from the left; replacing a text by itself changes nothing.
\<close>

theorem replace_returns:
  "(replace str fro to \<noteq> None) = (fro \<noteq> [])
   \<and> (\<forall>r. replace str fro to = Some r \<longrightarrow> r = replaced fro to str)
   \<and> (fro \<noteq> [] \<longrightarrow> replace str fro fro = Some str)"
proof -
  have "replace str [] to = None"
    unfolding replace_def using replace_loop_empty[of "[]" to str 0] by (cases "replace_loop [] to str 0") auto
  then show ?thesis
    using replace_loop_ends[of fro _ "[]" str] replaced_same[of fro str]
    by (cases "fro = []") (auto simp: replace_def)
qed

theorem replace_returns_witness:
  "replace ''a.b.c'' ''.'' ''::'' = Some ''a::b::c'' \<and> replace ''abc'' '''' ''x'' = None
   \<and> replace ''abc'' ''b'' ''b'' = Some ''abc''"
proof -
  have a: "replace ''a.b.c'' ''.'' ''::'' = Some (replaced ''.'' ''::'' ''a.b.c'')"
    using replace_returns[of "''a.b.c''" "''.''" "''::''"] by auto
  moreover have "replaced ''.'' ''::'' ''a.b.c'' = ''a::b::c''" by (simp add: starts_with_def)
  ultimately show ?thesis
    using replace_returns[of "''abc''" "''''" "''x''"] replace_returns[of "''abc''" "''b''" "''b''"]
    by auto
qed

subsection \<open>Addresses\<close>

fun dotted :: "string list \<Rightarrow> string" where
  "dotted [] = []"
| "dotted [p] = p"
| "dotted (p # q # ps) = p @ CHR ''.'' # dotted (q # ps)"

definition group :: "string \<Rightarrow> bool" where
  "group p \<longleftrightarrow> 1 \<le> length p \<and> length p \<le> 3 \<and> list_all isdigit_c p"

lemma digit_not_dot: "list_all isdigit_c p \<Longrightarrow> CHR ''.'' \<notin> set p"
  by (auto simp: list_all_iff isdigit_c_def)

lemma nth_split:
  "k < length s \<Longrightarrow> s ! k = c \<Longrightarrow> s = take k s @ c # drop (Suc k) s"
  using id_take_nth_drop by blast

lemma ip_regex_groups:
  "ip_regex n s \<longleftrightarrow> (\<exists>ps. length ps = Suc n \<and> s = dotted ps \<and> list_all group ps)"
proof (induction n arbitrary: s)
  case 0
  show ?case by (auto simp: length_Suc_conv group_def)
next
  case (Suc n)
  show ?case
  proof
    assume "ip_regex (Suc n) s"
    then obtain k where k: "k \<in> {1, 2, 3}" "k < length s" "list_all isdigit_c (take k s)"
      "s ! k = CHR ''.''" "ip_regex n (drop (Suc k) s)"
      by (simp only: ip_regex.simps list_ex_iff) (metis list.set(1,2))
    from k(5) Suc.IH obtain ps where ps: "length ps = Suc n" "drop (Suc k) s = dotted ps"
      "list_all group ps" by blast
    then obtain q qs where "ps = q # qs" by (cases ps) auto
    with nth_split[OF k(2,4)] ps k(1-3)
    have "length (take k s # ps) = Suc (Suc n) \<and> s = dotted (take k s # ps) \<and> list_all group (take k s # ps)"
      by (auto simp: group_def)
    then show "\<exists>ps. length ps = Suc (Suc n) \<and> s = dotted ps \<and> list_all group ps" by blast
  next
    assume "\<exists>ps. length ps = Suc (Suc n) \<and> s = dotted ps \<and> list_all group ps"
    then obtain p q ps where s: "s = p @ CHR ''.'' # dotted (q # ps)" and l: "length (q # ps) = Suc n"
      and g: "group p" "list_all group (q # ps)"
      by (auto simp: length_Suc_conv)
    from l g have "ip_regex n (dotted (q # ps))" using Suc.IH by blast
    moreover have "length p \<in> set [1, 2, 3]" using g(1) by (auto simp: group_def)
    ultimately show "ip_regex (Suc n) s"
      unfolding s ip_regex.simps list_ex_iff
      using g(1) by (intro bexI[of _ "length p"]) (simp_all add: group_def)
  qed
qed

lemma getlines_dotted:
  "list_all group ps \<Longrightarrow> getlines CHR ''.'' (dotted ps) = ps"
proof (induction ps rule: dotted.induct)
  case (2 p)
  have "getlines_from d acc p = (if acc @ p = [] then [] else [acc @ p])" if "d \<notin> set p" for d acc p
    using that by (induction p arbitrary: acc) auto
  with 2 show ?case using digit_not_dot[of p] by (auto simp: getlines_def group_def)
next
  case (3 p q ps)
  then show ?case using digit_not_dot[of p] by (simp add: getlines_line group_def)
qed simp

lemma digits_val_bound: "list_all isdigit_c ds \<Longrightarrow> digits_val ds < 10 ^ length ds"
proof (induction ds rule: rev_induct)
  case Nil
  show ?case by (simp add: digits_val_def)
next
  case (snoc c ds)
  then have "digits_val ds < 10 ^ length ds" "digit_val c \<le> 9"
    by (auto simp: digit_val_def isdigit_c_def)
  then show ?case by (simp add: digits_val_snoc)
qed

lemma stringToInt_group: "group p \<Longrightarrow> utils_stringToInt p v = int (digits_val p)"
proof -
  assume g: "group p"
  then obtain c cs where p: "p = c # cs" by (cases p) (auto simp: group_def)
  with g have c: "isdigit_c c" by (simp add: group_def)
  then have nc: "\<not> isspace_c c" "c \<noteq> CHR ''-''" "c \<noteq> CHR ''+''"
    by (auto simp: isdigit_c_def isspace_c_def)
  have tw: "takeWhile isdigit_c p = p"
    using g by (simp add: group_def list_all_iff takeWhile_eq_all_conv)
  have "length p \<le> 3" "digits_val p < 10 ^ length p"
    using g digits_val_bound[of p] by (auto simp: group_def)
  moreover from this(1) have "(10::nat) ^ length p \<le> 10 ^ 3" by (rule power_increasing) simp
  ultimately have "digits_val p < 1000" by simp
  moreover have "strtol p = Some (int (digits_val p))"
    using tw nc by (simp add: strtol_def Let_def p)
  ultimately show ?thesis by (simp add: utils_stringToInt_def stoi_def int_limits)
qed

text \<open>
  \<^verbatim>\<open>isValidIP\<close> accepts exactly the texts of four groups of one to three digits, separated by dots,
  of value at most 255 each; leading zeros are accepted.
\<close>

theorem isValidIP_iff:
  "isValidIP ip =
     (\<exists>a b c d. ip = dotted [a, b, c, d]
        \<and> (\<forall>p \<in> {a, b, c, d}. 1 \<le> length p \<and> length p \<le> 3 \<and> list_all isdigit_c p
             \<and> digits_val p \<le> 255))"
  (is "?l = ?r")
proof
  assume ?l
  then have "ip_regex 3 ip" by (simp add: isValidIP_def split: if_splits)
  then have "\<exists>ps. length ps = Suc (Suc (Suc (Suc 0))) \<and> ip = dotted ps \<and> list_all group ps"
    unfolding ip_regex_groups by (simp add: eval_nat_numeral)
  then obtain a b c d where ip: "ip = dotted [a, b, c, d]" and g: "list_all group [a, b, c, d]"
    by (auto simp: length_Suc_conv)
  from \<open>?l\<close> have "list_all (\<lambda>p. utils_stringToInt p 0 \<le> 255) [a, b, c, d]"
    using getlines_dotted[OF g] ip
    by (auto simp: isValidIP_def split_def Let_def list_all_iff not_less split: if_splits)
  with g have "\<forall>p \<in> {a, b, c, d}. 1 \<le> length p \<and> length p \<le> 3 \<and> list_all isdigit_c p \<and> digits_val p \<le> 255"
    using stringToInt_group by (auto simp: group_def)
  with ip show ?r by blast
next
  assume ?r
  then obtain a b c d where ip: "ip = dotted [a, b, c, d]"
    and v: "\<forall>p \<in> {a, b, c, d}. group p \<and> digits_val p \<le> 255"
    by (auto simp: group_def)
  then have g: "list_all group [a, b, c, d]" by simp
  have "ip_regex 3 ip"
    unfolding ip_regex_groups ip using g by (intro exI[of _ "[a, b, c, d]"]) simp
  moreover have "split ip CHR ''.'' = [a, b, c, d]"
    using getlines_dotted[OF g] by (simp add: split_def ip)
  ultimately show ?l using v by (auto simp: isValidIP_def stringToInt_group)
qed

theorem isValidIP_iff_witness:
  "isValidIP (dotted [''10'', ''0'', ''007'', ''255''])"
proof -
  have "\<forall>p \<in> {''10'', ''0'', ''007'', ''255''}. 1 \<le> length p \<and> length p \<le> 3 \<and> list_all isdigit_c p
      \<and> digits_val p \<le> 255"
    by (simp add: isdigit_c_def digits_val_def digit_val_def)
  then show ?thesis unfolding isValidIP_iff by blast
qed

text \<open>The stand-in for Base64 is undone by its inverse, but texts are not restored in general.\<close>

lemma base64_roundtrip: "base64Decode (base64Encode s) = s"
  by (simp add: base64Decode_def base64Encode_def startsWith_def)

lemma formatDuration_parts:
  assumes "0 \<le> t"
  shows "formatDuration t =
    (if t div 3600000 > 0 then int_to_string (t div 3600000) @ ''h '' else '''')
    @ (if t mod 3600000 div 60000 > 0 \<or> t div 3600000 > 0
       then int_to_string (t mod 3600000 div 60000) @ ''m '' else '''')
    @ int_to_string (t mod 60000 div 1000) @ ''s '' @ int_to_string (t mod 1000) @ ''ms''"
proof -
  have d: "x sdiv k = x div k" if "0 \<le> x" "0 < k" for x k :: int
    using that by (simp add: signed_divide_int_def sgn_if)
  have h: "t - t div 3600000 * 3600000 = t mod 3600000" by (simp add: minus_div_mult_eq_mod)
  have m: "t mod 3600000 - t mod 3600000 div 60000 * 60000 = t mod 60000"
    by (simp add: minus_div_mult_eq_mod mod_mod_cancel)
  have s: "t mod 60000 - t mod 60000 div 1000 * 1000 = t mod 1000"
    by (simp add: minus_div_mult_eq_mod mod_mod_cancel)
  show ?thesis using assms by (simp add: formatDuration_def Let_def d h m s)
qed

end
