(* ===== verification/SkipListRace.thy ===== *)
theory SkipListRace
  imports SkipListSpec
begin

section \<open>A search that runs while other threads write\<close>

text \<open>
  \<^verbatim>\<open>insert_element\<close> and \<^verbatim>\<open>delete_element\<close> hold \<^verbatim>\<open>mtx\<close>, \<^verbatim>\<open>search_element\<close> does not take it: every
  connection has a thread of its own, so a search reads the list between the writes of others.
  Here the search is a machine that reads memory once per step, in the order the expressions of
  the source read it; a step of another thread is one complete insertion or deletion.
\<close>

subsection \<open>The machine\<close>

datatype search_pc =
    P_test addr nat        \<comment> \<open>reads \<open>current->forward[i]\<close> to compare it with null\<close>
  | P_ptr addr nat         \<comment> \<open>reads \<open>current->forward[i]\<close> to call \<open>get_key\<close> on it\<close>
  | P_key addr nat addr    \<comment> \<open>reads the key through that pointer\<close>
  | P_move addr nat        \<comment> \<open>reads \<open>current->forward[i]\<close> to assign it to current\<close>
  | P_null                 \<comment> \<open>a null pointer is about to be read through\<close>
  | P_last addr            \<comment> \<open>reads \<open>current->forward[0]\<close> behind the loop\<close>
  | P_cmp addr             \<comment> \<open>reads the key to compare it\<close>
  | P_done bool

definition level_down :: "addr \<Rightarrow> nat \<Rightarrow> search_pc" where
  "level_down c i = (case i of 0 \<Rightarrow> P_last c | Suc j \<Rightarrow> P_test c j)"

definition search_start :: "skiplist \<Rightarrow> search_pc" where
  "search_start s = (if max_level s < 0 then P_last (head s) else P_test (head s) (nat (max_level s)))"

fun search_step :: "int \<Rightarrow> heap \<Rightarrow> search_pc \<Rightarrow> (exn, search_pc) outcome" where
  "search_step key h (P_test c i) = obind (get_forward h c i) (\<lambda>q.
     Ok (if q = None then level_down c i else P_ptr c i))"
| "search_step key h (P_ptr c i) = obind (get_forward h c i) (\<lambda>q.
     Ok (case q of None \<Rightarrow> P_null | Some a \<Rightarrow> P_key c i a))"
| "search_step key h (P_key c i a) = obind (deref h a) (\<lambda>n.
     Ok (if get_key n < key then P_move c i else level_down c i))"
| "search_step key h (P_move c i) = obind (get_forward h c i) (\<lambda>q.
     Ok (case q of None \<Rightarrow> P_null | Some a \<Rightarrow> P_test a i))"
| "search_step key h P_null = Fault Bad_pointer"
| "search_step key h (P_last c) = obind (get_forward h c 0) (\<lambda>q.
     Ok (case q of None \<Rightarrow> P_done False | Some a \<Rightarrow> P_cmp a))"
| "search_step key h (P_cmp a) = obind (deref h a) (\<lambda>n. Ok (P_done (get_key n = key)))"
| "search_step key h (P_done b) = Ok (P_done b)"

text \<open>The steps of the search thread, and of the writers, whose operations are in W.\<close>

inductive race :: "(nat \<Rightarrow> nat) \<Rightarrow> kv_op set \<Rightarrow> int \<Rightarrow> search_pc \<times> skiplist \<Rightarrow> search_pc \<times> skiplist \<Rightarrow> bool"
  for rnd W key where
  race_read: "search_step key (mem s) pc = Ok pc' \<Longrightarrow> race rnd W key (pc, s) (pc', s)"
| race_write: "op \<in> W \<Longrightarrow> run_ops (insert_element rnd) delete_element [op] s = Ok s' \<Longrightarrow>
    race rnd W key (pc, s) (pc, s')"

inductive_cases raceE: "race rnd W key (pc, s) t"

subsection \<open>Alone, the machine is search_element\<close>

lemma read_step: "search_step key (mem s) pc = Ok pc' \<Longrightarrow> (race rnd W key)\<^sup>*\<^sup>* (pc', s) t \<Longrightarrow>
    (race rnd W key)\<^sup>*\<^sup>* (pc, s) t"
  by (meson converse_rtranclp_into_rtranclp race_read)

lemma walk_reads:
  "walk fuel (mem s) i key c = Ok c' \<Longrightarrow> (race rnd W key)\<^sup>*\<^sup>* (P_test c i, s) (level_down c' i, s)"
proof (induction fuel arbitrary: c)
  case (Suc fuel)
  then obtain q where q: "get_forward (mem s) c i = Ok q" by (auto simp: obind_eq_Ok)
  show ?case
  proof (cases q)
    case None
    with Suc.prems q show ?thesis by (intro read_step[OF _ rtranclp.rtrancl_refl]) simp
  next
    case (Some a)
    with Suc.prems q obtain n where n: "deref (mem s) a = Ok n" by (auto simp: obind_eq_Ok)
    have key: "(race rnd W key)\<^sup>*\<^sup>* (P_key c i a, s) t \<Longrightarrow> (race rnd W key)\<^sup>*\<^sup>* (P_test c i, s) t" for t
      using q Some by (intro read_step[of _ _ "P_test c i" "P_ptr c i"] read_step[of _ _ "P_ptr c i" "P_key c i a"]) simp_all
    show ?thesis
    proof (cases "get_key n < key")
      case True
      with Suc.prems q Some n have "walk fuel (mem s) i key a = Ok c'" by simp
      from Suc.IH[OF this] have "(race rnd W key)\<^sup>*\<^sup>* (P_key c i a, s) (level_down c' i, s)"
        using q Some n True
        by (intro read_step[of _ _ "P_key c i a" "P_move c i"] read_step[of _ _ "P_move c i" "P_test a i"]) simp_all
      then show ?thesis by (rule key)
    next
      case False
      with Suc.prems q Some n have "c' = c" by simp
      with n False have "(race rnd W key)\<^sup>*\<^sup>* (P_key c i a, s) (level_down c' i, s)"
        by (intro read_step[OF _ rtranclp.rtrancl_refl]) simp
      then show ?thesis by (rule key)
    qed
  qed
qed simp

lemma levels_read:
  "search_levels fuel (mem s) key (Suc i) c = Ok c' \<Longrightarrow>
     (race rnd W key)\<^sup>*\<^sup>* (P_test c i, s) (P_last c', s)"
proof (induction i arbitrary: c)
  case 0
  then have "walk fuel (mem s) 0 key c = Ok c'" by (auto simp: obind_eq_Ok)
  from walk_reads[OF this] show ?case by (simp add: level_down_def)
next
  case (Suc i)
  then obtain d where d: "walk fuel (mem s) (Suc i) key c = Ok d"
    "search_levels fuel (mem s) key (Suc i) d = Ok c'" by (auto simp: obind_eq_Ok)
  have "(race rnd W key)\<^sup>*\<^sup>* (P_test c (Suc i), s) (P_test d i, s)"
    using walk_reads[OF d(1)] by (simp add: level_down_def)
  with Suc.IH[OF d(2)] show ?case by (rule rtranclp_trans[rotated])
qed

lemma search_machine_alone:
  assumes "search_element key s = Ok b"
  shows "(race rnd W key)\<^sup>*\<^sup>* (search_start s, s) (P_done b, s)"
proof -
  from assms obtain c where c:
    "search_levels (walk_fuel s) (mem s) key (nat (max_level s + 1)) (head s) = Ok c"
    by (auto simp: search_element_def obind_eq_Ok)
  have "(race rnd W key)\<^sup>*\<^sup>* (search_start s, s) (P_last c, s)"
  proof (cases "max_level s < 0")
    case True
    with c show ?thesis by (simp add: search_start_def)
  next
    case False
    then have "nat (max_level s + 1) = Suc (nat (max_level s))" by simp
    with levels_read c False show ?thesis by (metis search_start_def)
  qed
  moreover from assms c obtain q where q: "get_forward (mem s) c 0 = Ok q"
    by (auto simp: search_element_def obind_eq_Ok)
  have "(race rnd W key)\<^sup>*\<^sup>* (P_last c, s) (P_done b, s)"
  proof (cases q)
    case None
    with assms c q show ?thesis
      by (intro read_step[OF _ rtranclp.rtrancl_refl]) (simp add: search_element_def)
  next
    case (Some a)
    with assms c q obtain n where "deref (mem s) a = Ok n" "b = (get_key n = key)"
      by (auto simp: search_element_def obind_eq_Ok)
    with q Some show ?thesis
      by (intro read_step[of _ _ "P_last c" "P_cmp a"] read_step[OF _ rtranclp.rtrancl_refl]) simp_all
  qed
  ultimately show ?thesis by (rule rtranclp_trans)
qed

subsection \<open>Insertions beside a search\<close>

text \<open>
  Only insertions run beside the search (\<^verbatim>\<open>inserts_only\<close>).  Up to the level L at which the search
  began, the pointers never dangle (\<^verbatim>\<open>cells_ok\<close>), and the machine stands at cells that exist.
\<close>

definition inserts_only :: "kv_op set \<Rightarrow> bool" where
  "inserts_only W \<longleftrightarrow> (\<forall>op\<in>W. \<exists>k v. op = Put k v)"

definition cells_ok :: "nat \<Rightarrow> skiplist \<Rightarrow> bool" where
  "cells_ok L s \<longleftrightarrow> (\<forall>i x a. i \<le> L \<longrightarrow> fwd (mem s) i x = Some (Some a) \<longrightarrow>
     a \<noteq> head s \<and> fwd (mem s) i a \<noteq> None)"

fun pc_ok :: "int \<Rightarrow> nat \<Rightarrow> skiplist \<Rightarrow> search_pc \<Rightarrow> bool" where
  "pc_ok key L s (P_test c i) \<longleftrightarrow> i \<le> L \<and> fwd (mem s) i c \<noteq> None"
| "pc_ok key L s (P_ptr c i) \<longleftrightarrow> i \<le> L \<and> (\<exists>a. fwd (mem s) i c = Some (Some a))"
| "pc_ok key L s (P_key c i a) \<longleftrightarrow> i \<le> L \<and> (\<exists>b. fwd (mem s) i c = Some (Some b)) \<and>
     fwd (mem s) i a \<noteq> None"
| "pc_ok key L s (P_move c i) \<longleftrightarrow> i \<le> L \<and> (\<exists>a. fwd (mem s) i c = Some (Some a))"
| "pc_ok key L s P_null \<longleftrightarrow> False"
| "pc_ok key L s (P_last c) \<longleftrightarrow> fwd (mem s) 0 c \<noteq> None"
| "pc_ok key L s (P_cmp a) \<longleftrightarrow> a \<noteq> head s \<and> fwd (mem s) 0 a \<noteq> None"
| "pc_ok key L s (P_done b) \<longleftrightarrow> (b \<longrightarrow> key \<in> fst ` set (items s))"

lemma fwd_lower: "fwd h i a \<noteq> None \<Longrightarrow> j \<le> i \<Longrightarrow> fwd h j a \<noteq> None"
  by (auto simp: fwd_def split: option.splits if_splits)

lemma level_down_ok: "i \<le> L \<Longrightarrow> fwd (mem s) i c \<noteq> None \<Longrightarrow> pc_ok key L s (level_down c i)"
  using fwd_lower by (cases i) (fastforce simp: level_down_def)+

lemma deref_fwd_Ok: "fwd h i a \<noteq> None \<Longrightarrow> \<exists>n. deref h a = Ok n \<and> get_key n = key_at h a"
  using deref_fwd by (fastforce simp: get_key_def)

lemma live_key:
  assumes "wf_skiplist s" "fwd (mem s) i a \<noteq> None" "a \<noteq> head s"
  shows "key_at (mem s) a \<in> fst ` set (items s)"
proof -
  obtain xs where inv: "nodes_inv s xs" using assms(1) by (auto simp: wf_skiplist_def)
  have "a \<in> dom (mem s)" using assms(2) fwd_node by fastforce
  with inv assms(3) have "a \<in> set xs" by (simp add: nodes_inv_def)
  then show ?thesis by (simp add: keys_inv[OF inv])
qed

lemma search_step_ok:
  assumes "wf_skiplist s" "cells_ok L s" "pc_ok key L s pc"
  shows "\<exists>pc'. search_step key (mem s) pc = Ok pc' \<and> pc_ok key L s pc'"
  using assms(3)
proof (cases pc)
  case (P_test c i)
  with assms(3) show ?thesis using level_down_ok by (auto split: option.splits)
next
  case (P_ptr c i)
  with assms(2,3) show ?thesis by (auto simp: cells_ok_def)
next
  case (P_key c i a)
  with assms(3) have "fwd (mem s) i a \<noteq> None" by simp
  then obtain n where "deref (mem s) a = Ok n" using deref_fwd_Ok by blast
  with P_key assms(3) show ?thesis using level_down_ok by auto
next
  case (P_move c i)
  with assms(2,3) show ?thesis by (auto simp: cells_ok_def)
next
  case (P_last c)
  with assms(3) obtain q where "fwd (mem s) 0 c = Some q" by auto
  with P_last assms(2) show ?thesis by (auto simp: cells_ok_def split: option.splits)
next
  case (P_cmp a)
  with assms(3) have "fwd (mem s) 0 a \<noteq> None" by simp
  then obtain n where "deref (mem s) a = Ok n" "get_key n = key_at (mem s) a"
    using deref_fwd_Ok by blast
  moreover have "key_at (mem s) a \<in> fst ` set (items s)"
    using P_cmp assms(3) live_key[OF assms(1), of 0 a] by simp
  ultimately show ?thesis using P_cmp by auto
qed auto

text \<open>One insertion keeps both.\<close>

lemma put_links:
  assumes "store_ok rnd s" "insert_element rnd k v s = Ok (r, s')"
  shows "s' = s \<or> next_addr s \<notin> dom (mem s) \<and> next_addr s \<noteq> head s \<and> links_to_new s s'"
proof (cases "k \<in> fst ` set (items s)")
  case True
  with insert_present[of s k rnd v] assms show ?thesis by (simp add: store_ok_def)
next
  case False
  obtain xs where inv: "nodes_inv s xs" using assms(1) by (auto simp: store_ok_def wf_skiplist_def)
  have "k \<notin> key_at (mem s) ` set xs" using False keys_inv[OF inv] by simp
  moreover have "rand_ends rnd (rand_pos s)" using assms(1) by (simp add: store_ok_def rand_fair_def)
  ultimately obtain s1 where
    "insert_new rnd k v (replicate (nat (max_level s + 1)) (pred_of s k xs)) s = Ok s1"
    "links_to_new s s1" using insert_new_inv[OF inv] by blast
  moreover from insert_step[OF inv False this(1)] assms(2) have "s1 = s'" by simp
  moreover have "next_addr s \<notin> dom (mem s)" using inv by (auto simp: nodes_inv_def)
  moreover have "next_addr s \<noteq> head s" using inv by (auto simp: nodes_inv_def)
  ultimately show ?thesis by simp
qed

lemma links_fwd_stays:
  assumes "links_to_new s s'" "next_addr s \<notin> dom (mem s)" "fwd (mem s) i x = Some r"
  shows "fwd (mem s') i x = Some r \<or> fwd (mem s') i x = Some (Some (next_addr s))"
proof -
  have "x \<noteq> next_addr s" using assms(2,3) fwd_node by fastforce
  with assms(1,3) show ?thesis unfolding links_to_new_def by metis
qed

lemma links_cells_ok:
  assumes l: "links_to_new s s'" and new: "next_addr s \<notin> dom (mem s)" "next_addr s \<noteq> head s"
    and ok: "cells_ok L s"
  shows "cells_ok L s'"
  unfolding cells_ok_def
proof (intro allI impI)
  fix i x a assume i: "i \<le> L" and x: "fwd (mem s') i x = Some (Some a)"
  have old: "a \<noteq> head s \<and> fwd (mem s') i a \<noteq> None" if "fwd (mem s) i y = Some (Some a)" for y
  proof -
    have "a \<noteq> head s \<and> fwd (mem s) i a \<noteq> None" using ok i that by (auto simp: cells_ok_def)
    then show ?thesis using links_fwd_stays[OF l new(1)] by fastforce
  qed
  have "head s' = head s" using l by (simp add: links_to_new_def)
  moreover have "a \<noteq> head s \<and> fwd (mem s') i a \<noteq> None"
  proof (cases "x = next_addr s")
    case True
    with x l obtain y where "fwd (mem s) i y = Some (Some a)" unfolding links_to_new_def by metis
    then show ?thesis by (rule old)
  next
    case False
    with l consider "fwd (mem s') i x = fwd (mem s) i x"
      | "fwd (mem s') i x = Some (Some (next_addr s))" "fwd (mem s') i (next_addr s) \<noteq> None"
      unfolding links_to_new_def by blast
    then show ?thesis using x old new(2) by cases auto
  qed
  ultimately show "a \<noteq> head s' \<and> fwd (mem s') i a \<noteq> None" by simp
qed

lemma links_pc_ok:
  assumes l: "links_to_new s s'" and new: "next_addr s \<notin> dom (mem s)"
    and keys: "fst ` set (items s) \<subseteq> fst ` set (items s')"
    and pc: "pc_ok key L s pc"
  shows "pc_ok key L s' pc"
proof -
  have cell: "fwd (mem s) i x \<noteq> None \<Longrightarrow> fwd (mem s') i x \<noteq> None" for i x
    using links_fwd_stays[OF l new] by fastforce
  have full: "\<exists>a. fwd (mem s) i x = Some (Some a) \<Longrightarrow> \<exists>a. fwd (mem s') i x = Some (Some a)" for i x
    using links_fwd_stays[OF l new] by fastforce
  have "head s' = head s" using l by (simp add: links_to_new_def)
  with pc keys show ?thesis using cell full by (cases pc) auto
qed

lemma put_keys:
  assumes "store_ok rnd s" "insert_element rnd k v s = Ok (r, s')"
  shows "store_ok rnd s'" and "fst ` set (items s) \<subseteq> fst ` set (items s')"
proof -
  from sl.ins_total[OF assms(1), of k v] obtain r1 s1 where "insert_element rnd k v s = Ok (r1, s1)"
    "store_ok rnd s1" "contents_of s1 = map_op (Put k v) (contents_of s)" by blast
  with assms(2) have s': "store_ok rnd s'" "contents_of s' = map_op (Put k v) (contents_of s)"
    by simp_all
  then show "store_ok rnd s'" by simp
  show "fst ` set (items s) \<subseteq> fst ` set (items s')"
  proof
    fix x assume "x \<in> fst ` set (items s)"
    then have "contents_of s x \<noteq> None" using contents_None[of s x] by metis
    with s'(2) have "contents_of s' x \<noteq> None" by (cases "contents_of s k") simp_all
    then show "x \<in> fst ` set (items s')" using contents_None[of s' x] by metis
  qed
qed

definition race_ok :: "(nat \<Rightarrow> nat) \<Rightarrow> int \<Rightarrow> nat \<Rightarrow> search_pc \<times> skiplist \<Rightarrow> bool" where
  "race_ok rnd key L c \<longleftrightarrow>
     store_ok rnd (snd c) \<and> cells_ok L (snd c) \<and> pc_ok key L (snd c) (fst c)"

lemma race_ok_step:
  assumes "inserts_only W" "race rnd W key c c'" "race_ok rnd key L c"
  shows "race_ok rnd key L c'"
  using assms(2)
proof cases
  case (race_read s pc pc')
  with assms(3) search_step_ok[of s L key pc] show ?thesis
    by (auto simp: race_ok_def store_ok_def)
next
  case (race_write op s s' pc)
  then obtain k v where "op = Put k v" using assms(1) by (auto simp: inserts_only_def)
  with race_write(4) obtain r where put: "insert_element rnd k v s = Ok (r, s')"
    by (auto simp: outcome_simps)
  have ok: "store_ok rnd s" using assms(3) race_write by (simp add: race_ok_def)
  from put_links[OF ok put] put_keys[OF ok put] links_cells_ok[of s s' L]
    links_pc_ok[of s s' key L pc] assms(3) race_write(1,2) show ?thesis
    by (auto simp: race_ok_def)
qed

lemma race_ok_run:
  "(race rnd W key)\<^sup>*\<^sup>* c c' \<Longrightarrow> inserts_only W \<Longrightarrow> race_ok rnd key L c \<Longrightarrow> race_ok rnd key L c'"
  by (induction rule: rtranclp_induct) (auto intro: race_ok_step)

lemma race_ok_start:
  assumes "store_ok rnd s"
  shows "race_ok rnd key (nat (max_level s)) (search_start s, s)"
proof -
  obtain xs where inv: "nodes_inv s xs" using assms by (auto simp: store_ok_def wf_skiplist_def)
  let ?L = "nat (max_level s)"
  have node: "fwd (mem s) i a \<noteq> None" if "i \<le> ?L" "a \<in> set (head s # xs)" for i a
    using path_fwd[OF nodes_inv_path[OF inv that(1)] that(2)] by auto
  have "cells_ok ?L s"
    unfolding cells_ok_def
  proof (intro allI impI)
    fix i x a assume i: "i \<le> ?L" and x: "fwd (mem s) i x = Some (Some a)"
    have "x \<in> dom (mem s)" using x fwd_node by fastforce
    then have "x \<in> set (head s # xs)" using inv by (simp add: nodes_inv_def)
    then obtain us vs where "head s # xs = us @ x # vs" by (meson split_list)
    then have "path (mem s) i (Some (head s)) (us @ x # vs) None" and d: "distinct (us @ x # vs)"
      and hd: "List.hd (us @ x # vs) = head s"
      using nodes_inv_path[OF inv i] inv by (metis nodes_inv_def list.sel(1))+
    then have "path (mem s) i (Some a) vs None" using x by (auto simp: path_append)
    then obtain ws where ws: "vs = a # ws" by (cases vs) auto
    with d hd have "a \<noteq> head s" by (cases us) auto
    moreover have "a \<in> set (head s # xs)" using \<open>head s # xs = us @ x # vs\<close> ws by simp
    ultimately show "a \<noteq> head s \<and> fwd (mem s) i a \<noteq> None" using node[OF i] by simp
  qed
  moreover have "0 \<le> max_level s" using inv by (simp add: nodes_inv_def)
  ultimately show ?thesis using assms node[of ?L "head s"] by (simp add: race_ok_def search_start_def)
qed

subsection \<open>Deterministic runs\<close>

lemma deterministic_runs:
  assumes det: "\<And>x y z. r x y \<Longrightarrow> r x z \<Longrightarrow> y = z"
    and "r\<^sup>*\<^sup>* x y" "r\<^sup>*\<^sup>* x z"
  shows "r\<^sup>*\<^sup>* y z \<or> r\<^sup>*\<^sup>* z y"
  using assms(2)
proof (induction rule: rtranclp_induct)
  case (step y w)
  from step.IH show ?case
  proof
    assume "r\<^sup>*\<^sup>* y z"
    then show ?thesis using step(2) det by (metis converse_rtranclpE r_into_rtranclp)
  qed (use step(2) in \<open>meson rtranclp.rtrancl_into_rtrancl\<close>)
qed (use assms(3) in simp)

lemma race_alone_det: "race rnd {} key x y \<Longrightarrow> race rnd {} key x z \<Longrightarrow> y = z"
  by (auto elim!: race.cases)

lemma race_done: "(race rnd {} key)\<^sup>*\<^sup>* (P_done b, s) c \<Longrightarrow> c = (P_done b, s)"
  by (induction rule: rtranclp_induct) (auto elim: race.cases)

subsection \<open>What a search can come to\<close>

lemma search_machine_answer:
  assumes "wf_skiplist s" and run: "(race rnd {} key)\<^sup>*\<^sup>* (search_start s, s) (P_done b, s)"
  shows "search_element key s = Ok b"
proof -
  obtain b' where b': "search_element key s = Ok b'" using wf_search[OF assms(1)] by blast
  have "(race rnd {} key)\<^sup>*\<^sup>* (search_start s, s) (P_done b', s)"
    by (rule search_machine_alone[OF b'])
  with deterministic_runs[of "race rnd {} key", OF _ run] race_alone_det
  have "(race rnd {} key)\<^sup>*\<^sup>* (P_done b, s) (P_done b', s) \<or>
      (race rnd {} key)\<^sup>*\<^sup>* (P_done b', s) (P_done b, s)" by blast
  then have "b = b'" by (auto dest: race_done)
  with b' show "search_element key s = Ok b" by simp
qed

text \<open>
  C39. Without writers, the machine that reads memory step by step ends with the answer b exactly
  when \<^verbatim>\<open>search_element\<close> returns b.
\<close>
theorem search_machine_is_search:
  assumes "wf_skiplist s"
  shows "(race rnd {} key)\<^sup>*\<^sup>* (search_start s, s) (P_done b, s) \<longleftrightarrow> search_element key s = Ok b"
  using search_machine_answer[OF assms] search_machine_alone by blast

theorem search_machine_is_search_witness:
  "\<exists>s. (race (\<lambda>_. 0) {} 3)\<^sup>*\<^sup>* (search_start s, s) (P_done False, s)"
proof -
  obtain s where s: "wf_skiplist s" "items s = []" using init_Ok[of 4 0] by auto
  then have "search_element 3 s = Ok False" using wf_search[OF s(1), of 3] by (simp add: contents_of_def)
  with search_machine_is_search[OF s(1)] show ?thesis by blast
qed

text \<open>
  C10. While other threads only insert, a search never reads through a dead pointer or past the end
  of a node, however the steps interleave, and the answer true is right: the key is in the list.
\<close>
theorem search_beside_inserts_safe:
  assumes "store_ok rnd s" and "inserts_only W"
    and "(race rnd W key)\<^sup>*\<^sup>* (search_start s, s) (pc, s')"
  shows "(\<exists>pc'. search_step key (mem s') pc = Ok pc') \<and>
    (pc = P_done True \<longrightarrow> search_element key s' = Ok True)"
proof -
  have ok: "race_ok rnd key (nat (max_level s)) (pc, s')"
    using race_ok_run[OF assms(3,2) race_ok_start[OF assms(1)]] .
  then have wf: "wf_skiplist s'" "store_ok rnd s'" by (simp_all add: race_ok_def store_ok_def)
  with ok search_step_ok[of s' _ key pc] have "\<exists>pc'. search_step key (mem s') pc = Ok pc'"
    by (auto simp: race_ok_def)
  moreover have "pc = P_done True \<Longrightarrow> search_element key s' = Ok True"
    using ok wf_search[OF wf(1), of key] contents_None[of s' key] by (auto simp: race_ok_def)
  ultimately show ?thesis by simp
qed

lemma one_key_store:
  "\<exists>s. store_ok (\<lambda>_. 0) s \<and> items s = [(7, ''x'')] \<and> search_element 7 s = Ok True \<and>
    search_element 6 s = Ok False"
proof -
  obtain s0 where s0: "wf_skiplist s0" "items s0 = []" using init_Ok[of 4 0] by auto
  have "rand_ends (\<lambda>_. 0) (rand_pos s0)" by (simp add: rand_ends_def)
  with s0 insert_absent[OF s0(1), of "\<lambda>_. 0" 7 "''x''"] obtain s where
    s: "wf_skiplist s" "items s = [(7, ''x'')]" by (auto simp: ins_sorted_def)
  then have "contents_of s 7 \<noteq> None" "contents_of s 6 = None" by (simp_all add: contents_of_def)
  with s wf_search[OF s(1)] have "search_element 7 s = Ok True" "search_element 6 s = Ok False"
    by simp_all
  with s show ?thesis by (auto simp: store_ok_def rand_fair_def rand_ends_def)
qed

theorem search_beside_inserts_safe_witness:
  "\<exists>s. items s = [(7, ''x'')] \<and> (\<exists>pc. search_step 7 (mem s) (search_start s) = Ok pc)"
proof -
  obtain s where s: "store_ok (\<lambda>_. 0) s" "items s = [(7, ''x'')]" using one_key_store by blast
  with search_beside_inserts_safe[OF s(1), of "{Put 6 ''y''}" 7 "search_start s" s] show ?thesis
    by (auto simp: inserts_only_def)
qed

text \<open>Deleting the first key frees the first node.\<close>

lemma delete_first:
  assumes inv: "nodes_inv s xs" and xs: "xs = a # as" "key_at (mem s) a = k"
  shows "\<exists>s'. delete_element k s = Ok s' \<and> wf_skiplist s' \<and> mem s' a = None"
proof -
  have lvl: "0 \<le> max_level s" using inv by (simp add: nodes_inv_def)
  have above: "from_key (mem s) k xs = a # as" using xs by (simp add: from_key_def)
  from remove_node_inv[OF inv above] obtain s' where s':
    "remove_node a (replicate (nat (max_level s + 1)) (pred_of s k xs)) s = Ok s'"
    "nodes_inv s' (before_key (mem s) k xs @ as)" by blast
  obtain n where n: "deref (mem s) a = Ok n" "get_key n = k"
    using deref_above[OF inv above] xs(2) by auto
  have "delete_element k s = Ok s'"
    using fwd_pred[OF inv, of 0 k] above n lvl s'(1)
    by (simp add: delete_element_def descend_inv[OF inv] first_of_def)
  moreover have "mem s' a = None" using s'(1) by (auto simp: remove_node_def outcome_simps)
  ultimately show ?thesis using s'(2) by (auto simp: wf_skiplist_def)
qed

text \<open>
  C11. A deletion beside a search makes the search read a freed node: the thread has read the
  pointer to the first node, the node is deleted, and the key is read through the pointer.
\<close>
theorem search_beside_delete_faults:
  assumes "wf_skiplist s" and "items s = (k, v) # rest"
  shows "\<exists>pc s'. (race rnd {Remove k} key)\<^sup>*\<^sup>* (search_start s, s) (pc, s') \<and> wf_skiplist s' \<and>
    search_step key (mem s') pc = Fault Bad_pointer"
proof -
  obtain xs where inv: "nodes_inv s xs" using assms(1) by (auto simp: wf_skiplist_def)
  with assms(2) obtain a as where xs: "xs = a # as" "key_at (mem s) a = k"
    by (cases xs) (auto simp: items_inv[OF inv] key_at_eq)
  let ?L = "nat (max_level s)"
  have lvl: "0 \<le> max_level s" using inv by (simp add: nodes_inv_def)
  have fw: "fwd (mem s) ?L (head s) = Some (Some a)" using nodes_inv_path[OF inv, of ?L] xs by auto
  have run: "(race rnd {Remove k} key)\<^sup>*\<^sup>* (search_start s, s) (P_key (head s) ?L a, s)"
    using fw lvl by (intro read_step[of _ _ "search_start s" "P_ptr (head s) ?L"]
        read_step[OF _ rtranclp.rtrancl_refl]) (simp_all add: search_start_def)
  obtain s' where s': "delete_element k s = Ok s'" "wf_skiplist s'" "mem s' a = None"
    using delete_first[OF inv xs] by blast
  then have "race rnd {Remove k} key (P_key (head s) ?L a, s) (P_key (head s) ?L a, s')"
    using s'(1) by (intro race_write[of "Remove k"]) simp_all
  moreover have "search_step key (mem s') (P_key (head s) ?L a) = Fault Bad_pointer"
    using s'(3) by (simp add: deref_def)
  ultimately show ?thesis using run s'(2)
    by (meson rtranclp.rtrancl_into_rtrancl)
qed

theorem search_beside_delete_faults_witness:
  "\<exists>s pc s'. items s = [(7, ''x'')] \<and>
    (race (\<lambda>_. 0) {Remove 7} 7)\<^sup>*\<^sup>* (search_start s, s) (pc, s') \<and>
    search_step 7 (mem s') pc = Fault Bad_pointer"
proof -
  obtain s where s: "store_ok (\<lambda>_. 0) s" "items s = [(7, ''x'')]" using one_key_store by blast
  with search_beside_delete_faults[OF _ s(2), of "\<lambda>_. 0" 7] show ?thesis
    by (auto simp: store_ok_def)
qed

text \<open>The machine walks to the last node below the key, and an insertion just below it goes behind that.\<close>

lemma race_to_pred:
  assumes "nodes_inv s xs"
  shows "(race rnd W key)\<^sup>*\<^sup>* (search_start s, s) (P_last (pred_of s key xs), s)"
proof -
  have lvl: "0 \<le> max_level s" using assms by (simp add: nodes_inv_def)
  have "search_levels (walk_fuel s) (mem s) key (Suc (nat (max_level s))) (head s) = Ok (pred_of s key xs)"
    using search_levels_descend[where upd = "[]"] descend_inv[OF assms, of key] lvl
    by (simp add: nat_add_distrib)
  from levels_read[OF this] show ?thesis using lvl by (simp add: search_start_def)
qed

lemma insert_just_below:
  assumes "store_ok rnd s" and inv: "nodes_inv s xs" and absent: "key - 1 \<notin> fst ` set (items s)"
  obtains s' a n where "insert_element rnd (key - 1) w s = Ok (0, s')"
    "fwd (mem s') 0 (pred_of s key xs) = Some (Some a)" "deref (mem s') a = Ok n" "get_key n = key - 1"
proof -
  have fresh: "key - 1 \<notin> key_at (mem s) ` set xs" using absent keys_inv[OF inv] by simp
  have "key_at (mem s) x < key \<longleftrightarrow> key_at (mem s) x < key - 1" if "x \<in> set xs" for x
    using fresh that by force
  then have pred: "pred_of s (key - 1) xs = pred_of s key xs"
    unfolding pred_of_def before_key_def by (metis (no_types, lifting) takeWhile_cong)
  have "rand_ends rnd (rand_pos s)" using assms(1) by (simp add: store_ok_def rand_fair_def)
  from insert_new_inv[OF inv this fresh, of w] obtain s' where s':
    "insert_new rnd (key - 1) w (replicate (nat (max_level s + 1)) (pred_of s (key - 1) xs)) s = Ok s'"
    "nodes_inv s' (before_key (mem s) (key - 1) xs @ next_addr s # from_key (mem s) (key - 1) xs)"
    "item_at (mem s') (next_addr s) = (key - 1, w)" "links_to_new s s'" by blast
  obtain us where us: "head s # before_key (mem s) (key - 1) xs = us @ [pred_of s key xs]"
    using pred_split[OF inv, of "key - 1"] pred by metis
  have "head s' = head s" using s'(4) by (simp add: links_to_new_def)
  with nodes_inv_path0[OF s'(2)] have "path (mem s') 0 (Some (head s)) ((us @ [pred_of s key xs]) @
      next_addr s # from_key (mem s) (key - 1) xs) None" by (metis us append_Cons)
  then have p: "fwd (mem s') 0 (pred_of s key xs) = Some (Some (next_addr s))"
    and "fwd (mem s') 0 (next_addr s) \<noteq> None" by (auto simp: path_append)
  from deref_fwd_Ok[OF this(2)] key_at_eq[OF s'(3)] obtain n where
    "deref (mem s') (next_addr s) = Ok n" "get_key n = key - 1" by auto
  with that insert_step[OF inv absent s'(1)] p show thesis by blast
qed

text \<open>
  A search can miss a key that is in the list the whole time: behind its loop it reads
  \<^verbatim>\<open>forward[0]\<close> again, and an insertion just below the key came in between.
\<close>
theorem search_misses_present_key:
  assumes "store_ok rnd s" and "search_element key s = Ok True"
    and "search_element (key - 1) s = Ok False"
  shows "\<exists>s'. (race rnd {Put (key - 1) w} key)\<^sup>*\<^sup>* (search_start s, s) (P_done False, s') \<and>
    search_element key s' = Ok True"
proof -
  obtain xs where inv: "nodes_inv s xs" using assms(1) by (auto simp: store_ok_def wf_skiplist_def)
  have "key - 1 \<notin> fst ` set (items s)" using assms(3) search_inv[OF inv] by simp
  then obtain s' a n where put: "insert_element rnd (key - 1) w s = Ok (0, s')"
    and new: "fwd (mem s') 0 (pred_of s key xs) = Some (Some a)" "deref (mem s') a = Ok n" "get_key n = key - 1"
    using insert_just_below[OF assms(1) inv] by blast
  let ?p = "pred_of s key xs" and ?R = "race rnd {Put (key - 1) w} key"
  have "?R (P_last ?p, s) (P_last ?p, s')"
    using put by (intro race_write[of "Put (key - 1) w"]) simp_all
  moreover have "?R\<^sup>*\<^sup>* (P_last ?p, s') (P_done False, s')"
    using new by (intro read_step[of _ _ "P_last ?p" "P_cmp a"] read_step[OF _ rtranclp.rtrancl_refl]) simp_all
  ultimately have "?R\<^sup>*\<^sup>* (search_start s, s) (P_done False, s')"
    using race_to_pred[OF inv] by (meson rtranclp.rtrancl_into_rtrancl rtranclp_trans)
  moreover have "contents_of s key \<noteq> None"
    using assms(1,2) sl.srch_law[OF assms(1), of key] by simp
  then have "key \<in> fst ` set (items s)" using contents_None[of s key] by metis
  with put_keys[OF assms(1) put] have "search_element key s' = Ok True"
    using sl.srch_law[of rnd s' key] contents_None[of s' key] by auto
  ultimately show ?thesis by blast
qed

theorem search_misses_present_key_witness:
  "\<exists>s s'. items s = [(7, ''x'')] \<and>
    (race (\<lambda>_. 0) {Put 6 ''y''} 7)\<^sup>*\<^sup>* (search_start s, s) (P_done False, s') \<and>
    search_element 7 s' = Ok True"
proof -
  obtain s where s: "store_ok (\<lambda>_. 0) s" "items s = [(7, ''x'')]" "search_element 7 s = Ok True"
    "search_element 6 s = Ok False" using one_key_store by blast
  with search_misses_present_key[OF s(1,3), of "''y''"] show ?thesis by auto
qed

subsection \<open>How many reads a search takes\<close>

lemma read_pow: "search_step key (mem s) pc = Ok pc' \<Longrightarrow> (race rnd W key ^^ n) (pc', s) t \<Longrightarrow>
    (race rnd W key ^^ Suc n) (pc, s) t"
  by (meson race_read relpowp_Suc_I2)

lemma pow_trans: "(r ^^ m) x y \<Longrightarrow> (r ^^ n) y z \<Longrightarrow> (r ^^ (m + n)) x z"
  by (auto simp: relpowp_add)

text \<open>One level: four reads per node below the key, and one or three more to see that it is over.\<close>

lemma walk_count:
  assumes "path (mem s) i (Some c) (c # as @ bs) None"
    and "\<forall>a\<in>set as. key_at (mem s) a < key"
    and "bs \<noteq> [] \<Longrightarrow> key \<le> key_at (mem s) (List.hd bs)"
  shows "(race rnd W key ^^ (4 * length as + (if bs = [] then 1 else 3)))
    (P_test c i, s) (level_down (last (c # as)) i, s)"
  using assms
proof (induction as arbitrary: c)
  case Nil
  then obtain r where r: "fwd (mem s) i c = Some r" "path (mem s) i r bs None" by auto
  show ?case
  proof (cases bs)
    case Nil
    with r have "race rnd W key (P_test c i, s) (level_down c i, s)" by (intro race_read) simp
    with Nil show ?thesis by (simp add: eq_OO)
  next
    case (Cons b bs')
    with r obtain q where "fwd (mem s) i b = Some q" and rb: "r = Some b" by auto
    then obtain nd where "deref (mem s) b = Ok nd" "node_key nd = key_at (mem s) b"
      using deref_fwd by blast
    with r rb Cons Nil.prems(3) have "(race rnd W key ^^ 3) (P_test c i, s) (level_down c i, s)"
      unfolding numeral_3_eq_3
      by (intro read_pow[of _ _ "P_test c i" "P_ptr c i"] read_pow[of _ _ "P_ptr c i" "P_key c i b"]
          read_pow[of _ _ "P_key c i b" "level_down c i"]) (simp_all add: get_key_def)
    with Cons show ?thesis by simp
  qed
next
  case (Cons a as)
  from Cons.prems(1) obtain q where r: "fwd (mem s) i c = Some (Some a)" "fwd (mem s) i a = Some q"
    and rest: "path (mem s) i (Some a) (a # as @ bs) None" by auto
  from r(2) obtain nd where nd: "deref (mem s) a = Ok nd" "node_key nd = key_at (mem s) a"
    using deref_fwd by blast
  let ?n = "4 * length as + (if bs = [] then 1 else 3)"
  have "(race rnd W key ^^ ?n) (P_test a i, s) (level_down (last (a # as)) i, s)"
    using Cons.IH[OF rest] Cons.prems(2,3) by simp
  with r nd Cons.prems(2) have "(race rnd W key ^^ Suc (Suc (Suc (Suc ?n)))) (P_test c i, s) (level_down (last (a # as)) i, s)"
    by (intro read_pow[of _ _ "P_test c i" "P_ptr c i"] read_pow[of _ _ "P_ptr c i" "P_key c i a"]
        read_pow[of _ _ "P_key c i a" "P_move c i"] read_pow[of _ _ "P_move c i" "P_test a i"])
      (simp_all add: get_key_def)
  then show ?case by (simp add: numeral_eq_Suc)
qed

text \<open>The levels below the first, where the cursor does not move.\<close>

lemma levels_count:
  assumes "\<And>j. j \<le> i \<Longrightarrow> path (mem s) j (Some c) (c # bs) None"
    and "bs \<noteq> [] \<Longrightarrow> key \<le> key_at (mem s) (List.hd bs)"
  shows "(race rnd W key ^^ (i * (if bs = [] then 1 else 3))) (level_down c i, s) (P_last c, s)"
  using assms(1)
proof (induction i)
  case 0
  then show ?case by (simp add: level_down_def)
next
  case (Suc i)
  have "(race rnd W key ^^ (if bs = [] then 1 else 3)) (P_test c i, s) (level_down c i, s)"
    using walk_count[of s i c "[]" bs key] Suc.prems[of i] assms(2) by simp
  from pow_trans[OF this Suc.IH] Suc.prems show ?case by (simp add: level_down_def add.commute)
qed

definition finished :: "search_pc \<Rightarrow> bool" where
  "finished pc \<longleftrightarrow> (\<exists>b. pc = P_done b)"

text \<open>The machine has ended after k reads exactly when its last read is among them.\<close>

lemma ended_iff:
  assumes run: "(race rnd {} key ^^ n) x (pc, s)" and pc: "\<not> finished pc"
    and last: "race rnd {} key (pc, s) (P_done b, s)"
    and k: "(race rnd {} key ^^ k) x (pc', s)"
  shows "finished pc' \<longleftrightarrow> n < k"
proof -
  let ?r = "race rnd {} key"
  have det: "(?r ^^ m) x y \<Longrightarrow> (?r ^^ m) x z \<Longrightarrow> y = z" for m x y z
  proof (induction m arbitrary: y z)
    case (Suc m)
    then obtain u v where "(?r ^^ m) x u" "?r u y" "(?r ^^ m) x v" "?r v z" by (auto simp: relcompp_apply)
    with Suc.IH have "?r u y" "?r u z" by blast+
    then show ?case by (rule race_alone_det)
  qed simp
  have stays: "(?r ^^ m) (P_done b', s) z \<Longrightarrow> z = (P_done b', s)" for m b' z
    using race_done relpowp_imp_rtranclp by metis
  show ?thesis
  proof (cases "n < k")
    case True
    then obtain m where m: "k = Suc n + m" using less_iff_Suc_add by auto
    have "(?r ^^ Suc n) x (P_done b, s)" using run last by auto
    moreover obtain y where "(?r ^^ Suc n) x y" "(?r ^^ m) y (pc', s)"
      using k unfolding m relpowp_add by (rule relcomppE)
    ultimately have "(?r ^^ m) (P_done b, s) (pc', s)" using det by metis
    then show ?thesis using stays True by (fastforce simp: finished_def)
  next
    case False
    then obtain m where m: "n = k + m" using le_Suc_ex by (metis not_less)
    with run obtain y where "(?r ^^ k) x y" "(?r ^^ m) y (pc, s)" by (auto simp: relpowp_add)
    with det k have "(?r ^^ m) (pc', s) (pc, s)" by metis
    then show ?thesis using stays pc False by (fastforce simp: finished_def)
  qed
qed

lemma search_reads:
  fixes key :: int
  assumes "store_ok rnd s"
  defines "below \<equiv> length (filter (\<lambda>p. fst p < key) (items s))"
    and "beyond \<equiv> \<exists>p\<in>set (items s). key \<le> fst p"
  shows "\<exists>pc b. (race rnd {} key ^^ (4 * below + Suc (nat (max_level s)) * (if beyond then 3 else 1) + (if beyond then 1 else 0)))
      (search_start s, s) (pc, s) \<and> \<not> finished pc \<and> race rnd {} key (pc, s) (P_done b, s)"
proof -
  have wf: "wf_skiplist s" using assms(1) by (simp add: store_ok_def)
  then obtain xs where inv: "nodes_inv s xs" by (auto simp: wf_skiplist_def)
  let ?lo = "before_key (mem s) key xs" and ?hi = "from_key (mem s) key xs"
  let ?p = "pred_of s key xs" and ?L = "nat (max_level s)"
  have lvl: "0 \<le> max_level s" using inv by (simp add: nodes_inv_def)
  have "length ?lo = length (takeWhile (\<lambda>p. fst p < key) (items s))"
    by (metis items_inv[OF inv] map_takeWhile_items length_map)
  also have "takeWhile (\<lambda>p. fst p < key) (items s) = filter (\<lambda>p. fst p < key) (items s)"
    by (rule takeWhile_eq_filter_sorted) (rule wf_sorted[OF wf])
  finally have lo: "length ?lo = below" by (simp add: below_def)
  have "?hi = [] \<longleftrightarrow> (\<forall>a\<in>set xs. key_at (mem s) a < key)" by (simp add: from_key_def dropWhile_eq_Nil_conv)
  then have hi: "?hi = [] \<longleftrightarrow> \<not> beyond" using keys_inv[OF inv] by (force simp: beyond_def not_less)
  have "path (mem s) ?L (Some (head s)) (head s # ?lo @ ?hi) None" using nodes_inv_path[OF inv, of ?L] by simp
  from walk_count[OF this, of key rnd "{}"] below_key[of _ "mem s" key xs] above_key[of "mem s" key xs] have 1: "(race rnd {} key ^^ (4 * below + (if beyond then 3 else 1)))
      (search_start s, s) (level_down ?p ?L, s)"
    using lvl by (cases beyond) (simp_all add: pred_of_def lo hi search_start_def del: relpowp.simps)
  have "(race rnd {} key ^^ (?L * (if beyond then 3 else 1))) (level_down ?p ?L, s) (P_last ?p, s)"
    using levels_count[OF pred_path[OF inv, of _ key] above_key, of ?L rnd "{}"] by (cases beyond) (simp_all add: hi del: relpowp.simps)
  from pow_trans[OF 1 this] have run: "(race rnd {} key ^^ (4 * below + Suc ?L * (if beyond then 3 else 1)))
      (search_start s, s) (P_last ?p, s)" by (simp add: ac_simps del: relpowp.simps)
  have nxt: "fwd (mem s) 0 ?p = Some (first_of ?hi)" using fwd_pred[OF inv] by simp
  show ?thesis
  proof (cases ?hi)
    case Nil
    with nxt have "race rnd {} key (P_last ?p, s) (P_done False, s)"
      by (intro race_read) (simp add: first_of_def)
    with run Nil show ?thesis by (auto simp: hi finished_def)
  next
    case (Cons a as)
    with nxt have 2: "race rnd {} key (P_last ?p, s) (P_cmp a, s)" by (intro race_read) (simp add: first_of_def)
    obtain n where "deref (mem s) a = Ok n" using deref_above[OF inv] Cons by blast
    then have "race rnd {} key (P_cmp a, s) (P_done (get_key n = key), s)" by (intro race_read) simp
    moreover have "beyond" using hi Cons by simp
    then have eq: "Suc (4 * below + Suc ?L * (if beyond then 3 else 1)) =
      4 * below + Suc ?L * (if beyond then 3 else 1) + (if beyond then 1 else 0)" by simp
    have "\<not> finished (P_cmp a)" by (simp add: finished_def)
    ultimately show ?thesis using relpowp_Suc_I[OF run 2] unfolding eq by blast
  qed
qed

text \<open>
  C22. The cost of a search is linear.  On every list that insertions and deletions make of a new one, a
  search with no other thread beside it answers what \<^verbatim>\<open>search_element\<close> returns after exactly four reads
  of memory per key below the one it looks for, as in a plain linked list, and a fixed number of reads
  per level: the levels save nothing.
\<close>
theorem search_is_linear:
  assumes "0 \<le> lvl" and "rand_fair rnd"
  shows "\<exists>s0 s b. SkipList_init lvl rp = Ok s0 \<and>
    run_ops (insert_element rnd) delete_element ops s0 = Ok s \<and> search_element key s = Ok b \<and>
    (let below = length (filter (\<lambda>p. fst p < key) (items s)); beyond = (\<exists>p\<in>set (items s). key \<le> fst p);
         n = 4 * below + (nat (max_level s) + 1) * (if beyond then 3 else 1) + (if beyond then 2 else 1)
     in (race rnd {} key ^^ n) (search_start s, s) (P_done b, s) \<and>
       (\<forall>k pc. (race rnd {} key ^^ k) (search_start s, s) (pc, s) \<longrightarrow> (finished pc \<longleftrightarrow> n \<le> k)))"
proof -
  obtain s0 where s0: "SkipList_init lvl rp = Ok s0" "store_ok rnd s0"
    using init_Ok[OF assms(1), of rp] assms(2) by (auto simp: store_ok_def)
  from sl.run_ops_total[OF s0(2), of ops] obtain s where
    s: "run_ops (insert_element rnd) delete_element ops s0 = Ok s" "store_ok rnd s" by blast
  let ?beyond = "\<exists>p\<in>set (items s). key \<le> fst p"
  let ?n = "4 * length (filter (\<lambda>p. fst p < key) (items s)) + Suc (nat (max_level s)) * (if ?beyond then 3 else 1) +
    (if ?beyond then 1 else 0)"
  from search_reads[OF s(2), of key] obtain pc b where
    b: "(race rnd {} key ^^ ?n) (search_start s, s) (pc, s)" "\<not> finished pc" "race rnd {} key (pc, s) (P_done b, s)"
    by blast
  then have fin: "(race rnd {} key ^^ Suc ?n) (search_start s, s) (P_done b, s)" by (simp only: relpowp_Suc_I)
  then have "(race rnd {} key)\<^sup>*\<^sup>* (search_start s, s) (P_done b, s)" by (rule relpowp_imp_rtranclp)
  moreover have "wf_skiplist s" using s(2) by (simp add: store_ok_def)
  ultimately have ans: "search_element key s = Ok b" using search_machine_answer by blast
  define n where "n = 4 * length (filter (\<lambda>p. fst p < key) (items s)) +
      (nat (max_level s) + 1) * (if ?beyond then 3 else 1) + (if ?beyond then 2 else 1)"
  have n: "Suc ?n = n" by (simp add: n_def)
  have "finished pc' \<longleftrightarrow> n \<le> k" if "(race rnd {} key ^^ k) (search_start s, s) (pc', s)" for k pc'
    using ended_iff[OF b that] n by (simp add: Suc_le_eq[symmetric])
  then show ?thesis using s0(1) s(1) ans fin unfolding n unfolding n_def Let_def by blast
qed

theorem search_is_linear_witness:
  "\<exists>s0 s b n. SkipList_init 4 0 = Ok s0 \<and> insert_element (\<lambda>_. 0) 7 ''x'' s0 = Ok (0, s) \<and> 5 \<le> n \<and>
    (race (\<lambda>_. 0) {} 9 ^^ n) (search_start s, s) (P_done b, s)"
proof -
  obtain s0 where s0: "SkipList_init 4 0 = Ok s0" "wf_skiplist s0" "items s0 = []" using init_Ok[of 4 0] by auto
  have "rand_ends (\<lambda>_. 0) (rand_pos s0)" by (simp add: rand_ends_def)
  with insert_absent[OF s0(2), of "\<lambda>_. 0" 7 "''x''"] s0(3) obtain s where
    s: "insert_element (\<lambda>_. 0) 7 ''x'' s0 = Ok (0, s)" "items s = [(7, ''x'')]" by (auto simp: ins_sorted_def)
  have "rand_fair (\<lambda>_. 0)" by (simp add: rand_fair_def rand_ends_def)
  from search_is_linear[OF _ this, of 4 0 "[Put 7 ''x'']" 9] s0(1) s
  obtain b where "(race (\<lambda>_. 0) {} 9 ^^ (4 + (nat (max_level s) + 1) * 1 + 1)) (search_start s, s) (P_done b, s)"
    by (auto simp: Let_def simp del: relpowp.simps)
  with s0(1) s(1) show ?thesis
    by (intro exI[of _ s0] exI[of _ s] exI[of _ b] exI[of _ "4 + (nat (max_level s) + 1) * 1 + 1"]) simp
qed

end
