(* ===== verification/Timestamps.thy ===== *)
theory Timestamps
  imports CppString
begin

section \<open>Time stamps (Logger::getCurrentTimestamp, the clock functions of Utils)\<close>

text \<open>
  A point in time is the number of nanoseconds since 1970 that \<^verbatim>\<open>system_clock\<close> counts, in an
  \<^verbatim>\<open>int64_t\<close>.  The clock and the time zone are arguments: a zone has an offset from UTC in seconds, and
  says at which instants it has summer time and by how many seconds that is ahead.  \<open>localtime\<close> and
  \<open>mktime\<close> are the functions of the C library on the proleptic Gregorian calendar, without leap
  seconds.
\<close>

subsection \<open>The calendar\<close>

definition leap :: "int \<Rightarrow> bool" where
  "leap y \<longleftrightarrow> y mod 4 = 0 \<and> (y mod 100 \<noteq> 0 \<or> y mod 400 = 0)"

definition year_length :: "int \<Rightarrow> int" where
  "year_length y = (if leap y then 366 else 365)"

text \<open>The days from 1 January 1970 to 1 January of a year.\<close>

definition year_start :: "int \<Rightarrow> int" where
  "year_start y = 365 * (y - 1970) + (y - 1) div 4 - (y - 1) div 100 + (y - 1) div 400 - 477"

definition month_lengths :: "int \<Rightarrow> int list" where
  "month_lengths y = [31, if leap y then 29 else 28, 31, 30, 31, 30, 31, 31, 30, 31, 30, 31]"

text \<open>The year that holds a day, counted from 1 January of y, and the day within it.\<close>

function find_year :: "int \<Rightarrow> int \<Rightarrow> int \<times> int" where
  "find_year y d =
     (if d < 0 then find_year (y - 1) (d + year_length (y - 1))
      else if year_length y \<le> d then find_year (y + 1) (d - year_length y)
      else (y, d))"
  by pat_completeness auto

termination
  by (relation "measure (\<lambda>(y, d). if d < 0 then 400 + nat (- d) else nat d)")
    (auto simp: year_length_def split: if_splits)

declare find_year.simps [simp del]

text \<open>The month that holds a day of the year, counted from 0, and the day of the month, from 1.\<close>

fun find_month :: "int list \<Rightarrow> int \<Rightarrow> int \<times> int" where
  "find_month [] d = (0, d + 1)"
| "find_month (l # ls) d =
     (if d < l then (0, d + 1) else case find_month ls (d - l) of (m, k) \<Rightarrow> (m + 1, k))"

subsection \<open>Broken-down time\<close>

text \<open>\<^verbatim>\<open>std::tm\<close>, with the year in full and the month from 0.\<close>

record tm =
  tm_year :: int
  tm_mon :: int
  tm_mday :: int
  tm_hour :: int
  tm_min :: int
  tm_sec :: int

record zone =
  utc_offset :: int
  summer :: "int \<Rightarrow> bool"
  summer_shift :: int

definition gmtime :: "int \<Rightarrow> tm" where
  "gmtime t =
     (case find_year 1970 (t div 86400) of (y, d) \<Rightarrow>
        (case find_month (month_lengths y) d of (m, k) \<Rightarrow>
           \<lparr>tm_year = y, tm_mon = m, tm_mday = k, tm_hour = t mod 86400 div 3600,
            tm_min = t mod 3600 div 60, tm_sec = t mod 60\<rparr>))"

definition local_offset :: "zone \<Rightarrow> int \<Rightarrow> int" where
  "local_offset z t = utc_offset z + (if summer z t then summer_shift z else 0)"

definition localtime :: "zone \<Rightarrow> int \<Rightarrow> tm" where
  "localtime z t = gmtime (t + local_offset z t)"

text \<open>Months outside the year and days outside the month carry over.\<close>

definition timegm :: "tm \<Rightarrow> int" where
  "timegm x =
     (let y = tm_year x + tm_mon x div 12; m = nat (tm_mon x mod 12) in
      86400 * (year_start y + sum_list (take m (month_lengths y)) + tm_mday x - 1) +
      3600 * tm_hour x + 60 * tm_min x + tm_sec x)"

text \<open>\<^verbatim>\<open>tm_isdst\<close> is 0 in every use of the source: the fields are read as winter time.\<close>

definition mktime :: "zone \<Rightarrow> tm \<Rightarrow> int" where
  "mktime z x = timegm x - utc_offset z"

subsection \<open>Writing a time\<close>

text \<open>The last k digits of a number, and \<^verbatim>\<open>std::setfill('0') << std::setw(k)\<close>.\<close>

fun pad :: "nat \<Rightarrow> nat \<Rightarrow> string" where
  "pad 0 n = []"
| "pad (Suc k) n = pad k (n div 10) @ [digit_char (n mod 10)]"

definition setw0 :: "nat \<Rightarrow> int \<Rightarrow> string" where
  "setw0 k n = replicate (k - length (int_to_string n)) (CHR ''0'') @ int_to_string n"

text \<open>
  The conversions of \<^verbatim>\<open>std::put_time\<close>.  The clock counts to the year 2262 and back to 1677, so a year
  has four digits.
\<close>

definition put_date :: "tm \<Rightarrow> string" where
  "put_date x = pad 4 (nat (tm_year x)) @ ''-'' @ pad 2 (nat (tm_mon x + 1)) @ ''-'' @ pad 2 (nat (tm_mday x))"

definition put_clock :: "tm \<Rightarrow> string" where
  "put_clock x = pad 2 (nat (tm_hour x)) @ '':'' @ pad 2 (nat (tm_min x)) @ '':'' @ pad 2 (nat (tm_sec x))"

text \<open>\<^verbatim>\<open>to_time_t\<close> and the cast to milliseconds cut towards zero, and \<^verbatim>\<open>%\<close> takes the sign of its left side.\<close>

definition cut :: "int \<Rightarrow> int \<Rightarrow> int" where
  "cut n k = (if n < 0 then - ((- n) div k) else n div k)"

definition to_time_t :: "int \<Rightarrow> int" where
  "to_time_t ns = cut ns 1000000000"

definition milliseconds :: "int \<Rightarrow> int" where
  "milliseconds ns = (let ms = cut ns 1000000 in ms - 1000 * cut ms 1000)"

definition getCurrentTimestamp :: "zone \<Rightarrow> int \<Rightarrow> string" where
  "getCurrentTimestamp z ns =
     (let x = localtime z (to_time_t ns) in
      put_date x @ '' '' @ put_clock x @ ''.'' @ setw0 3 (milliseconds ns))"

definition getCurrentDate :: "zone \<Rightarrow> int \<Rightarrow> string" where
  "getCurrentDate z ns = put_date (localtime z (to_time_t ns))"

definition getCurrentTime :: "zone \<Rightarrow> int \<Rightarrow> string" where
  "getCurrentTime z ns = put_clock (localtime z (to_time_t ns))"

text \<open>\<^verbatim>\<open>Logger::getCurrentTimestamp\<close> is the same function, written out in the logger's file.\<close>

definition Logger_getCurrentTimestamp :: "zone \<Rightarrow> int \<Rightarrow> string" where
  "Logger_getCurrentTimestamp z ns =
     (let t = to_time_t ns; ms = milliseconds ns in
      put_date (localtime z t) @ '' '' @ put_clock (localtime z t) @ ''.'' @ setw0 3 ms)"

text \<open>\<^verbatim>\<open>std::ctime\<close>, which the sample program of the exceptions uses: it ends the line.\<close>

definition day_names :: "string list" where
  "day_names = [''Sun'', ''Mon'', ''Tue'', ''Wed'', ''Thu'', ''Fri'', ''Sat'']"

definition month_names :: "string list" where
  "month_names = [''Jan'', ''Feb'', ''Mar'', ''Apr'', ''May'', ''Jun'', ''Jul'', ''Aug'', ''Sep'', ''Oct'',
     ''Nov'', ''Dec'']"

definition pad_blank :: "nat \<Rightarrow> string" where
  "pad_blank n = (if n < 10 then '' '' else '''') @ nat_to_string n"

definition ctime :: "zone \<Rightarrow> int \<Rightarrow> string" where
  "ctime z t =
     (let x = localtime z t; wday = nat (((t + local_offset z t) div 86400 + 4) mod 7) in
      day_names ! wday @ '' '' @ month_names ! nat (tm_mon x) @ '' '' @ pad_blank (nat (tm_mday x)) @ '' '' @
      put_clock x @ '' '' @ int_to_string (tm_year x) @ [LF])"

definition demo_getCurrentTimestamp :: "zone \<Rightarrow> int \<Rightarrow> string" where
  "demo_getCurrentTimestamp z ns = ctime z (to_time_t ns)"

subsection \<open>Reading a time\<close>

text \<open>
  \<^verbatim>\<open>std::get_time\<close>: a conversion takes up to as many digits as its field has, at least one, and
  refuses a number out of range; a blank of the format matches any white space, another character
  itself.  The first mismatch ends it, with the fields read so far.
\<close>

datatype conv = Year | Month | Day | Hour | Minute | Second | Blank | Char char

definition get_num :: "nat \<Rightarrow> int \<Rightarrow> int \<Rightarrow> string \<Rightarrow> (int \<times> string) option" where
  "get_num n lo hi s =
     (let ds = takeWhile isdigit_c (take n s); v = int (digits_val ds) in
      if ds = [] \<or> v < lo \<or> hi < v then None else Some (v, drop (length ds) s))"

fun get_conv :: "conv \<Rightarrow> string \<Rightarrow> tm \<Rightarrow> (tm \<times> string) option" where
  "get_conv Year s x = map_option (\<lambda>(v, r). (x\<lparr>tm_year := v\<rparr>, r)) (get_num 4 0 9999 s)"
| "get_conv Month s x = map_option (\<lambda>(v, r). (x\<lparr>tm_mon := v - 1\<rparr>, r)) (get_num 2 1 12 s)"
| "get_conv Day s x = map_option (\<lambda>(v, r). (x\<lparr>tm_mday := v\<rparr>, r)) (get_num 2 1 31 s)"
| "get_conv Hour s x = map_option (\<lambda>(v, r). (x\<lparr>tm_hour := v\<rparr>, r)) (get_num 2 0 23 s)"
| "get_conv Minute s x = map_option (\<lambda>(v, r). (x\<lparr>tm_min := v\<rparr>, r)) (get_num 2 0 59 s)"
| "get_conv Second s x = map_option (\<lambda>(v, r). (x\<lparr>tm_sec := v\<rparr>, r)) (get_num 2 0 60 s)"
| "get_conv Blank s x = Some (x, dropWhile isspace_c s)"
| "get_conv (Char c) s x = (case s of [] \<Rightarrow> None | d # r \<Rightarrow> if c = d then Some (x, r) else None)"

fun get_time :: "conv list \<Rightarrow> string \<Rightarrow> tm \<Rightarrow> tm" where
  "get_time [] s x = x"
| "get_time (c # cs) s x = (case get_conv c s x of None \<Rightarrow> x | Some (x', s') \<Rightarrow> get_time cs s' x')"

definition timestamp_format :: "conv list" where
  "timestamp_format = [Year, Char (CHR ''-''), Month, Char (CHR ''-''), Day, Blank, Hour, Char (CHR '':''),
     Minute, Char (CHR '':''), Second]"

text \<open>\<^verbatim>\<open>std::tm tm = {}\<close>\<close>

definition tm_zero :: tm where
  "tm_zero = \<lparr>tm_year = 1900, tm_mon = 0, tm_mday = 0, tm_hour = 0, tm_min = 0, tm_sec = 0\<rparr>"

text \<open>None when the nanoseconds of the result do not fit in \<^verbatim>\<open>int64_t\<close>.\<close>

definition from_time_t :: "int \<Rightarrow> int option" where
  "from_time_t t = (let ns = t * 1000000000 in
     if int64_min \<le> ns \<and> ns \<le> int64_max then Some ns else None)"

definition parseTimestamp :: "zone \<Rightarrow> string \<Rightarrow> int option" where
  "parseTimestamp z s = from_time_t (mktime z (get_time timestamp_format (dropWhile isspace_c s) tm_zero))"

subsection \<open>The calendar is consistent\<close>

lemma div_pred:
  assumes "0 < (n::int)"
  shows "y div n = (y - 1) div n + (if y mod n = 0 then 1 else 0)"
proof -
  obtain q r where qr: "q = y div n" "r = y mod n" by blast
  have y: "y = n * q + r" using qr by simp
  have r: "0 \<le> r" "r < n" using assms qr by simp_all
  show ?thesis
  proof (cases "r = 0")
    case True
    have "n * (q - 1) = n * q - n" by (simp only: right_diff_distrib mult_1_right)
    then have "y - 1 = n * (q - 1) + (n - 1)" using y True by linarith
    from int_div_pos_eq[OF this] assms have "(y - 1) div n = q - 1" by linarith
    with True show ?thesis unfolding qr by simp
  next
    case False
    have "y - 1 = n * q + (r - 1)" using y by linarith
    from int_div_pos_eq[OF this] r False have "(y - 1) div n = q" by linarith
    with False show ?thesis unfolding qr by simp
  qed
qed

lemma year_start_next: "year_start (y + 1) = year_start y + year_length y"
proof -
  have "100 dvd y" if "400 dvd y" by (rule dvd_trans[OF _ that]) simp
  moreover have "4 dvd y" if "100 dvd y" by (rule dvd_trans[OF _ that]) simp
  ultimately have imp: "y mod 400 = 0 \<longrightarrow> y mod 100 = 0" "y mod 100 = 0 \<longrightarrow> y mod 4 = 0"
    unfolding mod_eq_0_iff_dvd by blast+
  have rules: "365 + (if A then 1 else 0) - (if B then 1 else 0) + (if C then 1 else 0) =
      (if A \<and> (\<not> B \<or> C) then 366 else (365::int))" if "C \<longrightarrow> B" "B \<longrightarrow> A" for A B C
    using that by (cases A; cases B; cases C) simp_all
  have add3: "365 * (y + 1 - 1970) + a' - b' + c' - 477 = 365 * (y - 1970) + a - b + c - 477 + (365 + p - q + r)"
    if "a' = a + p" "b' = b + q" "c' = c + r" for a a' b b' c c' p q r :: int
    using that by simp
  let ?b = "\<lambda>n. if y mod n = 0 then 1 else (0::int)"
  have "year_start (y + 1) = year_start y + (365 + ?b 4 - ?b 100 + ?b 400)"
    unfolding year_start_def add_diff_cancel_right' by (rule add3) (rule div_pred, simp)+
  also have "365 + ?b 4 - ?b 100 + ?b 400 = year_length y"
    using rules[OF imp] unfolding year_length_def leap_def .
  finally show ?thesis .
qed

lemma time_of_day:
  "86400 * (t div 86400) + 3600 * (t mod 86400 div 3600) + 60 * (t mod 3600 div 60) + t mod 60 = (t::int)"
  "t mod 86400 div 3600 < 24" "t mod 3600 div 60 < 60"
proof -
  have "t mod 86400 mod 3600 = t mod 3600" "t mod 3600 mod 60 = t mod 60" by (simp_all add: mod_mod_cancel)
  then show "86400 * (t div 86400) + 3600 * (t mod 86400 div 3600) + 60 * (t mod 3600 div 60) + t mod 60 = t"
    using mult_div_mod_eq[of 86400 t] mult_div_mod_eq[of 3600 "t mod 86400"] mult_div_mod_eq[of 60 "t mod 3600"]
    by linarith
qed (simp_all add: div_less_iff_less_mult)

lemma find_year_correct:
  "find_year y d = (y', d') \<Longrightarrow>
    year_start y' + d' = year_start y + d \<and> 0 \<le> d' \<and> d' < year_length y'"
proof (induction y d rule: find_year.induct)
  case (1 y d)
  show ?case
    using 1 year_start_next[of y] year_start_next[of "y - 1"]
    by (subst (asm) find_year.simps) (auto split: if_splits)
qed

lemma find_month_correct:
  assumes "find_month ls d = (m, k)" and "0 \<le> d" and "d < sum_list ls"
  shows "0 \<le> m \<and> nat m < length ls \<and> sum_list (take (nat m) ls) + k - 1 = d \<and> 1 \<le> k \<and> k \<le> ls ! nat m"
  using assms
proof (induction ls arbitrary: d m)
  case (Cons l ls)
  show ?case
  proof (cases "d < l")
    case False
    then obtain m' where m: "find_month ls (d - l) = (m', k)" "m = m' + 1"
      using Cons.prems(1) by (auto split: prod.splits)
    with Cons.IH[OF m(1)] Cons.prems False show ?thesis by (auto simp: nat_add_distrib)
  qed (use Cons.prems in auto)
qed simp

lemma month_lengths_sum: "sum_list (month_lengths y) = year_length y" "length (month_lengths y) = 12"
  by (simp_all add: month_lengths_def year_length_def)

lemma month_at_most_31: "l \<in> set (month_lengths y) \<Longrightarrow> l \<le> 31"
  by (auto simp: month_lengths_def)

text \<open>The fields of a time, and that they give it back.\<close>

lemma gmtime_fields:
  "0 \<le> tm_mon (gmtime t) \<and> tm_mon (gmtime t) < 12 \<and> 1 \<le> tm_mday (gmtime t) \<and> tm_mday (gmtime t) \<le> 31 \<and>
   0 \<le> tm_hour (gmtime t) \<and> tm_hour (gmtime t) < 24 \<and> 0 \<le> tm_min (gmtime t) \<and> tm_min (gmtime t) < 60 \<and>
   0 \<le> tm_sec (gmtime t) \<and> tm_sec (gmtime t) < 60"
  "timegm (gmtime t) = t" "\<exists>d. year_start (tm_year (gmtime t)) + d = t div 86400 \<and> 0 \<le> d \<and> d < 366"
proof -
  obtain y d where y: "find_year 1970 (t div 86400) = (y, d)" by fastforce
  obtain m k where m: "find_month (month_lengths y) d = (m, k)" by fastforce
  have 70: "year_start 1970 = 0" by (simp add: year_start_def)
  note yc = find_year_correct[OF y, unfolded 70]
  have mc: "0 \<le> m \<and> nat m < 12 \<and> sum_list (take (nat m) (month_lengths y)) + k - 1 = d \<and> 1 \<le> k \<and>
      k \<le> month_lengths y ! nat m"
    using find_month_correct[OF m] yc by (simp add: month_lengths_sum)
  then have k: "k \<le> 31" using month_at_most_31[OF nth_mem, of "nat m" y] by (simp add: month_lengths_sum)
  have g: "gmtime t = \<lparr>tm_year = y, tm_mon = m, tm_mday = k, tm_hour = t mod 86400 div 3600,
      tm_min = t mod 3600 div 60, tm_sec = t mod 60\<rparr>"
    using y m by (simp add: gmtime_def)
  show "timegm (gmtime t) = t"
  proof -
    have "0 \<le> m" "m < 12" using mc by auto
    then have "m div 12 = 0" "m mod 12 = m" by simp_all
    then have "timegm (gmtime t) = 86400 * (year_start y + sum_list (take (nat m) (month_lengths y)) + k - 1) +
        3600 * (t mod 86400 div 3600) + 60 * (t mod 3600 div 60) + t mod 60"
      by (simp add: g timegm_def Let_def)
    moreover have "year_start y + sum_list (take (nat m) (month_lengths y)) + k - 1 = t div 86400"
      using yc mc by linarith
    ultimately show ?thesis using time_of_day(1)[of t] by metis
  qed
  show "\<exists>d. year_start (tm_year (gmtime t)) + d = t div 86400 \<and> 0 \<le> d \<and> d < 366"
    using yc by (intro exI[of _ d]) (auto simp: g year_length_def split: if_splits)
  have "0 \<le> m" "m < 12" using mc by auto
  then show "0 \<le> tm_mon (gmtime t) \<and> tm_mon (gmtime t) < 12 \<and> 1 \<le> tm_mday (gmtime t) \<and> tm_mday (gmtime t) \<le> 31 \<and>
   0 \<le> tm_hour (gmtime t) \<and> tm_hour (gmtime t) < 24 \<and> 0 \<le> tm_min (gmtime t) \<and> tm_min (gmtime t) < 60 \<and>
   0 \<le> tm_sec (gmtime t) \<and> tm_sec (gmtime t) < 60"
    using mc k by (simp add: g time_of_day pos_imp_zdiv_nonneg_iff)
qed

subsection \<open>Digits\<close>

lemma pad_facts: "length (pad k n) = k" "list_all isdigit_c (pad k n)"
  by (induction k arbitrary: n) (auto simp: digit_char_props)

lemma digits_val_pad: "n < 10 ^ k \<Longrightarrow> digits_val (pad k n) = n"
proof (induction k arbitrary: n)
  case (Suc k)
  then have "digits_val (pad k (n div 10)) = n div 10" by (simp add: less_mult_imp_div_less mult.commute)
  then show ?case by (simp add: digits_val_def digit_char_props)
qed (simp add: digits_val_def)

lemma get_num_pad:
  assumes "0 < k" and "n < 10 ^ k" and "lo \<le> int n" and "int n \<le> hi"
  shows "get_num k lo hi (pad k n @ r) = Some (int n, r)"
proof -
  have tw: "takeWhile isdigit_c (pad k n) = pad k n"
    using pad_facts[of k n] by (simp add: takeWhile_eq_all_conv list_all_iff)
  moreover have "pad k n \<noteq> []" using assms(1) pad_facts(1)[of k n] by auto
  ultimately show ?thesis using assms by (simp add: get_num_def tw digits_val_pad pad_facts Let_def)
qed

lemma dropWhile_pad: "0 < k \<Longrightarrow> dropWhile isspace_c (pad k n @ r) = pad k n @ r"
proof -
  assume "0 < k"
  then obtain c cs where c: "pad k n = c # cs" using pad_facts(1)[of k n] by (cases "pad k n") auto
  then have "isdigit_c c" using pad_facts(2)[of k n] by simp
  then have "\<not> isspace_c c" by (auto simp: isdigit_c_def isspace_c_def)
  with c show ?thesis by simp
qed

text \<open>Times within the range of the clock are read back as they were written.\<close>

lemma get_time_put:
  assumes "0 \<le> tm_year x" "tm_year x < 10000" "0 \<le> tm_mon x" "tm_mon x < 12" "1 \<le> tm_mday x" "tm_mday x \<le> 31"
    "0 \<le> tm_hour x" "tm_hour x < 24" "0 \<le> tm_min x" "tm_min x < 60" "0 \<le> tm_sec x" "tm_sec x < 60"
  shows "get_time timestamp_format (put_date x @ '' '' @ put_clock x @ r) tm_zero = x"
  using assms
  by (simp add: timestamp_format_def put_date_def put_clock_def get_num_pad dropWhile_pad tm_zero_def isspace_c_def)

lemma div_bounds: "0 < (n::int) \<Longrightarrow> n * (a div n) \<le> a \<and> a < n * (a div n) + n"
  using mult_div_mod_eq[of n a] pos_mod_bound[of n a] pos_mod_sign[of n a] by linarith

lemma year_four_digits:
  assumes "year_start y + d = n" "0 \<le> d" "d < 366" "- 2 \<le> n" "n < 200000"
  shows "1000 \<le> y \<and> y < 10000"
proof -
  obtain p q r where pqr: "(y - 1) div 4 = p" "(y - 1) div 100 = q" "(y - 1) div 400 = r" by blast
  have "4 * p \<le> y - 1" "y - 1 < 4 * p + 4" using div_bounds[of 4 "y - 1"] pqr(1) by simp_all
  moreover have "100 * q \<le> y - 1" "y - 1 < 100 * q + 100" using div_bounds[of 100 "y - 1"] pqr(2) by simp_all
  moreover have "400 * r \<le> y - 1" "y - 1 < 400 * r + 400" using div_bounds[of 400 "y - 1"] pqr(3) by simp_all
  moreover have "365 * y + p - q + r + d = n + 719527" using assms(1) by (simp add: year_start_def pqr)
  ultimately have "1000 \<le> y" "y < 10000" using assms(2-) by linarith+
  then show ?thesis by simp
qed

subsection \<open>Properties\<close>

lemma timestamp_functions_agree: "Logger_getCurrentTimestamp z ns = getCurrentTimestamp z ns"
  by (simp add: Logger_getCurrentTimestamp_def getCurrentTimestamp_def Let_def)

text \<open>The last byte of the time in the sample program is a line end, which cuts its log line in two.\<close>

lemma demo_timestamp_ends_line: "last (demo_getCurrentTimestamp z ns) = LF"
  by (simp add: demo_getCurrentTimestamp_def ctime_def Let_def)

text \<open>
  C37. A time stamp read back.  Whatever the time zone, reading the time stamp the logger wrote at a
  point in time since 1970 gives that point with its milliseconds and less cut off, plus, in summer
  time, the shift of summer time: the text does not say which of the two it is in, and it is read as
  winter time.
\<close>
theorem timestamp_roundtrip:
  assumes "0 \<le> ns" and "ns \<le> int64_max" and "t = ns div 1000000000"
    and "\<bar>utc_offset z\<bar> \<le> 86400" and "\<bar>summer_shift z\<bar> \<le> 86400"
  shows "parseTimestamp z (Logger_getCurrentTimestamp z ns) =
    from_time_t (t + (if summer z t then summer_shift z else 0))"
proof -
  let ?u = "t + local_offset z t"
  let ?x = "localtime z t"
  have t: "to_time_t ns = t" using assms(1,3) by (simp add: to_time_t_def cut_def)
  have "0 \<le> t" "t \<le> 9223372036"
    using assms(1-3) zdiv_mono1[of ns int64_max 1000000000]
    by (simp_all add: pos_imp_zdiv_nonneg_iff int64_max_def)
  moreover have "\<bar>local_offset z t\<bar> \<le> 172800" using assms(4,5) by (auto simp: local_offset_def)
  ultimately have "- 172800 \<le> ?u" "?u \<le> 9223544836" by linarith+
  then have "- 2 \<le> ?u div 86400" "?u div 86400 < 200000"
    using zdiv_mono1[of "- 172800" ?u 86400] zdiv_mono1[of ?u 9223544836 86400] by simp_all
  moreover obtain d where "year_start (tm_year ?x) + d = ?u div 86400" "0 \<le> d" "d < 366"
    using gmtime_fields(3)[of ?u] unfolding localtime_def by blast
  ultimately have y: "1000 \<le> tm_year ?x \<and> tm_year ?x < 10000" by (intro year_four_digits)
  have "get_time timestamp_format (put_date ?x @ '' '' @ put_clock ?x @ ''.'' @ setw0 3 (milliseconds ns)) tm_zero = ?x"
    using y gmtime_fields(1)[of ?u] by (intro get_time_put) (simp_all add: localtime_def)
  moreover have "dropWhile isspace_c (put_date ?x @ r) = put_date ?x @ r" for r
    using dropWhile_pad[of 4] by (simp add: put_date_def)
  moreover have "mktime z ?x = t + (if summer z t then summer_shift z else 0)"
    by (simp add: mktime_def localtime_def gmtime_fields(2) local_offset_def)
  ultimately show ?thesis
    by (simp add: parseTimestamp_def Logger_getCurrentTimestamp_def t Let_def)
qed

theorem timestamp_roundtrip_witness:
  "parseTimestamp \<lparr>utc_offset = 3600, summer = (\<lambda>t. 1000 \<le> t), summer_shift = 3600\<rparr>
     (Logger_getCurrentTimestamp \<lparr>utc_offset = 3600, summer = (\<lambda>t. 1000 \<le> t), summer_shift = 3600\<rparr> 2000123456789) =
   Some 5600000000000"
  using timestamp_roundtrip[of 2000123456789 2000 "\<lparr>utc_offset = 3600, summer = (\<lambda>t. 1000 \<le> t), summer_shift = 3600\<rparr>"]
  by (simp add: from_time_t_def int64_max_def int64_min_def)

end
