(* ===== verification/CppDouble.thy ===== *)
theory CppDouble
  imports CppString Timestamps Complex_Main
begin

section \<open>The type double\<close>

text \<open>
  The finite numbers of \<^verbatim>\<open>double\<close> have a sign, a mantissa below \<open>2 ^ 53\<close> and an exponent from -1074
  to 971; beside them there are two infinities and NaN, whose sign and payload are left out.  An
  operation computes the exact rational result and rounds it to the nearest number, to the one with
  an even mantissa in the middle between two, as IEEE 754 asks.  All of it computes on natural
  numbers.
\<close>

subsection \<open>Numbers and rounding\<close>

datatype double = Fin bool nat int | Inf bool | NaN

definition d_zero :: "bool \<Rightarrow> double" where
  "d_zero s = Fin s 0 (- 1074)"

definition round_half_even :: "nat \<Rightarrow> nat \<Rightarrow> nat" where
  "round_half_even a b =
     (let q = a div b; r = a mod b in
      if 2 * r < b then q else if 2 * r > b then q + 1 else if even q then q else q + 1)"

text \<open>The number of binary digits.\<close>

fun blen :: "nat \<Rightarrow> nat" where
  "blen n = (if n = 0 then 0 else Suc (blen (n div 2)))"

declare blen.simps [simp del]

text \<open>\<open>a / b\<close> divided by \<open>2 ^ e\<close>, as a fraction.\<close>

definition scaled :: "nat \<Rightarrow> nat \<Rightarrow> int \<Rightarrow> nat \<times> nat" where
  "scaled a b e = (if 0 \<le> e then (a, b * 2 ^ nat e) else (a * 2 ^ nat (- e), b))"

text \<open>The exponent of the largest power of two that is at most \<open>a / b\<close>.\<close>

definition ilog2 :: "nat \<Rightarrow> nat \<Rightarrow> int" where
  "ilog2 a b =
     (let k = int (blen a) - int (blen b) in
      case scaled a b k of (p, q) \<Rightarrow> if q \<le> p then k else k - 1)"

definition fround :: "bool \<Rightarrow> nat \<Rightarrow> nat \<Rightarrow> double" where
  "fround s a b =
     (if a = 0 then d_zero s
      else
        let e = max (- 1074) (ilog2 a b - 52);
            m = (case scaled a b e of (p, q) \<Rightarrow> round_half_even p q)
        in if m = 2 ^ 53 then (if e = 971 then Inf s else Fin s (2 ^ 52) (e + 1))
           else if e > 971 then Inf s else Fin s m e)"

definition d_of_nat :: "nat \<Rightarrow> double" where
  "d_of_nat n = fround False n 1"

definition d_of_int :: "int \<Rightarrow> double" where
  "d_of_int i = fround (i < 0) (nat \<bar>i\<bar>) 1"

subsection \<open>Arithmetic\<close>

text \<open>The absolute value of a finite number as a fraction.\<close>

definition num :: "nat \<Rightarrow> int \<Rightarrow> nat" where
  "num m e = (if 0 \<le> e then m * 2 ^ nat e else m)"

definition den :: "int \<Rightarrow> nat" where
  "den e = (if 0 \<le> e then 1 else 2 ^ nat (- e))"

definition signed :: "bool \<Rightarrow> nat \<Rightarrow> int" where
  "signed s a = (if s then - int a else int a)"

fun d_neg :: "double \<Rightarrow> double" where
  "d_neg (Fin s m e) = Fin (\<not> s) m e"
| "d_neg (Inf s) = Inf (\<not> s)"
| "d_neg NaN = NaN"

fun d_add :: "double \<Rightarrow> double \<Rightarrow> double" where
  "d_add (Fin s m e) (Fin t k f) =
     (let n = signed s (num m e * den f) + signed t (num k f * den e) in
      if n = 0 then d_zero (s \<and> t) else fround (n < 0) (nat \<bar>n\<bar>) (den e * den f))"
| "d_add (Fin s m e) (Inf t) = Inf t"
| "d_add (Inf s) (Fin t k f) = Inf s"
| "d_add (Inf s) (Inf t) = (if s = t then Inf s else NaN)"
| "d_add NaN y = NaN"
| "d_add x NaN = NaN"

definition d_sub :: "double \<Rightarrow> double \<Rightarrow> double" where
  "d_sub x y = d_add x (d_neg y)"

fun d_mul :: "double \<Rightarrow> double \<Rightarrow> double" where
  "d_mul (Fin s m e) (Fin t k f) = fround (s \<noteq> t) (num m e * num k f) (den e * den f)"
| "d_mul (Fin s m e) (Inf t) = (if m = 0 then NaN else Inf (s \<noteq> t))"
| "d_mul (Inf s) (Fin t k f) = (if k = 0 then NaN else Inf (s \<noteq> t))"
| "d_mul (Inf s) (Inf t) = Inf (s \<noteq> t)"
| "d_mul NaN y = NaN"
| "d_mul x NaN = NaN"

fun d_div :: "double \<Rightarrow> double \<Rightarrow> double" where
  "d_div (Fin s m e) (Fin t k f) =
     (if k = 0 then (if m = 0 then NaN else Inf (s \<noteq> t))
      else fround (s \<noteq> t) (num m e * den f) (den e * num k f))"
| "d_div (Fin s m e) (Inf t) = d_zero (s \<noteq> t)"
| "d_div (Inf s) (Fin t k f) = Inf (s \<noteq> t)"
| "d_div (Inf s) (Inf t) = NaN"
| "d_div NaN y = NaN"
| "d_div x NaN = NaN"

fun d_less :: "double \<Rightarrow> double \<Rightarrow> bool" where
  "d_less (Fin s m e) (Fin t k f) = (signed s (num m e * den f) < signed t (num k f * den e))"
| "d_less (Fin s m e) (Inf t) = (\<not> t)"
| "d_less (Inf s) (Fin t k f) = s"
| "d_less (Inf s) (Inf t) = (s \<and> \<not> t)"
| "d_less NaN y = False"
| "d_less x NaN = False"

definition d_le :: "double \<Rightarrow> double \<Rightarrow> bool" where
  "d_le x y \<longleftrightarrow> x \<noteq> NaN \<and> y \<noteq> NaN \<and> \<not> d_less y x"

text \<open>
  The square root.  The mantissa is widened to 105 or 106 digits so that the exponent is even; the
  root then has 53 digits, and is never in the middle between two numbers.
\<close>

fun isqrt :: "nat \<Rightarrow> nat" where
  "isqrt n = (if n = 0 then 0 else
     let r = 2 * isqrt (n div 4) in if (r + 1) * (r + 1) \<le> n then r + 1 else r)"

declare isqrt.simps [simp del]

fun d_sqrt :: "double \<Rightarrow> double" where
  "d_sqrt (Fin s m e) =
     (if m = 0 then Fin s m e
      else if s then NaN
      else
        let j0 = 105 - blen m; j = (if even (e - int j0) then j0 else j0 + 1);
            n = m * 2 ^ j; r = isqrt n; f = (e - int j) div 2;
            k = (if r * r + r < n then r + 1 else r)
        in if k = 2 ^ 53 then Fin False (2 ^ 52) (f + 1) else Fin False k f)"
| "d_sqrt (Inf s) = (if s then NaN else Inf s)"
| "d_sqrt NaN = NaN"

subsection \<open>Writing a number\<close>

text \<open>\<^verbatim>\<open>std::fixed << std::setprecision(p)\<close>: the exact value, rounded to p decimals.\<close>

definition fixed_text :: "nat \<Rightarrow> nat \<Rightarrow> nat \<Rightarrow> string" where
  "fixed_text p a b =
     (let q = round_half_even (a * 10 ^ p) b in
      nat_to_string (q div 10 ^ p) @ (if p = 0 then '''' else ''.'' @ pad p (q mod 10 ^ p)))"

fun print_fixed :: "nat \<Rightarrow> double \<Rightarrow> string" where
  "print_fixed p (Fin s m e) = (if s then ''-'' else '''') @ fixed_text p (num m e) (den e)"
| "print_fixed p (Inf s) = (if s then ''-inf'' else ''inf'')"
| "print_fixed p NaN = ''nan''"

subsection \<open>Rounding leaves a number alone\<close>

text \<open>\<open>val m e\<close> is the number with mantissa m and exponent e.\<close>

definition val :: "nat \<Rightarrow> int \<Rightarrow> real" where
  "val m e = real m * 2 powi e"

lemma blen_1: "blen (Suc 0) = Suc 0"
  by (subst blen.simps, simp, subst blen.simps, simp)

lemma blen_bounds: "0 < n \<Longrightarrow> 0 < blen n \<and> 2 ^ (blen n - 1) \<le> n \<and> n < 2 ^ blen n"
proof (induction n rule: blen.induct)
  case (1 n)
  show ?case
  proof (cases "n div 2 = 0")
    case True
    with 1 have "n = 1" by simp
    then show ?thesis using blen_1 by simp
  next
    case False
    let ?k = "blen (n div 2)"
    have IH: "0 < ?k" "2 ^ (?k - 1) \<le> n div 2" "n div 2 < 2 ^ ?k" using 1 False by auto
    then have "2 * 2 ^ (?k - 1) = (2::nat) ^ ?k" by (metis Suc_diff_1 power_Suc)
    moreover have "n div 2 * 2 \<le> n" "n < n div 2 * 2 + 2" by auto
    ultimately have "2 ^ ?k \<le> n" "n < 2 * 2 ^ ?k" using IH by linarith+
    then show ?thesis using 1(2) by (subst (1 2 3) blen.simps) simp
  qed
qed

lemma power_int_unique:
  assumes "(2::real) powi i \<le> x" "x < 2 powi (i + 1)" "2 powi j \<le> x" "x < 2 powi (j + 1)"
  shows "i = j"
proof -
  have "\<not> i + 1 \<le> j" using power_int_increasing[of "i + 1" j "2::real"] assms by auto
  moreover have "\<not> j + 1 \<le> i" using power_int_increasing[of "j + 1" i "2::real"] assms by auto
  ultimately show ?thesis by linarith
qed

lemma scaled_ratio:
  assumes "scaled a b e = (p, q)" and "0 < b"
  shows "0 < q \<and> real p = real a / real b * 2 powi (- e) * real q"
proof (cases "0 \<le> e")
  case True
  then have "(2::real) powi (- e) * 2 ^ nat e = 1" by (simp add: power_int_minus power_int_def field_simps)
  with True assms show ?thesis by (auto simp: scaled_def field_simps)
next
  case False
  then have "(2::real) powi (- e) = 2 ^ nat (- e)" by (simp add: power_int_def)
  with False assms show ?thesis by (auto simp: scaled_def field_simps)
qed

lemma ilog2_bounds:
  assumes "0 < a" and "0 < b"
  shows "2 powi ilog2 a b \<le> real a / real b \<and> real a / real b < 2 powi (ilog2 a b + 1)"
proof -
  let ?k = "int (blen a) - int (blen b)"
  obtain p q where pq: "scaled a b ?k = (p, q)" by fastforce
  note r = scaled_ratio[OF pq assms(2)]
  have inv: "1 \<le> y * inverse P \<longleftrightarrow> P \<le> y" if "0 < P" for P y :: real
    using that by (simp add: field_simps)
  obtain x where x: "x = real a / real b * 2 powi (- ?k)" by blast
  have "q \<le> p \<longleftrightarrow> real q \<le> x * real q" using r x by (metis of_nat_le_iff)
  also have "\<dots> \<longleftrightarrow> 1 \<le> x" using r mult_le_cancel_right_pos[of "real q" 1 x] by simp
  also have "\<dots> \<longleftrightarrow> 2 powi ?k \<le> real a / real b"
    unfolding x power_int_minus using inv[of "2 powi ?k" "real a / real b"] by simp
  finally have test: "q \<le> p \<longleftrightarrow> 2 powi ?k \<le> real a / real b" .
  have A: "0 < blen a" "2 ^ (blen a - 1) \<le> a" "a < 2 ^ blen a" using blen_bounds[OF assms(1)] by auto
  have B: "0 < blen b" "2 ^ (blen b - 1) \<le> b" "b < 2 ^ blen b" using blen_bounds[OF assms(2)] by auto
  have int: "2 powi (int n - 1) = (2::real) ^ (n - 1)" if "0 < n" for n
    using that by (metis One_nat_def Suc_leI of_nat_1 of_nat_diff power_int_of_nat)
  have a: "2 powi (int (blen a) - 1) \<le> real a" "real a < 2 powi int (blen a)"
    using A by (simp_all add: int)
  have b: "2 powi (int (blen b) - 1) \<le> real b" "real b < 2 powi int (blen b)"
    using B by (simp_all add: int)
  have "2 powi (?k - 1) * real b \<le> 2 powi (?k - 1) * 2 powi int (blen b)"
    using b(2) by (intro mult_left_mono) simp_all
  also have "\<dots> = 2 powi (?k - 1 + int (blen b))" by (rule power_int_add[symmetric]) simp
  also have "?k - 1 + int (blen b) = int (blen a) - 1" by simp
  finally have low: "2 powi (?k - 1) \<le> real a / real b" using a(1) assms(2) by (simp add: field_simps)
  have "int (blen a) = ?k + 1 + (int (blen b) - 1)" by simp
  then have "2 powi int (blen a) = 2 powi (?k + 1) * (2::real) powi (int (blen b) - 1)"
    by (metis power_int_add zero_neq_numeral)
  also have "\<dots> \<le> 2 powi (?k + 1) * real b" using b(1) by (intro mult_left_mono) simp_all
  finally have "real a < 2 powi (?k + 1) * real b" using a(2) by linarith
  then have high: "real a / real b < 2 powi (?k + 1)" using assms(2) by (simp add: field_simps)
  have "ilog2 a b = (if q \<le> p then ?k else ?k - 1)" using pq by (simp add: ilog2_def)
  then show ?thesis using test low high by (cases "q \<le> p") auto
qed

lemma round_half_even_exact: "0 < b \<Longrightarrow> round_half_even (m * b) b = m"
  by (simp add: round_half_even_def Let_def)

lemma fround_exact:
  assumes "0 < a" "0 < b" "real a / real b = val m e" "2 ^ 52 \<le> m" "m < 2 ^ 53" "- 1074 \<le> e" "e \<le> 971"
  shows "fround s a b = Fin s m e"
proof -
  have "real (2 ^ 52) \<le> real m" "real m < real (2 ^ 53)" using assms(4,5) by (simp_all only: of_nat_le_iff of_nat_less_iff)
  then have m: "(2::real) powi 52 \<le> real m" "real m < 2 powi 53" by (simp_all add: power_int_numeral)
  have "2 powi (e + 52) \<le> val m e" "val m e < 2 powi (e + 52 + 1)"
    using mult_right_mono[OF m(1), of "2 powi e"] mult_strict_right_mono[OF m(2), of "2 powi e"]
    by (simp_all add: val_def power_int_add[symmetric] add.commute del: power_int_numeral)
  with ilog2_bounds[OF assms(1,2)] assms(3) have l: "ilog2 a b = e + 52"
    by (intro power_int_unique) auto
  obtain p q where pq: "scaled a b e = (p, q)" by fastforce
  have "val m e * 2 powi (- e) = real m" by (simp add: val_def power_int_minus)
  with scaled_ratio[OF pq assms(2)] assms(3) have "0 < q" "real p = real m * real q" by simp_all
  then have "0 < q" "p = m * q" by (simp_all flip: of_nat_mult)
  then have "round_half_even p q = m" by (simp add: round_half_even_exact)
  with l pq assms show ?thesis by (simp add: fround_def Let_def)
qed

subsection \<open>Values\<close>

lemma ratio_val: "real (num m e) / real (den e) = val m e" "0 < den e"
  by (simp_all add: num_def den_def val_def power_int_def field_simps)

lemma num_pos: "0 < m \<Longrightarrow> 0 < num m e"
  by (simp add: num_def)

definition normal :: "nat \<Rightarrow> int \<Rightarrow> bool" where
  "normal m e \<longleftrightarrow> 2 ^ 52 \<le> m \<and> m < 2 ^ 53 \<and> - 1074 \<le> e \<and> e \<le> 971"

lemma d_of_nat_exact:
  assumes "0 < n" and "n < 2 ^ 53"
  shows "\<exists>m e. d_of_nat n = Fin False m e \<and> normal m e \<and> - 52 \<le> e \<and> e \<le> 0 \<and> val m e = real n"
proof -
  let ?k = "53 - blen n" and ?e = "int (blen n) - 53"
  note b = blen_bounds[OF assms(1)]
  have le: "blen n \<le> 53"
  proof (rule ccontr)
    assume "\<not> blen n \<le> 53"
    then have "(2::nat) ^ 53 \<le> 2 ^ (blen n - 1)" by (intro power_increasing) simp_all
    with b assms(2) show False by linarith
  qed
  have "(2::nat) ^ 52 = 2 ^ (blen n - 1) * 2 ^ ?k" using b le by (simp flip: power_add)
  also have "\<dots> \<le> n * 2 ^ ?k" using b by (intro mult_right_mono) simp_all
  finally have lo: "2 ^ 52 \<le> n * 2 ^ ?k" .
  have "n * 2 ^ ?k < 2 ^ blen n * 2 ^ ?k" using b by simp
  also have "\<dots> = (2::nat) ^ 53" using le by (simp flip: power_add)
  finally have hi: "n * 2 ^ ?k < 2 ^ 53" .
  have nm: "normal (n * 2 ^ ?k) ?e" "- 52 \<le> ?e" "?e \<le> 0" using b le lo hi by (simp_all add: normal_def)
  have "int ?k = - ?e" using le by simp
  then have "(2::real) ^ ?k = 2 powi (- ?e)" by (metis power_int_of_nat)
  moreover have "(2::real) powi (- ?e) * 2 powi ?e = 2 powi (- ?e + ?e)" by (rule power_int_add[symmetric]) simp
  ultimately have "(2::real) ^ ?k * 2 powi ?e = 1" by simp
  then have v: "val (n * 2 ^ ?k) ?e = real n" by (simp only: val_def of_nat_mult of_nat_power of_nat_numeral mult.assoc)
  have "d_of_nat n = Fin False (n * 2 ^ ?k) ?e"
    unfolding d_of_nat_def using nm v assms(1) by (intro fround_exact) (simp_all add: normal_def)
  with nm v show ?thesis by blast
qed

lemma d_of_nat_1024: "d_of_nat 1024 = Fin False (2 ^ 52) (- 42)"
  unfolding d_of_nat_def by (rule fround_exact) (simp_all add: val_def power_int_minus)

lemma div_1024:
  assumes "normal m e" and "- 1064 \<le> e"
  shows "d_div (Fin False m e) (d_of_nat 1024) = Fin False m (e - 10)"
proof -
  have m: "0 < m" using assms(1) by (simp add: normal_def)
  have "real (num m e * den (- 42)) / real (den e * num (2 ^ 52) (- 42)) =
      (real (num m e) / real (den e)) / (real (num (2 ^ 52) (- 42)) / real (den (- 42)))" by simp
  also have "\<dots> = val m e / val (2 ^ 52) (- 42)" by (simp only: ratio_val)
  also have "val (2 ^ 52) (- 42) = 2 powi 10" by (simp add: val_def power_int_minus)
  also have "val m e / 2 powi 10 = val m (e - 10)" by (simp add: val_def power_int_diff)
  finally have "fround False (num m e * den (- 42)) (den e * num (2 ^ 52) (- 42)) = Fin False m (e - 10)"
    using assms m by (intro fround_exact) (simp_all add: normal_def ratio_val num_pos)
  then show ?thesis by (simp add: d_of_nat_1024)
qed

lemma le_1024: "d_le (d_of_nat 1024) (Fin False m e) \<longleftrightarrow> 1024 \<le> val m e"
proof -
  have "d_le (d_of_nat 1024) (Fin False m e) \<longleftrightarrow> num (2 ^ 52) (- 42) * den e \<le> num m e * den (- 42)"
    by (simp add: d_le_def d_of_nat_1024 signed_def not_less flip: of_nat_mult)
  also have "\<dots> \<longleftrightarrow> real (num (2 ^ 52) (- 42)) * real (den e) \<le> real (num m e) * real (den (- 42))"
    by (simp flip: of_nat_mult)
  also have "\<dots> \<longleftrightarrow> real (num (2 ^ 52) (- 42)) / real (den (- 42)) \<le> real (num m e) / real (den e)"
    using ratio_val(2)[of e] ratio_val(2)[of "- 42"] by (simp add: field_simps)
  also have "\<dots> \<longleftrightarrow> 1024 \<le> val m e" unfolding ratio_val by (simp add: val_def power_int_minus)
  finally show ?thesis .
qed

subsection \<open>Decimals depend on the value only\<close>

lemma round_half_even_scale: "0 < c \<Longrightarrow> round_half_even (a * c) (b * c) = round_half_even a b"
  by (simp add: round_half_even_def Let_def mult.commute[of _ c] mult_mod_right[symmetric])

lemma fixed_text_ratio:
  assumes "0 < b" "0 < b'" "a * b' = a' * b"
  shows "fixed_text p a b = fixed_text p a' b'"
proof -
  have "round_half_even (a * 10 ^ p) b = round_half_even (a * 10 ^ p * b') (b * b')"
    by (simp only: round_half_even_scale[OF assms(2)])
  also have "a * 10 ^ p * b' = a' * 10 ^ p * b" using assms(3) by (simp add: ac_simps)
  also have "b * b' = b' * b" by simp
  also have "round_half_even (a' * 10 ^ p * b) (b' * b) = round_half_even (a' * 10 ^ p) b'"
    by (simp only: round_half_even_scale[OF assms(1)])
  finally show ?thesis by (simp only: fixed_text_def)
qed

lemma pad_2: "pad 2 n = [digit_char (n div 10 mod 10), digit_char (n mod 10)]"
  by (simp add: numeral_2_eq_2)

end
