(* ===== verification/ServerLife.thy ===== *)
theory ServerLife
  imports RedisService CppDouble
begin

section \<open>The life of the process behind its start (test/main.cpp, skiplist\_server.cpp)\<close>

text \<open>
  What main does once the server is up: the waiting loop with its line of statistics, the signal
  handler, and the deletion of the server.  What the other threads do to the server during the
  i-th second is an argument of the loop.  The signal is taken by the thread that runs main, which
  sleeps nearly all of the time; a signal that another thread takes is not modelled.
\<close>

subsection \<open>Help and version\<close>

definition showHelp :: "string list" where
  "showHelp =
     [''SkipList Redis Server v1.0.0'', ''Usage: ./SkipListProject [options]'', '''', ''Options:'',
      ''  -c, --config <file>     Configuration file path'',
      ''  -p, --port <port>       Server port (default: 6379)'',
      ''  -h, --host <host>       Server host (default: 0.0.0.0)'',
      ''  -l, --log-level <level> Log level (DEBUG|INFO|WARN|ERROR|FATAL)'',
      ''  -d, --daemon            Run as daemon'',
      ''  -v, --version           Show version information'',
      ''  --help                  Show this help message'', '''', ''Examples:'',
      ''  ./SkipListProject                    # Start with default settings'',
      ''  ./SkipListProject -p 6380           # Start on port 6380'',
      ''  ./SkipListProject -c config.conf    # Start with config file'',
      ''  ./SkipListProject -l DEBUG          # Start with debug logging'', '''',
      ''Redis Commands Supported:'', ''  PING, ECHO, SET, GET, DEL, EXISTS, KEYS, FLUSH'',
      ''  SAVE, LOAD, INFO, CONFIG, SELECT, AUTH, QUIT'', '''', ''Configuration:'',
      ''  Server can be configured via:'', ''  1. Command line arguments'', ''  2. Configuration file'',
      ''  3. Environment variables'', '''', ''Environment Variables:'', ''  SKIPLIST_PORT=6379'',
      ''  SKIPLIST_HOST=0.0.0.0'', ''  SKIPLIST_MAX_CONNECTIONS=1000'', ''  SKIPLIST_THREAD_POOL_SIZE=4'',
      ''  SKIPLIST_MAX_LEVEL=18'', ''  SKIPLIST_LOG_LEVEL=INFO'', ''  SKIPLIST_LOG_FILE=logs/skiplist.log'']"

definition showVersion :: "string list" where
  "showVersion =
     [''SkipList Redis Server v1.0.0'', ''Built with C++17'', ''Features:'',
      ''  - SkipList data structure implementation'', ''  - Redis protocol compatibility (RESP)'',
      ''  - Multi-threaded network server'', ''  - Configurable logging system'', ''  - Data persistence'',
      ''  - Performance monitoring'', ''  - Graceful shutdown'']"

subsection \<open>Statistics\<close>

text \<open>
  \<^verbatim>\<open>std::cout << uptime_seconds\<close> prints a double with six significant digits: a whole number below
  a million in full, above it in scientific form, rounded half to even, without trailing zeros.
  The second argument is the number of digits of n.
\<close>

definition scientific :: "nat \<Rightarrow> nat \<Rightarrow> string" where
  "scientific n digits =
     (let m0 = round_half_even n (10 ^ (digits - 6));
          m = (if m0 = 1000000 then 100000 else m0);
          ex = (if m0 = 1000000 then digits else digits - 1);
          ds = nat_to_string m;
          frac = rev (dropWhile (\<lambda>c. c = CHR ''0'') (rev (tl ds)))
      in [List.hd ds] @ (if frac = [] then '''' else ''.'' @ frac) @ ''e+'' @
         (if ex < 10 then ''0'' else '''') @ nat_to_string ex)"

definition show_whole_double :: "int \<Rightarrow> string" where
  "show_whole_double n =
     (if n < 0 then ''-'' else '''') @
     (let m = nat \<bar>n\<bar> in
      if m < 1000000 then nat_to_string m else scientific m (length (nat_to_string m)))"

record server_stats =
  st_uptime :: int
  st_connections :: nat
  st_commands :: nat

definition getStats :: "server \<Rightarrow> server_stats" where
  "getStats s = \<lparr>st_uptime = srv_uptime s, st_connections = srv_connections s,
     st_commands = unat (srv_total_commands s)\<rparr>"

definition stats_line :: "server_stats \<Rightarrow> string" where
  "stats_line st = ''Server Stats - Uptime: '' @ show_whole_double (st_uptime st) @ ''s, Connections: '' @
     nat_to_string (st_connections st) @ '', Commands: '' @ nat_to_string (st_commands st)"

text \<open>What main prints of the configuration before it starts the server.\<close>

definition startup_banner :: "config \<Rightarrow> string list" where
  "startup_banner c =
     [''Server Configuration:'', ''  Host: '' @ host (server_cfg c),
      ''  Port: '' @ int_to_string (port (server_cfg c)),
      ''  Max Connections: '' @ int_to_string (max_connections (server_cfg c)),
      ''  Thread Pool Size: '' @ int_to_string (thread_pool_size (server_cfg c)),
      ''  Log Level: '' @ cfg_log_level (log_cfg c), ''  Log File: '' @ cfg_log_file (log_cfg c),
      ''  Data File: '' @ data_file (skiplist_cfg c), '''']"

subsection \<open>Signals\<close>

text \<open>
  \<^verbatim>\<open>init\<close> registers the handler for SIGINT, SIGTERM and SIGQUIT, and main registers it for the first two
  again.  A signal without a handler ends the process at once.
\<close>

definition setupSignalHandlers :: "int list \<Rightarrow> int list" where
  "setupSignalHandlers sigs = sigs @ [2, 15, 3]"

definition main_signals :: "int list" where
  "main_signals = setupSignalHandlers [] @ [2, 15]"

definition signal_line :: "int \<Rightarrow> string" where
  "signal_line sig = ''Received signal '' @ int_to_string sig @ '', shutting down gracefully...''"

definition signalHandler :: "senv \<Rightarrow> string list \<Rightarrow> int \<Rightarrow> string list \<Rightarrow> server \<Rightarrow>
    (exn \<times> string list \<times> server, string list \<times> server) outcome" where
  "signalHandler env late sig out s =
     (let out1 = out @ ['''', signal_line sig] in
      case server_stop env late s of
        Ok (u, s1) \<Rightarrow> Ok (out1, s1) | Throw (e, s1) \<Rightarrow> Throw (e, out1, s1) | Fault d \<Rightarrow> Fault d)"

subsection \<open>The waiting loop\<close>

text \<open>
  The signal arrives in the sleep of the round in which n is 0, after which the round goes on; i
  rounds have passed, counter is the static counter of the loop, and out what was printed.  The
  server may also be stopped by another thread, which ends the loop.  A signal without a handler ends
  the process in the sleep, and the loop returns its number.
\<close>

definition round_end :: "nat \<Rightarrow> string list \<Rightarrow> server \<Rightarrow> nat \<times> string list" where
  "round_end counter out s =
     (if counter + 1 \<ge> 60 then (0, out @ [stats_line (getStats s)]) else (counter + 1, out))"

fun main_loop :: "senv \<Rightarrow> (nat \<Rightarrow> server \<Rightarrow> server) \<Rightarrow> string list \<Rightarrow> int \<Rightarrow> nat \<Rightarrow> nat \<Rightarrow> nat \<Rightarrow> string list \<Rightarrow>
    server \<Rightarrow> (exn \<times> string list \<times> server, int option \<times> string list \<times> server) outcome" where
  "main_loop env bg late sig 0 i counter out s =
     (if \<not> srv_running s then Ok (None, out, s)
      else if sig \<notin> set main_signals then Ok (Some sig, out, bg i s)
      else obind (signalHandler env late sig out (bg i s)) (\<lambda>(out1, s1).
        Ok (None, snd (round_end counter out1 s1), s1)))"
| "main_loop env bg late sig (Suc n) i counter out s =
     (if \<not> srv_running s then Ok (None, out, s)
      else case round_end counter out (bg i s) of (counter1, out1) \<Rightarrow>
        main_loop env bg late sig n (i + 1) counter1 out1 (bg i s))"

subsection \<open>Deleting the server\<close>

text \<open>
  \<^verbatim>\<open>~SkipListServer\<close> stops the server if it runs; then its members go: the command handler, and after
  it the TCP server.
\<close>

definition SkipListServer_destroy :: "senv \<Rightarrow> string list \<Rightarrow> unit server_op" where
  "SkipListServer_destroy env late s =
     obind (server_stop env late s) (\<lambda>(u, s1).
       case RedisHandler_destroy (sv_tcp env) (redis s1) of
         Ok h \<Rightarrow> Ok ((), s1\<lparr>redis := h, tcp_server := None\<rparr>)
       | Throw e \<Rightarrow> Throw (e, s1)
       | Fault d \<Rightarrow> Fault d)"

datatype ending = Returned int | Killed int

text \<open>
  main from its waiting loop to its return.  A stopped server has left its loop, since \<^verbatim>\<open>stop\<close> resets
  the flag the loop tests.
\<close>

definition main_rest :: "senv \<Rightarrow> (nat \<Rightarrow> server \<Rightarrow> server) \<Rightarrow> string list \<Rightarrow> int \<Rightarrow> nat \<Rightarrow> string list \<Rightarrow> server \<Rightarrow>
    (exn \<times> server, ending \<times> string list \<times> server) outcome" where
  "main_rest env bg late sig n out0 s =
     (let out = out0 @ [''Server started successfully!'', ''Use Ctrl+C to stop the server'', ''''] in
      case main_loop env bg late sig n 0 0 out s of
        Ok (Some g, out1, s1) \<Rightarrow> Ok (Killed g, out1, s1)
      | Ok (None, out1, s1) \<Rightarrow> obind (SkipListServer_destroy env late s1) (\<lambda>(u, s2).
            Ok (Returned 0, out1 @ [''Server stopped.''], s2))
      | Throw (e, out1, s1) \<Rightarrow> obind (SkipListServer_destroy env late s1) (\<lambda>(u, s2).
            Ok (Returned 1, out1 @ [''Fatal error: '' @ what e], s2))
      | Fault d \<Rightarrow> Fault d)"

subsection \<open>Shutting down\<close>

text \<open>
  A server that runs with a sound handler, and whose stop will not wait for ever: the joins end.
\<close>

definition server_live :: "senv \<Rightarrow> server \<Rightarrow> bool" where
  "server_live env s \<longleftrightarrow> srv_running s \<and> joins_end (sv_tcp env) \<and> handler_ok (sv_henv env) (redis s)"

lemma slog_Ok:
  assumes "handler_ok (sv_henv env) (redis s)"
  obtains l where "slog env lv m s = Ok ((), s\<lparr>redis := (redis s)\<lparr>lgr := l\<rparr>\<rparr>)"
    "handler_ok (sv_henv env) ((redis s)\<lparr>lgr := l\<rparr>)"
proof -
  have "log_quiet (lgr (redis s))" using assms by (simp add: handler_ok_def)
  from log_quiet_Ok[OF this, of "lenv (sv_henv env)" lv m] obtain l where
    l: "log_message (lenv (sv_henv env)) lv m (lgr (redis s)) = Ok l" "log_quiet l" by blast
  with assms that[of l] show thesis by (simp add: slog_def on_logger_def handler_ok_def)
qed

text \<open>
  What a stop of s leaves behind: a server that does not run, with the dump of its list on the disk; u is
  the server when it saves.
\<close>

definition stopped_from :: "senv \<Rightarrow> string list \<Rightarrow> server \<Rightarrow> server \<Rightarrow> bool" where
  "stopped_from env late s t \<longleftrightarrow> \<not> srv_running t \<and> handler_ok (sv_henv env) (redis t) \<and>
     (\<exists>u l. stop_until_save env late s = Ok ((), u) \<and> store (redis u) = Some l \<and>
        store_ok (env_rand (sv_henv env)) l \<and> dump_file l (store_disk (redis u)) = Ok (store_disk (redis t)))"

lemma late_messages_Ok:
  "handler_ok (sv_henv env) (redis s) \<Longrightarrow>
    \<exists>t. late_messages env late s = Ok ((), t) \<and> handler_ok (sv_henv env) (redis t) \<and> srv_running t = srv_running s"
proof (induction late arbitrary: s)
  case (Cons m late)
  obtain r h where "handleCommand (sv_henv env) m (redis s) = Ok (r, h)" "handler_ok (sv_henv env) h"
    using handleCommand_safe[OF Cons.prems] by blast
  with Cons.IH[of "s\<lparr>srv_total_commands := srv_total_commands s + 1, redis := h\<rparr>"] show ?case
    by (simp add: handleMessage_def on_redis_def)
qed simp

lemma stop_until_save_Ok:
  assumes "server_live env s"
  shows "\<exists>u. stop_until_save env late s = Ok ((), u) \<and> handler_ok (sv_henv env) (redis u) \<and> \<not> srv_running u"
proof -
  have ok: "handler_ok (sv_henv env) (redis s)" "joins_end (sv_tcp env)" using assms by (simp_all add: server_live_def)
  obtain l where l: "slog env INFO ''Stopping SkipList server...'' s = Ok ((), s\<lparr>redis := (redis s)\<lparr>lgr := l\<rparr>\<rparr>)"
    "handler_ok (sv_henv env) ((redis s)\<lparr>lgr := l\<rparr>)" using slog_Ok[OF ok(1)] by blast
  let ?s = "s\<lparr>redis := (redis s)\<lparr>lgr := l\<rparr>, srv_running := False, tcp_server := map_option tcp_stopped (tcp_server s),
      persistence_thread := False, monitor_thread := False\<rparr>"
  have "handler_ok (sv_henv env) (redis ?s)" using l(2) by simp
  from late_messages_Ok[OF this, of late] show ?thesis using l(1) ok(2) by (auto simp: stop_until_save_def)
qed

lemma server_stop_Ok:
  assumes "server_live env s"
  shows "\<exists>t. server_stop env late s = Ok ((), t) \<and> stopped_from env late s t"
proof -
  obtain u where u: "stop_until_save env late s = Ok ((), u)" "handler_ok (sv_henv env) (redis u)" "\<not> srv_running u"
    using stop_until_save_Ok[OF assms] by blast
  obtain l where l: "store (redis u) = Some l" "store_ok (env_rand (sv_henv env)) l"
    using u(2) by (auto simp: handler_ok_def)
  obtain d where d: "dump_file l (store_disk (redis u)) = Ok d"
    using l(2) by (auto simp: store_ok_def dump_file_def wf_level_items)
  have "handler_ok (sv_henv env) ((redis u)\<lparr>store_disk := d\<rparr>)" using u(2) by (rule handler_ok_frame) simp_all
  from log_at_Ok[OF this, of INFO "''Data saved to file''"] obtain l2 where
    l2: "log_at (sv_henv env) INFO ''Data saved to file'' ((redis u)\<lparr>store_disk := d\<rparr>) =
      Ok ((), (redis u)\<lparr>store_disk := d, lgr := l2\<rparr>)"
    "handler_ok (sv_henv env) ((redis u)\<lparr>store_disk := d, lgr := l2\<rparr>)" by auto
  let ?s3 = "u\<lparr>redis := (redis u)\<lparr>store_disk := d, lgr := l2\<rparr>\<rparr>"
  have save: "on_redis (saveData (sv_henv env)) u = Ok ((), ?s3)"
    using l(1) d l2(1) by (simp add: on_redis_def saveData_def)
  have ok3: "handler_ok (sv_henv env) (redis ?s3)" using l2(2) by simp
  obtain l3 where l3: "slog env INFO ''SkipList server stopped'' ?s3 = Ok ((), ?s3\<lparr>redis := (redis ?s3)\<lparr>lgr := l3\<rparr>\<rparr>)"
    "handler_ok (sv_henv env) ((redis ?s3)\<lparr>lgr := l3\<rparr>)" using slog_Ok[OF ok3] by blast
  have "server_stop env late s = Ok ((), ?s3\<lparr>redis := (redis ?s3)\<lparr>lgr := l3\<rparr>\<rparr>)"
    using assms u(1) save l3(1) by (simp add: server_stop_def server_live_def)
  moreover have "stopped_from env late s (?s3\<lparr>redis := (redis ?s3)\<lparr>lgr := l3\<rparr>\<rparr>)"
    using u(1,3) l3(2) l d by (simp add: stopped_from_def)
  ultimately show ?thesis by blast
qed

lemma RedisHandler_destroy_Ok:
  assumes "store h = Some l" "wf_skiplist l" "joins_end tenv"
  shows "\<exists>h'. RedisHandler_destroy tenv h = Ok h' \<and> store h' = None \<and> store_disk h' = store_disk h \<and>
    \<not> registered h'"
proof -
  have l: "SkipList_destroy l = Ok Map.empty" using destroy_inv assms(2) by (auto simp: wf_skiplist_def)
  have "(case replication h of Some r \<Rightarrow> ReplicationManager_destroy tenv r | None \<Rightarrow> Ok ()) = Ok ()"
    using assms(3) by (simp add: ReplicationManager_destroy_def stop_call_def split: option.split)
  with l assms(1) show ?thesis by (simp add: RedisHandler_destroy_def Let_def aof_flush_def)
qed

lemma server_delete_Ok:
  assumes "\<not> srv_running s" "handler_ok (sv_henv env) (redis s)" "joins_end (sv_tcp env)"
  shows "\<exists>t. SkipListServer_destroy env late s = Ok ((), t) \<and> store_disk (redis t) = store_disk (redis s) \<and>
    store (redis t) = None \<and> tcp_server t = None"
proof -
  obtain l where "store (redis s) = Some l" "wf_skiplist l"
    using assms(2) by (auto simp: handler_ok_def store_ok_def)
  from RedisHandler_destroy_Ok[OF this assms(3)] assms(1) show ?thesis
    by (auto simp: SkipListServer_destroy_def server_stop_def)
qed

text \<open>The server when the signal arrives, n rounds from now.\<close>

fun at_signal :: "(nat \<Rightarrow> server \<Rightarrow> server) \<Rightarrow> nat \<Rightarrow> nat \<Rightarrow> server \<Rightarrow> server" where
  "at_signal bg i 0 s = bg i s"
| "at_signal bg i (Suc n) s = at_signal bg (i + 1) n (bg i s)"

lemma at_signal_live:
  assumes "\<And>i s. server_live env s \<Longrightarrow> server_live env (bg i s)"
  shows "server_live env s \<Longrightarrow> server_live env (at_signal bg i n s)"
  using assms by (induction n arbitrary: i s) simp_all

definition is_stats :: "string \<Rightarrow> bool" where
  "is_stats l \<longleftrightarrow> starts_with ''Server Stats - Uptime: '' l"

lemma is_stats_line [simp]: "is_stats (stats_line st)"
  by (simp add: is_stats_def stats_line_def starts_with_def)

lemma not_stats [simp]: "\<not> is_stats ''''" "\<not> is_stats (signal_line sig)"
    "\<not> is_stats ''Server stopped.''" "\<not> is_stats ''Server started successfully!''"
    "\<not> is_stats ''Use Ctrl+C to stop the server''"
  by (simp_all add: is_stats_def starts_with_def signal_line_def)

lemma div_step:
  "c < 60 \<Longrightarrow> (if c + 1 \<ge> 60 then 1 else 0) + ((if c + 1 \<ge> 60 then 0 else c + 1) + n) div 60 =
     (Suc c + n) div (60 :: nat)"
proof (cases "c = 59")
  case True
  then have "(Suc c + n) div 60 = (n + 1 * 60) div 60" by (simp add: add.commute)
  also have "\<dots> = 1 + n div 60" by (subst div_mult_self1) simp_all
  finally show ?thesis using True by simp
qed simp

lemma main_loop_Ok:
  assumes "\<And>i s. server_live env s \<Longrightarrow> server_live env (bg i s)" and "sig \<in> set main_signals"
  shows "server_live env s \<Longrightarrow> c < 60 \<Longrightarrow>
    \<exists>out1 t. main_loop env bg late sig n i c out s = Ok (None, out @ out1, t) \<and>
      stopped_from env late (at_signal bg i n s) t \<and> length (filter is_stats out1) = (Suc c + n) div 60"
proof (induction n arbitrary: i c out s)
  case 0
  have run: "srv_running s" using 0 by (simp add: server_live_def)
  obtain t where t: "server_stop env late (bg i s) = Ok ((), t)" "stopped_from env late (bg i s) t"
    using server_stop_Ok assms(1) 0(1) by blast
  let ?m = "['''', signal_line sig]"
  let ?l = "if c + 1 \<ge> 60 then [stats_line (getStats t)] else []"
  have "main_loop env bg late sig 0 i c out s = Ok (None, out @ (?m @ ?l), t)"
    using run t(1) assms(2) by (simp add: signalHandler_def Let_def round_end_def)
  moreover have "length (filter is_stats (?m @ ?l)) = (Suc c + 0) div 60"
    using 0(2) by (cases "c = 59") simp_all
  ultimately show ?case using t(2) by (intro exI[of _ "?m @ ?l"] exI[of _ t]) simp
next
  case (Suc n)
  let ?s1 = "bg i s" and ?c1 = "if c + 1 \<ge> 60 then 0 else c + 1"
  let ?l = "if c + 1 \<ge> 60 then [stats_line (getStats ?s1)] else []"
  have run: "srv_running s" using Suc.prems by (simp add: server_live_def)
  have "server_live env ?s1" "?c1 < 60" using assms Suc.prems by auto
  from Suc.IH[OF this, of "i + 1" "out @ ?l"] obtain out1 t where
    t: "main_loop env bg late sig n (i + 1) ?c1 (out @ ?l) ?s1 = Ok (None, (out @ ?l) @ out1, t)"
    "stopped_from env late (at_signal bg (i + 1) n ?s1) t" "length (filter is_stats out1) = (Suc ?c1 + n) div 60"
    by blast
  have "main_loop env bg late sig (Suc n) i c out s = Ok (None, out @ (?l @ out1), t)"
    using run t(1) by (simp add: round_end_def split: if_splits)
  moreover have "length (filter is_stats (?l @ out1)) = (Suc c + Suc n) div 60"
    using t(3) div_step[OF Suc.prems(2), of "Suc n"] by (simp split: if_splits)
  ultimately show ?case using t(2) by (intro exI[of _ "?l @ out1"] exI[of _ t]) simp
qed

text \<open>A signal without a handler: the rounds before it are over, and nothing is saved.\<close>

lemma main_loop_killed:
  assumes "\<And>i s. server_live env s \<Longrightarrow> server_live env (bg i s)" and "sig \<notin> set main_signals"
  shows "server_live env s \<Longrightarrow>
    \<exists>out1. main_loop env bg late sig n i c out s = Ok (Some sig, out @ out1, at_signal bg i n s)"
proof (induction n arbitrary: i c out s)
  case (Suc n)
  then have "server_live env (bg i s)" "srv_running s" using assms(1) by (simp_all add: server_live_def)
  with Suc.IH[OF this(1), of "i + 1" "fst (round_end c out (bg i s))" "snd (round_end c out (bg i s))"]
  show ?case by (auto simp: round_end_def split: if_splits)
qed (use assms in \<open>simp add: server_live_def\<close>)

lemma main_rest_Ok:
  assumes "server_live env s" and "\<And>i s. server_live env s \<Longrightarrow> server_live env (bg i s)"
    and "sig \<in> set main_signals"
  shows "\<exists>out t u l. main_rest env bg late sig n out0 s = Ok (Returned 0, out0 @ out, t) \<and>
    length (filter is_stats out) = (n + 1) div 60 \<and>
    stop_until_save env late (at_signal bg 0 n s) = Ok ((), u) \<and>
    store (redis u) = Some l \<and> store_ok (env_rand (sv_henv env)) l \<and>
    dump_file l (store_disk (redis u)) = Ok (store_disk (redis t)) \<and> store (redis t) = None"
proof -
  let ?w = "[''Server started successfully!'', ''Use Ctrl+C to stop the server'', '''']"
  obtain out1 s1 where 1: "main_loop env bg late sig n 0 0 (out0 @ ?w) s = Ok (None, (out0 @ ?w) @ out1, s1)"
    "stopped_from env late (at_signal bg 0 n s) s1" "length (filter is_stats out1) = (Suc 0 + n) div 60"
    using main_loop_Ok[of env bg sig s 0 late n 0 "out0 @ ?w"] assms by auto
  then obtain u l where ul: "stop_until_save env late (at_signal bg 0 n s) = Ok ((), u)" "store (redis u) = Some l"
    "store_ok (env_rand (sv_henv env)) l" "dump_file l (store_disk (redis u)) = Ok (store_disk (redis s1))"
    by (auto simp: stopped_from_def)
  obtain t where t: "SkipListServer_destroy env late s1 = Ok ((), t)" "store_disk (redis t) = store_disk (redis s1)"
    "store (redis t) = None" using server_delete_Ok[of s1 env late] 1(2) assms(1)
    by (auto simp: stopped_from_def server_live_def)
  have "main_rest env bg late sig n out0 s = Ok (Returned 0, out0 @ (?w @ out1 @ [''Server stopped.'']), t)"
    using 1(1) t(1) by (simp add: main_rest_def Let_def)
  moreover have "length (filter is_stats (?w @ out1 @ [''Server stopped.''])) = (n + 1) div 60"
    using 1(3) by (simp add: add.commute)
  ultimately show ?thesis using ul t
    by (intro exI[of _ "?w @ out1 @ [''Server stopped.'']"] exI[of _ t] exI[of _ u] exI[of _ l]) simp
qed

text \<open>
  C28. A signal ends the program in order.  When SIGINT, SIGTERM or SIGQUIT reaches the thread of
  main of a server that has run for n rounds, whatever the other threads did to it as long as they left it
  sound, and the joins of \<^verbatim>\<open>stop\<close> end, main returns 0 after one line of statistics per sixty rounds, and
  the list was freed.  The disk holds the dump of the list as it was when \<^verbatim>\<open>stop\<close> came to save, behind the
  messages that clients' threads handled during the joins, provided that none is under way then and
  none comes later.
\<close>
theorem signal_saves_and_exits:
  assumes "server_live env s" and "\<forall>i t. server_live env t \<longrightarrow> server_live env (bg i t)"
    and "sig \<in> {2, 15, 3}"
  shows "\<exists>out t u l. main_rest env bg late sig n out0 s = Ok (Returned 0, out0 @ out, t) \<and>
    length (filter is_stats out) = (n + 1) div 60 \<and>
    stop_until_save env late (at_signal bg 0 n s) = Ok ((), u) \<and> store (redis u) = Some l \<and>
    dump_file l (store_disk (redis u)) = Ok (store_disk (redis t)) \<and> store (redis t) = None"
proof -
  have "sig \<in> set main_signals" using assms(3) by (auto simp: main_signals_def setupSignalHandlers_def)
  then show ?thesis using main_rest_Ok[of env s bg sig late n out0] assms(1,2) by blast
qed

text \<open>A server that runs, with a given list.\<close>

definition running_with :: "skiplist \<Rightarrow> server" where
  "running_with l = (SkipListServer_init default_config (with_list l))\<lparr>srv_running := True\<rparr>"

lemma running_with_live: "store_ok (\<lambda>_. 0) l \<Longrightarrow> server_live no_log_env (running_with l)"
  using handler_ok_with_list[of l]
  by (simp add: server_live_def running_with_def SkipListServer_init_def no_log_env_def log_file_env_def)

lemma running_with_store [simp]: "store (redis (running_with l)) = Some l"
  by (simp add: running_with_def SkipListServer_init_def with_list_def)

theorem signal_saves_and_exits_witness:
  "\<exists>l out t. SkipList_init 4 0 = Ok l \<and>
    main_rest no_log_env (\<lambda>i s. s) [''PING''] 15 130 [] (running_with l) = Ok (Returned 0, out, t) \<and>
    length (filter is_stats out) = 2"
proof -
  obtain l where l: "SkipList_init 4 0 = Ok l" "store_ok (\<lambda>_. 0) l" by (rule empty_list_exists)
  from signal_saves_and_exits[OF running_with_live[OF l(2)], of "\<lambda>i s. s" 15 "[''PING'']" 130 "[]"] l(1)
  show ?thesis by auto
qed

subsection \<open>Across a restart\<close>

text \<open>
  C4. What a restart of the program keeps.  A server is ended by a signal, the joins of its \<^verbatim>\<open>stop\<close> end, and
  a new process, with the same disk, sockets that work and without a usable log file, is started.  When the
  keys are 32-bit numbers and no value has a line end, the new server holds the keys the old one held when
  \<^verbatim>\<open>stop\<close> came to save, those of messages handled during the joins included, each value with a
  semicolon behind it.  No message is under way while \<^verbatim>\<open>stop\<close> saves, and none comes later.
\<close>
theorem program_restart_keeps_keys:
  assumes "server_live env s" and "\<forall>i t. server_live env t \<longrightarrow> server_live env (bg i t)"
    and "sig \<in> {2, 15, 3}" and "main_rest env bg late sig n out0 s = Ok (r, out, t)"
    and "stop_until_save env late (at_signal bg 0 n s) = Ok ((), u) \<and> store (redis u) = Some l" and "plain_items l"
    and "writable (store_disk (redis u))"
    and "loadFromEnvironment (sv_getenv env') (cfg s') = Ok ((), c)"
    and "\<forall>p. can_mkdir (lenv (sv_henv env')) p"
    and "\<not> can_open (lenv (sv_henv env')) (cfg_log_file (log_cfg c))"
    and "log_quiet (lgr (redis s'))" and "rand_fair (env_rand (sv_henv env'))"
    and "0 \<le> cfg_max_level (skiplist_cfg c)"
    and "store_disk (redis s') = store_disk (redis t)"
    and "socket_ok (sv_tcp env') \<and> setsockopt_ok (sv_tcp env') \<and> bind_ok (sv_tcp env') \<and> listen_ok (sv_tcp env')"
  shows "\<exists>s''. server_init env' '''' s' = Ok (True, s'') \<and>
    (\<forall>k. contents (redis s'') k =
       map_option (\<lambda>v. v @ '';'') (contents (redis u) k))"
proof -
  have "sig \<in> set main_signals" using assms(3) by (auto simp: main_signals_def setupSignalHandlers_def)
  from main_rest_Ok[of env s bg sig late n out0, OF assms(1) _ this] assms(2,4,5)
  have ok: "store_ok (env_rand (sv_henv env)) l"
    and d: "dump_file l (store_disk (redis u)) = Ok (store_disk (redis t))" by auto
  obtain s0 where s0: "SkipList_init (cfg_max_level (skiplist_cfg c)) 0 = Ok s0" "wf_skiplist s0"
    "items s0 = []" "reader_open s0 = False" using init_Ok[OF assms(13)] by blast
  have s0_ok: "store_ok (env_rand (sv_henv env')) s0" using s0(2) assms(12) by (simp add: store_ok_def)
  have wf: "wf_skiplist l" using ok by (simp add: store_ok_def)
  obtain s1 where s1: "load_file (env_rand (sv_henv env')) (store_disk (redis t)) s0 = Ok s1"
    "store_ok (env_rand (sv_henv env')) s1" "contents_of s1 =
      (map_option (\<lambda>v. v @ '';'') \<circ> contents_of l) ++ contents_of s0"
    using load_of_dump[OF wf assms(6) s0_ok s0(4) assms(7) d] by blast
  have "contents_of s0 = Map.empty" using s0(3) by (simp add: contents_of_def)
  then have s1': "contents_of s1 = map_option (\<lambda>v. v @ '';'') \<circ> contents_of l" using s1(3) by simp
  have load: "load_file (env_rand (sv_henv env')) (store_disk (redis s')) s0 = Ok s1"
    using s1(1) assms(14) by simp
  from startup_quiet[OF assms(8-13) s0(1) load s1(2) assms(15)] obtain s'' where
    "server_init env' '''' s' = Ok (True, s'')" "contents (redis s'') = contents_of s1" by blast
  then show ?thesis using s1' assms(5) by (auto simp: contents_def)
qed

theorem program_restart_keeps_keys_witness:
  "\<exists>l t out s''. contents_of l 7 = Some ''x'' \<and>
    main_rest no_log_env (\<lambda>i s. s) [] 2 0 [] (running_with l) = Ok (Returned 0, out, t) \<and>
    server_init no_log_env '''' (SkipListServer_init default_config
      (fresh_handler\<lparr>store_disk := store_disk (redis t)\<rparr>)) = Ok (True, s'') \<and>
    contents (redis s'') 7 = Some ''x;''"
proof -
  have fair: "rand_fair (\<lambda>_. 0)" by (simp add: rand_fair_def rand_ends_def)
  obtain l0 where l0: "SkipList_init 4 0 = Ok l0" "wf_skiplist l0" "items l0 = []"
    using init_Ok[of 4 0] by auto
  with insert_absent[OF l0(2), of "\<lambda>_. 0" 7 "''x''"] fair obtain l where
    l: "wf_skiplist l" "items l = [(7, ''x'')]" by (auto simp: ins_sorted_def rand_fair_def)
  have plain: "plain_items l" and ok: "store_ok (\<lambda>_. 0) l" and c: "contents_of l 7 = Some ''x''"
    using l fair by (simp_all add: plain_items_def int_key_def int_limits LF_def store_ok_def contents_of_def)
  let ?s = "running_with l"
  obtain out t u l' where t: "main_rest no_log_env (\<lambda>i s. s) [] 2 0 [] ?s = Ok (Returned 0, out, t)"
    and u: "stop_until_save no_log_env [] (at_signal (\<lambda>i s. s) 0 0 ?s) = Ok ((), u)" "store (redis u) = Some l'"
    using main_rest_Ok[OF running_with_live[OF ok], of "\<lambda>i s. s" 2 "[]" 0 "[]"]
    by (auto simp: main_signals_def setupSignalHandlers_def)
  have u': "store (redis u) = Some l" "store_disk (redis u) = store_disk (redis ?s)"
    using u(1) by (auto simp: stop_until_save_def slog_def on_logger_def split: outcome.splits if_splits)
  let ?s' = "SkipListServer_init default_config (fresh_handler\<lparr>store_disk := store_disk (redis t)\<rparr>)"
  have "\<exists>s''. server_init no_log_env '''' ?s' = Ok (True, s'') \<and> (\<forall>k. contents (redis s'') k =
       map_option (\<lambda>v. v @ '';'') (contents (redis u) k))"
  proof (rule program_restart_keeps_keys[OF running_with_live[OF ok] _ _ t, where c = default_config])
    show "stop_until_save no_log_env [] (at_signal (\<lambda>i s. s) 0 0 ?s) = Ok ((), u) \<and> store (redis u) = Some l"
      using u(1) u'(1) by simp
    show "writable (store_disk (redis u))" unfolding u'(2)
      by (simp add: running_with_def SkipListServer_init_def with_list_def RedisHandler_init_def)
    show "loadFromEnvironment (sv_getenv no_log_env) (cfg ?s') = Ok ((), default_config)"
      using load_no_env by (simp add: no_log_env_def log_file_env_def SkipListServer_init_def)
  qed (use plain fair in \<open>simp_all add: no_log_env_def log_file_env_def quiet_env_def default_config_def
      SkipListServer_init_def fresh_handler_def RedisHandler_init_def static_logger_def log_quiet_def\<close>)
  then obtain s'' where "server_init no_log_env '''' ?s' = Ok (True, s'')"
    "contents (redis s'') 7 = map_option (\<lambda>v. v @ '';'') (contents (redis u) 7)" by auto
  then show ?thesis using c t u'(1) by (simp add: contents_def) blast
qed

end
