(* ===== verification/TcpConnection.thy ===== *)
theory TcpConnection
  imports TcpServerProps
begin

section \<open>The life of a connection object (network/tcp\_server.h, tcp\_server.cpp)\<close>

text \<open>
  A \<^verbatim>\<open>ClientConnection\<close> is shared by the thread that serves it, the list of the server and, in
  \<^verbatim>\<open>stop\<close>, the thread that stops the server.  Both threads call \<^verbatim>\<open>close\<close>, which tests the
  descriptor, closes it and resets it without a lock.  First the calls one after the other, then
  interleaved.  The remaining small operations of the file are here too.
\<close>

subsection \<open>The object\<close>

definition INVALID_SOCKET_VALUE :: int where "INVALID_SOCKET_VALUE = -1"

record client_conn =
  conn_socket :: int
  conn_address :: string

definition ClientConnection_init :: "int \<Rightarrow> string \<Rightarrow> client_conn" where
  "ClientConnection_init fd ad = \<lparr>conn_socket = fd, conn_address = ad\<rparr>"

definition getClientAddress :: "client_conn \<Rightarrow> string" where
  "getClientAddress c = conn_address c"

definition getSocket :: "client_conn \<Rightarrow> int" where
  "getSocket c = conn_socket c"

definition conn_isValid :: "client_conn \<Rightarrow> bool" where
  "conn_isValid c \<longleftrightarrow> conn_socket c \<noteq> INVALID_SOCKET_VALUE"

text \<open>The second component is the list of the descriptors handed to \<^verbatim>\<open>::close\<close>.\<close>

definition conn_close :: "client_conn \<times> int list \<Rightarrow> client_conn \<times> int list" where
  "conn_close p = (case p of (c, closed) \<Rightarrow>
     if conn_isValid c then (c\<lparr>conn_socket := INVALID_SOCKET_VALUE\<rparr>, closed @ [conn_socket c])
     else (c, closed))"

definition ClientConnection_destroy :: "client_conn \<times> int list \<Rightarrow> int list" where
  "ClientConnection_destroy p = snd (conn_close p)"

text \<open>\<^verbatim>\<open>send\<close> on the object: it is refused once the descriptor was reset.\<close>

definition client_conn_send :: "client_conn \<Rightarrow> int list \<Rightarrow> string \<Rightarrow> (bool \<times> string) option" where
  "client_conn_send c results data = conn_send (conn_isValid c) results data"

text \<open>The address that \<^verbatim>\<open>acceptLoop\<close> gives a connection: the host's, a colon, and the port.\<close>

definition peer_address :: "string \<Rightarrow> nat \<Rightarrow> string" where
  "peer_address ip pt = ip @ '':'' @ nat_to_string pt"

text \<open>
  One round of \<^verbatim>\<open>acceptLoop\<close> with what \<^verbatim>\<open>accept\<close> returned.  A failed call is tried again at once.
\<close>

definition accept_round :: "int \<Rightarrow> string \<Rightarrow> nat \<Rightarrow> tcp \<Rightarrow> string list \<times> client_conn option \<times> tcp" where
  "accept_round fd ip pt s =
     (if fd = INVALID_SOCKET_VALUE
      then (if tcp_running s then [''Failed to accept connection''] else [], None, accept_failed s)
      else ([], Some (ClientConnection_init fd (peer_address ip pt)), accept_client s))"

text \<open>
  \<^verbatim>\<open>handleClient\<close> as a whole: the rounds of \<open>serve\<close>, then the connection leaves the list and is
  closed.
\<close>

definition handleClient :: "(string \<Rightarrow> 's \<Rightarrow> string \<times> 's) \<Rightarrow> nat \<Rightarrow> client_conn \<times> int list \<Rightarrow> string list \<Rightarrow>
    tcp \<times> 's \<Rightarrow> string list \<times> (client_conn \<times> int list) \<times> tcp \<times> 's" where
  "handleClient handle i p chunks st =
     (case (if tcp_running (fst st) \<and> conn_isValid (fst p) then serve handle chunks (snd st)
            else ([], snd st)) of
        (out, h) \<Rightarrow> (out, conn_close p, client_gone i (fst st), h))"

subsection \<open>Sockets and set-up\<close>

text \<open>
  \<^verbatim>\<open>fcntl(socket, F_GETFL, 0)\<close> gives the flags, or -1 on an error, which is not tested; the result
  of the second call is the last argument.
\<close>

definition O_NONBLOCK :: "32 word" where "O_NONBLOCK = 2048"

definition setNonBlocking :: "32 word \<Rightarrow> (32 word \<Rightarrow> bool) \<Rightarrow> bool" where
  "setNonBlocking flags set_ok = set_ok (or flags O_NONBLOCK)"

text \<open>Outside Windows there is nothing to set up.\<close>

definition initNetwork :: bool where "initNetwork = True"

definition cleanupNetwork :: "tcp \<Rightarrow> tcp" where "cleanupNetwork s = s"

text \<open>\<^verbatim>\<open>~TCPServer\<close>, when the joins of its \<^verbatim>\<open>stop\<close> return.\<close>

definition TCPServer_destroy :: "tcp \<Rightarrow> tcp" where
  "TCPServer_destroy s = cleanupNetwork (stop_finish (stop_notify (stop_begin s)))"

subsection \<open>Closing in turn\<close>

lemma conn_close_twice [simp]: "conn_close (conn_close p) = conn_close p"
  by (cases p) (auto simp: conn_close_def conn_isValid_def split: prod.splits)

lemma conn_close_many: "0 < n \<Longrightarrow> (conn_close ^^ n) p = conn_close p"
proof (induction n)
  case (Suc n)
  then show ?case by (cases n) simp_all
qed simp

lemma destroy_after_stop:
  assumes "\<forall>w\<in>set (workers s). w = W_Exited"
  shows "TCPServer_destroy (stop_finish (stop_notify (stop_begin s))) =
    stop_finish (stop_notify (stop_begin s))"
  by (simp add: TCPServer_destroy_def cleanupNetwork_def stop_finish_def stop_notify_def stop_begin_def)

subsection \<open>Closing at the same time\<close>

datatype close_pc = C_test | C_close | C_reset | C_done

text \<open>
  The connection's descriptor, the descriptors the process has open, those closed so far, and where
  the two threads are.
\<close>

record close_state =
  cs_socket :: int
  cs_open :: "int set"
  cs_closed :: "int list"
  cs_serving :: close_pc
  cs_stopping :: close_pc

text \<open>One step of a thread in \<^verbatim>\<open>close\<close>; each reads \<^verbatim>\<open>socket_\<close> anew.\<close>

fun close_thread :: "close_pc \<Rightarrow> close_state \<Rightarrow> (close_pc \<times> close_state) option" where
  "close_thread C_test s = Some (if cs_socket s \<noteq> INVALID_SOCKET_VALUE then C_close else C_done, s)"
| "close_thread C_close s = Some (C_reset,
     if cs_socket s \<in> cs_open s
     then s\<lparr>cs_open := cs_open s - {cs_socket s}, cs_closed := cs_closed s @ [cs_socket s]\<rparr> else s)"
| "close_thread C_reset s = Some (C_done, s\<lparr>cs_socket := INVALID_SOCKET_VALUE\<rparr>)"
| "close_thread C_done s = None"

inductive close_step :: "close_state \<Rightarrow> close_state \<Rightarrow> bool" where
  cl_serving: "close_thread (cs_serving s) s = Some (pc, s') \<Longrightarrow> close_step s (s'\<lparr>cs_serving := pc\<rparr>)"
| cl_stopping: "close_thread (cs_stopping s) s = Some (pc, s') \<Longrightarrow> close_step s (s'\<lparr>cs_stopping := pc\<rparr>)"
| cl_accept: "fd \<notin> cs_open s \<Longrightarrow> 0 \<le> fd \<Longrightarrow> close_step s (s\<lparr>cs_open := insert fd (cs_open s)\<rparr>)"

inductive_cases close_stepE: "close_step s t"

definition both_closing :: "int \<Rightarrow> int set \<Rightarrow> close_state" where
  "both_closing fd fds = \<lparr>cs_socket = fd, cs_open = fds, cs_closed = [], cs_serving = C_test,
     cs_stopping = C_test\<rparr>"

subsection \<open>Properties\<close>

text \<open>
  In turn, \<^verbatim>\<open>close\<close> may be called any number of times, by the serving thread, by \<^verbatim>\<open>stop\<close> and by the
  destructor: the descriptor is closed exactly once, the object is invalid afterwards, and \<^verbatim>\<open>send\<close>
  is refused.
\<close>
theorem closed_exactly_once:
  assumes "fd \<noteq> INVALID_SOCKET_VALUE" and "0 < n"
  shows "(case (conn_close ^^ n) (ClientConnection_init fd ad, []) of (c, closed) \<Rightarrow>
    closed = [fd] \<and> \<not> conn_isValid c \<and> ClientConnection_destroy (c, closed) = [fd] \<and>
    client_conn_send c results data = Some (False, ''''))"
  using assms
  by (simp add: conn_close_many) (simp add: conn_close_def conn_isValid_def ClientConnection_init_def
      ClientConnection_destroy_def client_conn_send_def conn_send_def INVALID_SOCKET_VALUE_def)

theorem closed_exactly_once_witness:
  "ClientConnection_destroy ((conn_close ^^ 2) (ClientConnection_init 5 ''1.2.3.4:9'', [])) = [5]"
proof -
  have five: "(5 :: int) \<noteq> INVALID_SOCKET_VALUE" "(0 :: nat) < 2" by (simp_all add: INVALID_SOCKET_VALUE_def)
  obtain c closed where p: "(conn_close ^^ 2) (ClientConnection_init 5 ''1.2.3.4:9'', []) = (c, closed)"
    by (rule prod.exhaust)
  from closed_exactly_once[OF five, where results = "[]" and data = "[]" and ad = "''1.2.3.4:9''"] show ?thesis
    unfolding p prod.case by (elim conjE) assumption
qed

text \<open>
  At the same time, the two threads can close the connection of a third: both have seen the
  descriptor, the first closes it, a new connection is given the same number, and the second
  closes that.
\<close>
theorem stop_closes_other_connection:
  assumes "0 \<le> fd" and "fd \<in> fds"
  shows "\<exists>s t u. close_step\<^sup>*\<^sup>* (both_closing fd fds) s \<and> cs_closed s = [fd] \<and> fd \<notin> cs_open s \<and>
    t = s\<lparr>cs_open := insert fd (cs_open s)\<rparr> \<and> close_step s t \<and>
    close_step\<^sup>*\<^sup>* t u \<and> cs_closed u = [fd, fd] \<and> fd \<notin> cs_open u"
proof -
  let ?s0 = "both_closing fd fds"
  have nz: "fd \<noteq> INVALID_SOCKET_VALUE" using assms(1) by (simp add: INVALID_SOCKET_VALUE_def)
  let ?s1 = "?s0\<lparr>cs_serving := C_close\<rparr>"
  let ?s2 = "?s1\<lparr>cs_stopping := C_close\<rparr>"
  let ?s3 = "?s2\<lparr>cs_open := fds - {fd}, cs_closed := [fd], cs_serving := C_reset\<rparr>"
  let ?t = "?s3\<lparr>cs_open := insert fd (fds - {fd})\<rparr>"
  let ?u = "?t\<lparr>cs_open := fds - {fd}, cs_closed := [fd, fd], cs_stopping := C_reset\<rparr>"
  have "close_step ?s0 ?s1" using nz cl_serving[of ?s0] by (simp add: both_closing_def)
  moreover have "close_step ?s1 ?s2" using nz cl_stopping[of ?s1] by (simp add: both_closing_def)
  moreover have "close_step ?s2 ?s3" using nz assms(2) cl_serving[of ?s2] by (simp add: both_closing_def)
  ultimately have "close_step\<^sup>*\<^sup>* ?s0 ?s3"
    by (meson converse_rtranclp_into_rtranclp rtranclp.rtrancl_refl)
  moreover have "close_step ?s3 ?t" using assms(1) cl_accept[of fd ?s3] by simp
  moreover have "close_step ?t ?u" using nz cl_stopping[of ?t] by (simp add: both_closing_def)
  then have "close_step\<^sup>*\<^sup>* ?t ?u" by blast
  moreover have "?t = ?s3\<lparr>cs_open := insert fd (cs_open ?s3)\<rparr>" by simp
  ultimately show ?thesis
    by (intro exI[of _ ?s3] exI[of _ ?t] exI[of _ ?u]) simp
qed

theorem stop_closes_other_connection_witness:
  "\<exists>s. close_step\<^sup>*\<^sup>* (both_closing 5 {3, 5}) s \<and> cs_closed s = [5]"
  using stop_closes_other_connection[of 5 "{3, 5}"] by auto

end
