(* ===== verification/ConfigTypes.thy ===== *)
theory ConfigTypes
  imports Configuration
begin

section \<open>The types of the configuration\<close>

text \<open>
  The model keeps the \<^verbatim>\<open>int\<close> members of the configuration as integers.  Here it is shown that they
  stay in the range of \<^verbatim>\<open>int\<close> under every sequence of public calls, that the custom entries
  stay a \<^verbatim>\<open>std::map\<close> (sorted, one entry per key), and that no call that ends keeps the mutex.
\<close>

subsection \<open>Calls\<close>

datatype config_call =
    Load_file string "string option"
  | Load_environment "string \<Rightarrow> string option"
  | Set_server server_config
  | Set_skiplist skiplist_config
  | Set_log log_config
  | Set_aof aof_config
  | Set_string string string
  | Set_int string int
  | Set_bool string bool
  | Get_string string string
  | Get_int string int
  | Get_bool string bool
  | Save_file bool

text \<open>The state a call leaves behind, by return or by throw.\<close>

definition left_by :: "(exn \<times> config, 'a \<times> config) outcome \<Rightarrow> config option" where
  "left_by r = (case r of Ok (_, c) \<Rightarrow> Some c | Throw (_, c) \<Rightarrow> Some c | Fault _ \<Rightarrow> None)"

fun config_after :: "config_call \<Rightarrow> config \<Rightarrow> config option" where
  "config_after (Load_file f t) c = left_by (loadFromFile f t c)"
| "config_after (Load_environment e) c = left_by (loadFromEnvironment e c)"
| "config_after (Set_server x) c = left_by (setServerConfig x c)"
| "config_after (Set_skiplist x) c = left_by (setSkipListConfig x c)"
| "config_after (Set_log x) c = left_by (setLogConfig x c)"
| "config_after (Set_aof x) c = left_by (setAOFConfig x c)"
| "config_after (Set_string k v) c = left_by (setString k v c)"
| "config_after (Set_int k n) c = left_by (setInt k n c)"
| "config_after (Set_bool k b) c = left_by (setBool k b c)"
| "config_after (Get_string k d) c = left_by (getString k d c)"
| "config_after (Get_int k d) c = left_by (getInt k d c)"
| "config_after (Get_bool k d) c = left_by (getBool k d c)"
| "config_after (Save_file can) c = left_by (saveToFile can c)"

subsection \<open>Typing\<close>

definition is_int :: "int \<Rightarrow> bool" where
  "is_int n \<longleftrightarrow> int_min \<le> n \<and> n \<le> int_max"

definition server_typed :: "server_config \<Rightarrow> bool" where
  "server_typed s \<longleftrightarrow> is_int (port s) \<and> is_int (max_connections s) \<and> is_int (thread_pool_size s)"

definition skiplist_typed :: "skiplist_config \<Rightarrow> bool" where
  "skiplist_typed k \<longleftrightarrow> is_int (cfg_max_level k) \<and> is_int (persistence_interval k)"

definition log_typed :: "log_config \<Rightarrow> bool" where
  "log_typed l \<longleftrightarrow> is_int (cfg_max_file_size l) \<and> is_int (cfg_max_files l)"

definition aof_typed :: "aof_config \<Rightarrow> bool" where
  "aof_typed a \<longleftrightarrow> is_int (aof_fsync_interval a)"

definition config_typed :: "config \<Rightarrow> bool" where
  "config_typed c \<longleftrightarrow> server_typed (server_cfg c) \<and> skiplist_typed (skiplist_cfg c) \<and>
     log_typed (log_cfg c) \<and> aof_typed (aof_cfg c) \<and>
     sorted_wrt (<) (map fst (custom_config c)) \<and> \<not> locked c"

text \<open>What C++ asks of the arguments.\<close>

fun call_typed :: "config_call \<Rightarrow> bool" where
  "call_typed (Set_server x) = server_typed x"
| "call_typed (Set_skiplist x) = skiplist_typed x"
| "call_typed (Set_log x) = log_typed x"
| "call_typed (Set_aof x) = aof_typed x"
| "call_typed (Set_int k n) = is_int n"
| "call_typed (Get_int k n) = is_int n"
| "call_typed _ = True"

lemma config_typed_unlock [simp]: "config_typed c \<Longrightarrow> config_typed (c\<lparr>locked := False\<rparr>)"
  by (simp add: config_typed_def)

lemma atoi_is_int: "is_int (atoi s)"
proof -
  have "- (2 ^ 31) \<le> sint w \<and> sint w < 2 ^ 31" for w :: "32 word"
    using sint_ge[of w] sint_lt[of w] by simp
  then have w: "is_int (sint w)" for w :: "32 word"
    unfolding is_int_def int_min_def int_max_def by (smt (verit))
  have "is_int 0" by (simp add: is_int_def int_min_def int_max_def)
  with w show ?thesis by (simp add: atoi_def split: option.split)
qed

lemma stoi_is_int: "stoi s = Ok n \<Longrightarrow> is_int n"
  using stoi_range by (simp add: is_int_def)

lemma from_env_is_int: "is_int old \<Longrightarrow> is_int (from_env e var atoi old)"
  by (simp add: from_env_def atoi_is_int split: option.split)

lemma typed_put:
  "config_typed c \<Longrightarrow> config_typed (c\<lparr>custom_config := map_put k v (custom_config c)\<rparr>)"
  by (simp add: config_typed_def map_put_sorted)

lemma config_lines_typed:
  "config_typed c \<Longrightarrow> (case config_lines ls c of Ok c1 \<Rightarrow> config_typed c1
     | Throw (e, c1) \<Rightarrow> config_typed c1 | Fault d \<Rightarrow> False)"
proof (induction ls arbitrary: c)
  case (Cons l ls)
  show ?case
  proof (cases "l = [] \<or> List.hd l = CHR ''#''")
    case False
    then show ?thesis using Cons typed_put by (auto simp: Let_def split: option.split)
  qed (use Cons in simp)
qed simp

lemma loadFromFile_typed:
  assumes "config_typed c"
  shows "(case loadFromFile f t c of Ok (b, c1) \<Rightarrow> config_typed c1 \<and> b
     | Throw (e, c1) \<Rightarrow> config_typed c1 | Fault d \<Rightarrow> d = Deadlock)"
proof -
  have un: "\<not> locked c" using assms by (simp add: config_typed_def)
  have unlock: "c1\<lparr>locked := True, locked := False\<rparr> = c1" if "config_typed c1" for c1 :: config
    using that by (cases c1) (simp add: config_typed_def)
  show ?thesis
  proof (cases t)
    case None
    with un assms show ?thesis by (simp add: loadFromFile_def config_guard_def)
  next
    case (Some body)
    show ?thesis
    proof (cases "config_lines (getlines LF body) c")
      case (Ok c1)
      with config_lines_typed[OF assms, of "getlines LF body"] have c1: "config_typed c1" by simp
      with un Ok Some unlock[OF c1] show ?thesis
        by (simp add: loadFromFile_def config_guard_def config_lines_locked applyCustomConfig_locked)
    next
      case (Throw p)
      obtain e c1 where p: "p = (e, c1)" by (cases p)
      with Throw config_lines_typed[OF assms, of "getlines LF body"] have "config_typed c1" by simp
      with un Throw Some p unlock show ?thesis
        by (simp add: loadFromFile_def config_guard_def config_lines_locked)
    next
      case (Fault d)
      with config_lines_typed[OF assms, of "getlines LF body"] show ?thesis by simp
    qed
  qed
qed

lemma typed_update:
  "config_typed c \<Longrightarrow> server_typed x \<Longrightarrow> config_typed (c\<lparr>server_cfg := x, locked := False\<rparr>)"
  "config_typed c \<Longrightarrow> skiplist_typed k \<Longrightarrow> config_typed (c\<lparr>skiplist_cfg := k, locked := False\<rparr>)"
  "config_typed c \<Longrightarrow> log_typed l \<Longrightarrow> config_typed (c\<lparr>log_cfg := l, locked := False\<rparr>)"
  "config_typed c \<Longrightarrow> aof_typed a \<Longrightarrow> config_typed (c\<lparr>aof_cfg := a, locked := False\<rparr>)"
  by (simp_all add: config_typed_def)

lemma loadFromEnvironment_typed:
  assumes "config_typed c"
  shows "\<exists>c1. loadFromEnvironment e c = Ok ((), c1) \<and> config_typed c1"
  using assms by (simp add: loadFromEnvironment_def config_guard_def config_typed_def server_typed_def
      skiplist_typed_def log_typed_def aof_typed_def Let_def from_env_is_int)

lemma getters_leave:
  assumes "\<not> locked c"
  shows "\<exists>v. getString k d c = Ok (v, c)" "\<exists>n. getInt k i c = Ok (n, c)" "\<exists>b. getBool k b0 c = Ok (b, c)"
proof -
  have s: "\<exists>v. getString k d c = Ok (v, c)" for k d
    using getString_unlocked[OF assms, of k d] by blast
  then show "\<exists>v. getString k d c = Ok (v, c)" .
  from s[of k "''''"] obtain v where v: "getString k '''' c = Ok (v, c)" by blast
  show "\<exists>n. getInt k i c = Ok (n, c)"
    using v by (cases "stoi v") (simp_all add: getInt_def)
  show "\<exists>b. getBool k b0 c = Ok (b, c)" using v by (simp add: getBool_def Let_def)
qed

lemma call_keeps_types:
  assumes "config_typed c" "call_typed x" "config_after x c = Some c1"
  shows "config_typed c1"
proof -
  have un: "\<not> locked c" using assms(1) by (simp add: config_typed_def)
  show ?thesis
  proof (cases x)
    case (Load_file f t)
    with assms(3) loadFromFile_typed[OF assms(1), of f t] show ?thesis
      by (auto simp: left_by_def split: outcome.splits)
  next
    case (Load_environment e)
    with assms(3) loadFromEnvironment_typed[OF assms(1), of e] show ?thesis by (auto simp: left_by_def)
  next
    case (Get_string k d)
    with assms(1,3) getters_leave(1)[OF un, of k d] show ?thesis by (auto simp: left_by_def)
  next
    case (Get_int k d)
    with assms(1,3) getters_leave(2)[OF un, of k d] show ?thesis by (auto simp: left_by_def)
  next
    case (Get_bool k d)
    with assms(1,3) getters_leave(3)[OF un, of k d] show ?thesis by (auto simp: left_by_def)
  qed (use assms un typed_put typed_update in
      \<open>auto simp: left_by_def setServerConfig_def setSkipListConfig_def setLogConfig_def setAOFConfig_def
        setString_unlocked setInt_def setBool_def saveToFile_def config_guard_def\<close>)
qed

subsection \<open>The property\<close>

inductive config_reachable :: "config \<Rightarrow> bool" where
  cr_start: "config_reachable default_config"
| cr_call: "config_reachable c \<Longrightarrow> call_typed x \<Longrightarrow> config_after x c = Some c1 \<Longrightarrow> config_reachable c1"

lemma default_typed: "config_typed default_config"
  by (simp add: config_typed_def default_config_def server_typed_def skiplist_typed_def log_typed_def
      aof_typed_def is_int_def int_limits)

text \<open>
  C29. The configuration is well typed for ever.  Whatever public calls are made, with whatever files
  and environments, as long as the arguments have their C++ types, every \<^verbatim>\<open>int\<close> member stays in
  the range of \<^verbatim>\<open>int\<close>, the custom entries have distinct keys in order, the mutex is free after
  every call that ends, and \<^verbatim>\<open>getInt\<close> returns an \<^verbatim>\<open>int\<close>.
\<close>
theorem configuration_well_typed:
  assumes "config_reachable c" and "is_int d"
  shows "config_typed c \<and> (\<exists>n. getInt k d c = Ok (n, c) \<and> is_int n)"
proof -
  have t: "config_typed c"
    using assms(1) by (induction rule: config_reachable.induct) (simp_all add: default_typed call_keeps_types)
  then have un: "\<not> locked c" by (simp add: config_typed_def)
  obtain v where v: "getString k '''' c = Ok (v, c)" using getters_leave(1)[OF un] by blast
  have "\<exists>n. getInt k d c = Ok (n, c) \<and> is_int n"
    using v assms(2) stoi_is_int by (cases "stoi v") (auto simp: getInt_def)
  with t show ?thesis by simp
qed

theorem configuration_well_typed_witness:
  "\<exists>c n. config_after (Set_int ''port'' 7) default_config = Some c \<and> getInt ''port'' 1 c = Ok (n, c) \<and>
    is_int n"
proof -
  have "\<not> locked default_config" by (simp add: default_config_def)
  then obtain c where c: "config_after (Set_int ''port'' 7) default_config = Some c"
    by (simp add: left_by_def setInt_def setString_unlocked)
  have "call_typed (Set_int ''port'' 7)" "is_int 1" by (simp_all add: is_int_def int_limits)
  with configuration_well_typed[OF cr_call[OF cr_start _ c], of 1 "''port''"] c show ?thesis by auto
qed

end
