(* ===== verification/Locking.thy ===== *)
theory Locking
  imports Prelude
begin

section \<open>Threads that take mutexes\<close>

text \<open>
  A thread is seen through the mutexes it takes and gives back, in the order of its code; a pause
  is a sleep.  A system of threads is a list of pairs: what a thread holds and what it has still to
  do.  The locale \<open>lock_order\<close> is the contract of a locking discipline: the mutexes have ranks and
  every program takes them in the order of their ranks, gives back only what it holds, and ends
  with nothing.  Under it no system ever gets stuck, and every system ends.
\<close>

datatype 'm act = Acq 'm | Rel 'm | Pause

type_synonym 'm program = "'m act list"
type_synonym 'm threads = "('m list \<times> 'm program) list"

definition free_for :: "'m threads \<Rightarrow> 'm \<Rightarrow> bool" where
  "free_for ts m \<longleftrightarrow> (\<forall>t\<in>set ts. m \<notin> set (fst t))"

text \<open>The next state of thread i, when it can move.\<close>

definition thread_step :: "nat \<Rightarrow> 'm threads \<Rightarrow> 'm threads option" where
  "thread_step i ts =
     (if length ts \<le> i then None
      else case ts ! i of
        (held, Acq m # p) \<Rightarrow> if free_for ts m then Some (ts[i := (m # held, p)]) else None
      | (held, Rel m # p) \<Rightarrow> Some (ts[i := (remove1 m held, p)])
      | (held, Pause # p) \<Rightarrow> Some (ts[i := (held, p)])
      | (held, []) \<Rightarrow> None)"

inductive lock_step :: "'m threads \<Rightarrow> 'm threads \<Rightarrow> bool" where
  "thread_step i ts = Some ts' \<Longrightarrow> lock_step ts ts'"

definition all_done :: "'m threads \<Rightarrow> bool" where
  "all_done ts \<longleftrightarrow> (\<forall>t\<in>set ts. snd t = [])"

definition deadlocked :: "'m threads \<Rightarrow> bool" where
  "deadlocked ts \<longleftrightarrow> \<not> all_done ts \<and> (\<nexists>ts'. lock_step ts ts')"

definition start :: "'m program list \<Rightarrow> 'm threads" where
  "start ps = map (\<lambda>p. ([], p)) ps"

fun ordered :: "('m \<Rightarrow> nat) \<Rightarrow> 'm list \<Rightarrow> 'm program \<Rightarrow> bool" where
  "ordered rank held [] \<longleftrightarrow> held = []"
| "ordered rank held (Acq m # p) \<longleftrightarrow> (\<forall>h\<in>set held. rank h < rank m) \<and> ordered rank (m # held) p"
| "ordered rank held (Rel m # p) \<longleftrightarrow> m \<in> set held \<and> ordered rank (remove1 m held) p"
| "ordered rank held (Pause # p) \<longleftrightarrow> ordered rank held p"

lemma ordered_append:
  "ordered rank held p \<Longrightarrow> ordered rank [] q \<Longrightarrow> ordered rank held (p @ q)"
  by (induction rank held p rule: ordered.induct) auto

lemma ordered_concat:
  "(\<And>p. p \<in> set ps \<Longrightarrow> ordered rank [] p) \<Longrightarrow> ordered rank [] (concat ps)"
  by (induction ps) (simp_all add: ordered_append)

text \<open>A \<^verbatim>\<open>std::lock_guard\<close> around p.\<close>

definition guarded :: "'m \<Rightarrow> 'm program \<Rightarrow> 'm program" where
  "guarded m p = Acq m # p @ [Rel m]"

lemma ordered_single: "ordered rank [] (guarded m [])"
  by (simp add: guarded_def)

text \<open>The same programs over other names of the mutexes.\<close>

lemma map_remove1_inj: "inj f \<Longrightarrow> map f (remove1 x xs) = remove1 (f x) (map f xs)"
  by (induction xs) (auto simp: inj_eq)

lemma ordered_map:
  assumes "inj f" "\<And>a b. rank a < rank b \<Longrightarrow> rank' (f a) < rank' (f b)"
  shows "ordered rank held p \<Longrightarrow> ordered rank' (map f held) (map (map_act f) p)"
proof (induction p arbitrary: held)
  case (Cons x p)
  show ?case
  proof (cases x)
    case (Acq m)
    then show ?thesis using Cons.IH[of "m # held"] Cons.prems assms(2) by auto
  next
    case (Rel m)
    then show ?thesis
      using Cons.IH[of "remove1 m held"] Cons.prems map_remove1_inj[OF assms(1), of m held] by simp
  next
    case Pause
    then show ?thesis using Cons by simp
  qed
qed simp

text \<open>The actions that remain; every step takes one away.\<close>

definition remaining :: "'m threads \<Rightarrow> nat" where
  "remaining ts = sum_list (map (length \<circ> snd) ts)"

lemma sum_list_update_less:
  fixes f :: "'a \<Rightarrow> nat"
  shows "i < length xs \<Longrightarrow> f y < f (xs ! i) \<Longrightarrow> sum_list (map f (xs[i := y])) < sum_list (map f xs)"
proof (induction xs arbitrary: i)
  case (Cons x xs)
  then show ?case by (cases i) auto
qed simp

lemma step_consumes: "lock_step ts ts' \<Longrightarrow> remaining ts' < remaining ts"
proof (induction rule: lock_step.induct)
  case (1 i ts ts')
  then have i: "i < length ts" by (simp add: thread_step_def split: if_splits)
  obtain held p where t: "ts ! i = (held, p)" by (cases "ts ! i")
  from 1 i t obtain held' q where "ts' = ts[i := (held', q)]" "length q < length p"
    by (auto simp: thread_step_def split: list.splits act.splits if_splits)
  with i t show ?case
    unfolding remaining_def by (auto intro!: sum_list_update_less)
qed

locale lock_order =
  fixes rank :: "'m \<Rightarrow> nat" and programs :: "'m program set"
  assumes in_order: "p \<in> programs \<Longrightarrow> ordered rank [] p"
begin

definition sound :: "'m threads \<Rightarrow> bool" where
  "sound ts \<longleftrightarrow> (\<forall>t\<in>set ts. ordered rank (fst t) (snd t))"

lemma sound_start: "set ps \<subseteq> programs \<Longrightarrow> sound (start ps)"
  using in_order by (auto simp: sound_def start_def)

lemma sound_step: "lock_step ts ts' \<Longrightarrow> sound ts \<Longrightarrow> sound ts'"
proof (induction rule: lock_step.induct)
  case (1 i ts ts')
  then have i: "i < length ts" by (simp add: thread_step_def split: if_splits)
  obtain held p where t: "ts ! i = (held, p)" by (cases "ts ! i")
  have "ordered rank held p" using 1(2) i t by (metis fst_conv nth_mem snd_conv sound_def)
  with 1(1) i t obtain held' q where q: "ts' = ts[i := (held', q)]" "ordered rank held' q"
    by (auto simp: thread_step_def split: list.splits act.splits if_splits)
  show ?case
    unfolding sound_def
  proof
    fix t' assume "t' \<in> set ts'"
    then have "t' = (held', q) \<or> t' \<in> set ts" using q(1) set_update_subset_insert by fastforce
    then show "ordered rank (fst t') (snd t')" using q(2) 1(2) by (auto simp: sound_def)
  qed
qed

lemma sound_run: "lock_step\<^sup>*\<^sup>* ts ts' \<Longrightarrow> sound ts \<Longrightarrow> sound ts'"
  by (induction rule: rtranclp_induct) (auto intro: sound_step)

text \<open>A thread that cannot move wants a mutex somebody holds.\<close>

lemma stuck_wants:
  assumes "\<nexists>ts'. lock_step ts ts'" "t \<in> set ts" "snd t \<noteq> []"
  obtains m p where "snd t = Acq m # p" "\<not> free_for ts m"
proof -
  from assms(2) obtain i where i: "i < length ts" "ts ! i = t" by (metis in_set_conv_nth)
  have none: "thread_step i ts = None" using assms(1) lock_step.intros by (metis not_None_eq)
  obtain held a p where t: "t = (held, a # p)" using assms(3) by (metis neq_Nil_conv prod.collapse)
  with none i show thesis using that
    by (cases a) (auto simp: thread_step_def split: if_splits)
qed

text \<open>The highest wanted mutex is held by a thread that wants a higher one.\<close>

lemma not_deadlocked:
  assumes "sound ts"
  shows "\<not> deadlocked ts"
proof
  assume dead: "deadlocked ts"
  then have stuck: "\<nexists>ts'. lock_step ts ts'" by (simp add: deadlocked_def)
  define wanted where "wanted = {m. \<exists>t\<in>set ts. \<exists>p. snd t = Acq m # p}"
  have higher: "\<exists>m'\<in>wanted. rank m < rank m'" if m: "m \<in> wanted" for m
  proof -
    from m obtain t p where "t \<in> set ts" "snd t = Acq m # p" by (auto simp: wanted_def)
    with stuck_wants[OF stuck] have "\<not> free_for ts m" by (metis act.inject(1) list.inject list.distinct(1))
    then obtain u where u: "u \<in> set ts" "m \<in> set (fst u)" by (auto simp: free_for_def)
    have ou: "ordered rank (fst u) (snd u)" using assms u(1) by (simp add: sound_def)
    then have "snd u \<noteq> []" using u(2) by (cases "snd u") auto
    with stuck_wants[OF stuck u(1)] obtain m' q where q: "snd u = Acq m' # q" by metis
    then have "rank m < rank m'" using ou u(2) by auto
    with q u(1) show ?thesis by (auto simp: wanted_def)
  qed
  obtain t where "t \<in> set ts" "snd t \<noteq> []" using dead by (auto simp: deadlocked_def all_done_def)
  with stuck_wants[OF stuck] obtain m where m: "m \<in> wanted" unfolding wanted_def by blast
  have "finite wanted"
  proof -
    have "wanted \<subseteq> (\<Union>t\<in>set ts. {m. \<exists>p. snd t = Acq m # p})" by (auto simp: wanted_def)
    moreover have "finite {m. \<exists>p. q = Acq m # p}" for q :: "'m program"
    proof -
      have "{m. \<exists>p. q = Acq m # p} \<subseteq> (case q of Acq m # p \<Rightarrow> {m} | _ \<Rightarrow> {})" by auto
      moreover have "finite (case q of Acq m # p \<Rightarrow> {m} | _ \<Rightarrow> {})"
        by (simp split: list.split act.split)
      ultimately show ?thesis by (rule finite_subset)
    qed
    ultimately show ?thesis by (meson finite_UN finite_set finite_subset)
  qed
  with m have "finite (rank ` wanted)" "rank ` wanted \<noteq> {}" by auto
  then have "Max (rank ` wanted) \<in> rank ` wanted" by (rule Max_in)
  then obtain w where w: "w \<in> wanted" "rank w = Max (rank ` wanted)" by auto
  from higher[OF w(1)] obtain w' where "w' \<in> wanted" "rank w < rank w'" by blast
  with w(2) \<open>finite (rank ` wanted)\<close> show False by (metis Max_ge image_eqI leD)
qed

lemma never_deadlocked:
  "set ps \<subseteq> programs \<Longrightarrow> lock_step\<^sup>*\<^sup>* (start ps) ts \<Longrightarrow> \<not> deadlocked ts"
  using sound_run sound_start not_deadlocked by blast

text \<open>From every state the system can reach, some run ends it, and no run is longer than its actions.\<close>

lemma can_end:
  assumes "sound ts"
  shows "\<exists>ts'. lock_step\<^sup>*\<^sup>* ts ts' \<and> all_done ts'"
  using assms
proof (induction "remaining ts" arbitrary: ts rule: less_induct)
  case less
  show ?case
  proof (cases "all_done ts")
    case False
    with not_deadlocked[OF less.prems] obtain ts1 where s: "lock_step ts ts1"
      by (auto simp: deadlocked_def)
    from less.hyps[OF step_consumes[OF s] sound_step[OF s less.prems]] show ?thesis
      using s by (meson converse_rtranclp_into_rtranclp)
  qed auto
qed

end

lemma run_length: "(lock_step ^^ n) ts ts' \<Longrightarrow> n + remaining ts' \<le> remaining ts"
proof (induction n arbitrary: ts')
  case (Suc n)
  then obtain u where "(lock_step ^^ n) ts u" "lock_step u ts'" by auto
  with Suc.IH[of u] step_consumes[of u ts'] show ?case by simp
qed simp

end
