(* ===== verification/ReplicationLocks.thy ===== *)
theory ReplicationLocks
  imports Locking ReplicationProps
begin

section \<open>The mutexes of the replication manager\<close>

text \<open>
  \<^verbatim>\<open>ReplicationManager\<close> has three mutexes in use, for the slaves, the log and the statistics, and
  nests them: \<^verbatim>\<open>handleSlaveConnection\<close> takes the one of the log under that of the slaves (in
  \<^verbatim>\<open>sendSyncCommands\<close>), \<^verbatim>\<open>updateSlaveStats\<close> that of the statistics under that of the slaves, and
  \<^verbatim>\<open>processReplicationQueue\<close> would take that of the slaves under that of the log (in
  \<^verbatim>\<open>replicateToSlaves\<close>).  Under those of the slaves and of the log it also sends, and \<^verbatim>\<open>send\<close> takes the
  mutex of the connection; the connections are named by their addresses.  What a call takes depends on the branches it goes through, so it is a
  function of the state.
\<close>

subsection \<open>What each call takes\<close>

datatype repl_mutex =
    M_slaves                  \<comment> \<open>\<^verbatim>\<open>slaves_mutex_\<close>\<close>
  | M_log                     \<comment> \<open>\<^verbatim>\<open>replication_log_mutex_\<close>\<close>
  | M_stats                   \<comment> \<open>\<^verbatim>\<open>stats_mutex_\<close>\<close>
  | M_send string             \<comment> \<open>\<^verbatim>\<open>ClientConnection::send_mutex_\<close> of the connection from an address\<close>

datatype repl_call =
    Call_add string int
  | Call_remove string
  | Call_list
  | Call_replicate string
  | Call_message string repl_client
  | Pass_of_master
  | Pass_of_ping
  | Pass_of_slave

definition replicateToSlaves_locks :: "repl_mutex program" where
  "replicateToSlaves_locks = guarded M_slaves []"

definition replicateCommand_locks :: "repl \<Rightarrow> repl_mutex program" where
  "replicateCommand_locks s =
     (if \<not> isMaster s then []
      else guarded M_log [] @ replicateToSlaves_locks @ guarded M_stats [])"

text \<open>The loop over the queue, as in \<open>drain_log\<close>.\<close>

fun drain_locks :: "log_entry list \<Rightarrow> int \<Rightarrow> repl_mutex program" where
  "drain_locks [] cur = []"
| "drain_locks (e # es) cur =
     (if entry_offset e > cur then replicateToSlaves_locks @ drain_locks es (entry_offset e)
      else drain_locks es cur)"

definition processReplicationQueue_locks :: "repl \<Rightarrow> repl_mutex program" where
  "processReplicationQueue_locks s = guarded M_log (drain_locks (rlog s) (roffset s))"

definition updateSlaveStats_locks :: "repl_mutex program" where
  "updateSlaveStats_locks = guarded M_slaves (guarded M_stats [])"

definition masterLoop_locks :: "repl \<Rightarrow> repl_mutex program" where
  "masterLoop_locks s =
     guarded M_stats [] @ processReplicationQueue_locks s @ updateSlaveStats_locks @
     guarded M_slaves [] @ guarded M_slaves [] @ [Pause]"

text \<open>The lock guard of \<^verbatim>\<open>pingSlaves\<close> lives to the end of the try block, behind the sleep.\<close>

definition pingSlaves_locks :: "repl_mutex program" where
  "pingSlaves_locks = guarded M_slaves [] @ guarded M_slaves [Pause]"

text \<open>The entry that \<^verbatim>\<open>handleSlaveConnection\<close> finds or creates lags behind.\<close>

definition client_lags :: "repl_client \<Rightarrow> repl \<Rightarrow> bool" where
  "client_lags c s =
     ((case find (\<lambda>sl. slave_host sl = cl_address c) (slaves s) of
         Some sl \<Rightarrow> slave_offset sl | None \<Rightarrow> 0) < roffset s)"

definition client_send_locks :: "repl_client \<Rightarrow> repl_mutex program" where
  "client_send_locks c = guarded (M_send (cl_address c)) []"

definition sendSyncCommands_locks :: "repl_client \<Rightarrow> repl_mutex program" where
  "sendSyncCommands_locks c = guarded M_log (if cl_valid c then client_send_locks c else [])"

definition handleSlaveConnection_locks :: "repl_client \<Rightarrow> repl \<Rightarrow> repl_mutex program" where
  "handleSlaveConnection_locks c s =
     (if \<not> cl_valid c \<or> cl_receive c = '''' then []
      else guarded M_slaves (client_send_locks c @
        (if cl_send_ok c \<and> client_lags c s then sendSyncCommands_locks c else [])))"

definition handleSyncRequest_locks :: "repl_client \<Rightarrow> int \<Rightarrow> repl \<Rightarrow> repl_mutex program" where
  "handleSyncRequest_locks c off s =
     guarded M_log (if 0 < wrap64 (roffset s - off) \<and> cl_valid c then client_send_locks c else [])"

definition handleReplicationMessage_locks :: "string \<Rightarrow> repl_client \<Rightarrow> repl \<Rightarrow> repl_mutex program" where
  "handleReplicationMessage_locks m c s =
     (if \<not> cl_valid c then []
      else if find_str ''SLAVE_CONNECT'' m = Some 0 then handleSlaveConnection_locks c s
      else if find_str ''PING'' m = Some 0 then guarded M_slaves []
      else if find_str ''SYNC_REQUEST'' m = Some 0 then
        (case find_char (CHR '':'') m of
           Some pos \<Rightarrow> (case stoll (drop (pos + 1) m) of Ok off \<Rightarrow> handleSyncRequest_locks c off s | _ \<Rightarrow> [])
         | None \<Rightarrow> [])
      else if find_str ''COMMAND_ACK'' m = Some 0 then
        (case find_char (CHR '':'') m of
           Some pos \<Rightarrow> if returns (stoll (drop (pos + 1) m)) then guarded M_slaves [] else []
         | None \<Rightarrow> [])
      else [])"

text \<open>A message is answered over its connection once it is handled; no reply is empty.\<close>

fun call_locks :: "repl_call \<Rightarrow> repl \<Rightarrow> repl_mutex program" where
  "call_locks (Call_add h p) s = (if isMaster s then guarded M_slaves [] else [])"
| "call_locks (Call_remove i) s = (if isMaster s then guarded M_slaves [] else [])"
| "call_locks Call_list s = guarded M_slaves []"
| "call_locks (Call_replicate c) s = replicateCommand_locks s"
| "call_locks (Call_message m c) s = handleReplicationMessage_locks m c s @ client_send_locks c"
| "call_locks Pass_of_master s = masterLoop_locks s"
| "call_locks Pass_of_ping s = pingSlaves_locks"
| "call_locks Pass_of_slave s = [Pause]"

subsection \<open>The order of the mutexes\<close>

fun repl_rank :: "repl_mutex \<Rightarrow> nat" where
  "repl_rank M_slaves = 0"
| "repl_rank M_log = 1"
| "repl_rank M_stats = 2"
| "repl_rank (M_send a) = 3"

text \<open>In a reachable state no entry of the queue is ahead of the offset.\<close>

lemma drain_locks_stale: "\<forall>e\<in>set es. entry_offset e \<le> cur \<Longrightarrow> drain_locks es cur = []"
  by (induction es) auto

lemma queue_locks_reachable: "repl_inv s \<Longrightarrow> processReplicationQueue_locks s = guarded M_log []"
  using drain_locks_stale[OF log_ok_stale] by (simp add: processReplicationQueue_locks_def repl_inv_def)

lemmas lock_programs = guarded_def replicateToSlaves_locks_def replicateCommand_locks_def
  updateSlaveStats_locks_def masterLoop_locks_def pingSlaves_locks_def handleSlaveConnection_locks_def
  handleReplicationMessage_locks_def client_send_locks_def sendSyncCommands_locks_def
  handleSyncRequest_locks_def

lemma call_in_order:
  assumes "repl_inv s"
  shows "ordered repl_rank [] (call_locks c s)"
  using queue_locks_reachable[OF assms]
  by (cases c) (simp_all add: lock_programs split: option.split outcome.split)

text \<open>The threads of the manager: sequences of calls, each made in a reachable state.\<close>

definition thread_program :: "(repl_call \<times> repl) list \<Rightarrow> repl_mutex program" where
  "thread_program cs = concat (map (\<lambda>(c, s). call_locks c s) cs)"

definition repl_programs :: "repl_mutex program set" where
  "repl_programs = {thread_program cs | cs. \<forall>(c, s)\<in>set cs. \<exists>h p. repl_reachable h p s}"

interpretation rl: lock_order repl_rank repl_programs
proof
  fix p assume "p \<in> repl_programs"
  then obtain cs where cs: "p = thread_program cs" "\<forall>(c, s)\<in>set cs. \<exists>h p. repl_reachable h p s"
    by (auto simp: repl_programs_def)
  have "ordered repl_rank [] q" if "q \<in> set (map (\<lambda>(c, s). call_locks c s) cs)" for q
    using that cs(2) call_in_order repl_inv_reachable by fastforce
  then show "ordered repl_rank [] p" using cs(1) ordered_concat unfolding thread_program_def by blast
qed

subsection \<open>Properties\<close>

text \<open>
  C12. The replication manager does not deadlock.  Whatever calls its threads make, in whatever
  reachable states and however they interleave, no state they get to is stuck, and from each of
  them the threads can all be brought to their ends.  The mutexes of the connections they send over
  are among those taken.
\<close>
theorem replication_never_deadlocks:
  assumes "\<forall>cs\<in>set threads. \<forall>(c, s)\<in>set cs. \<exists>h p. repl_reachable h p s"
    and "lock_step\<^sup>*\<^sup>* (start (map thread_program threads)) ts"
  shows "\<not> deadlocked ts \<and> (\<exists>ts'. lock_step\<^sup>*\<^sup>* ts ts' \<and> all_done ts')"
proof -
  have "set (map thread_program threads) \<subseteq> repl_programs"
    using assms(1) unfolding repl_programs_def by auto
  then have "rl.sound ts" using rl.sound_run[OF assms(2)] rl.sound_start by blast
  then show ?thesis using rl.not_deadlocked rl.can_end by blast
qed

theorem replication_never_deadlocks_witness:
  "\<not> deadlocked (start [call_locks Pass_of_master (init_repl '''' 0 ReplicationManager_init),
     call_locks Pass_of_ping (init_repl '''' 0 ReplicationManager_init)])"
  using replication_never_deadlocks[of "[[(Pass_of_master, init_repl '''' 0 ReplicationManager_init)],
      [(Pass_of_ping, init_repl '''' 0 ReplicationManager_init)]]"] reach_init[of "''''" 0]
  by (auto simp: thread_program_def)

text \<open>
  It would deadlock if the queue did its work.  In a state whose queue has an entry ahead of the
  offset, which is what \<^verbatim>\<open>processReplicationQueue\<close> is there to replicate, the master's thread and
  the connection of a slave that lags take the mutexes of the log and of the slaves in opposite
  orders, and can end up waiting for each other.
\<close>
theorem replicating_queue_would_deadlock:
  assumes "e \<in> set (rlog s)" and "entry_offset e > roffset s"
    and "cl_valid c" and "cl_receive c \<noteq> ''''" and "cl_send_ok c" and "client_lags c s"
  shows "\<exists>ts. lock_step\<^sup>*\<^sup>* (start [call_locks Pass_of_master s,
      call_locks (Call_message ''SLAVE_CONNECT'' c) s]) ts \<and> deadlocked ts"
proof -
  have "\<exists>q. drain_locks es cur = Acq M_slaves # q" if "e \<in> set es" "entry_offset e > cur" for es cur
    using that by (induction es) (auto simp: replicateToSlaves_locks_def guarded_def)
  then obtain q where q: "drain_locks (rlog s) (roffset s) = Acq M_slaves # q" using assms(1,2) by blast
  define r where "r = q @ [Rel M_log] @ updateSlaveStats_locks @ guarded M_slaves [] @ guarded M_slaves [] @ [Pause]"
  have 0: "call_locks Pass_of_master s = Acq M_stats # Rel M_stats # Acq M_log # Acq M_slaves # r"
    using q by (simp add: r_def masterLoop_locks_def processReplicationQueue_locks_def guarded_def)
  let ?m = "M_send (cl_address c)"
  define w where "w = [Acq ?m, Rel ?m, Rel M_log, Rel M_slaves, Acq ?m, Rel ?m]"
  have "(find_str ''SLAVE_CONNECT'' ''SLAVE_CONNECT'' = Some 0) = True"
    unfolding find_str_0 by (simp add: starts_with_def)
  then have 1: "call_locks (Call_message ''SLAVE_CONNECT'' c) s =
      Acq M_slaves # Acq ?m # Rel ?m # Acq M_log # w"
    using assms(3-6) by (simp only: call_locks.simps handleReplicationMessage_locks_def
        handleSlaveConnection_locks_def sendSyncCommands_locks_def client_send_locks_def guarded_def
        if_True if_False simp_thms append.simps w_def)
  let ?w = "Acq M_slaves # Acq ?m # Rel ?m # Acq M_log # w"
  let ?t0 = "[([], Acq M_stats # Rel M_stats # Acq M_log # Acq M_slaves # r), ([], ?w)]"
  let ?t1 = "[([M_stats], Rel M_stats # Acq M_log # Acq M_slaves # r), ([], ?w)]"
  let ?t2 = "[([], Acq M_log # Acq M_slaves # r), ([], ?w)]"
  let ?t3 = "[([M_log], Acq M_slaves # r), ([], ?w)]"
  let ?t4 = "[([M_log], Acq M_slaves # r), ([M_slaves], Acq ?m # Rel ?m # Acq M_log # w)]"
  let ?t5 = "[([M_log], Acq M_slaves # r), ([?m, M_slaves], Rel ?m # Acq M_log # w)]"
  let ?t6 = "[([M_log], Acq M_slaves # r), ([M_slaves], Acq M_log # w)]"
  have "lock_step ?t0 ?t1" "lock_step ?t1 ?t2" "lock_step ?t2 ?t3"
    by (rule lock_step.intros[of 0], simp add: thread_step_def free_for_def)+
  moreover have "lock_step ?t3 ?t4" "lock_step ?t4 ?t5" "lock_step ?t5 ?t6"
    by (rule lock_step.intros[of 1], simp add: thread_step_def free_for_def)+
  ultimately have run: "lock_step\<^sup>*\<^sup>* ?t0 ?t6" by (meson converse_rtranclp_into_rtranclp rtranclp.rtrancl_refl)
  have "thread_step i ?t6 = None" for i
    by (cases i) (auto simp: thread_step_def free_for_def nth_Cons split: nat.split)
  then have "deadlocked ?t6" by (auto simp: deadlocked_def all_done_def lock_step.simps)
  with run show ?thesis unfolding start_def list.map 0 1 by blast
qed

theorem replicating_queue_would_deadlock_witness:
  "\<exists>s ts. lock_step\<^sup>*\<^sup>* (start [call_locks Pass_of_master s,
      call_locks (Call_message ''SLAVE_CONNECT'' some_client) s]) ts \<and> deadlocked ts"
proof -
  let ?s = "ReplicationManager_init\<lparr>rlog := [\<lparr>entry_offset = 5, entry_command = ''x'', entry_time = 0\<rparr>], roffset := 3\<rparr>"
  have "client_lags some_client ?s" by (simp add: client_lags_def ReplicationManager_init_def)
  from replicating_queue_would_deadlock[OF _ _ _ _ _ this, of "\<lparr>entry_offset = 5, entry_command = ''x'', entry_time = 0\<rparr>"]
  show ?thesis by (auto simp: some_client_def)
qed

text \<open>
  While the ping thread sleeps it holds the mutex of the slaves, so a command that replicates waits
  for the rest of the ping interval.
\<close>
theorem commands_wait_for_ping:
  assumes "isMaster s"
  shows "\<exists>ts p q. lock_step\<^sup>*\<^sup>* (start [call_locks Pass_of_ping s, call_locks (Call_replicate c) s]) ts \<and>
    snd (ts ! 0) = Pause # p \<and> snd (ts ! 1) = Acq M_slaves # q \<and> thread_step 1 ts = None"
proof -
  let ?q = "[Rel M_slaves, Acq M_stats, Rel M_stats]"
  let ?w = "[Acq M_log, Rel M_log, Acq M_slaves] @ ?q"
  let ?p = "[Rel M_slaves]"
  let ?t0 = "[([], [Acq M_slaves, Rel M_slaves, Acq M_slaves, Pause] @ ?p), ([], ?w)]"
  let ?t1 = "[([M_slaves], [Rel M_slaves, Acq M_slaves, Pause] @ ?p), ([], ?w)]"
  let ?t2 = "[([], [Acq M_slaves, Pause] @ ?p), ([], ?w)]"
  let ?t3 = "[([M_slaves], Pause # ?p), ([], ?w)]"
  let ?t4 = "[([M_slaves], Pause # ?p), ([M_log], [Rel M_log, Acq M_slaves] @ ?q)]"
  let ?t5 = "[([M_slaves], Pause # ?p), ([], Acq M_slaves # ?q)]"
  have "lock_step ?t0 ?t1" "lock_step ?t1 ?t2" "lock_step ?t2 ?t3"
    by (rule lock_step.intros[of 0], simp add: thread_step_def free_for_def)+
  moreover have "lock_step ?t3 ?t4" "lock_step ?t4 ?t5"
    by (rule lock_step.intros[of 1], simp add: thread_step_def free_for_def)+
  ultimately have "lock_step\<^sup>*\<^sup>* ?t0 ?t5" by (meson converse_rtranclp_into_rtranclp rtranclp.rtrancl_refl)
  moreover have "start [call_locks Pass_of_ping s, call_locks (Call_replicate c) s] = ?t0"
    using assms by (simp add: start_def lock_programs)
  moreover have "thread_step 1 ?t5 = None" by (simp add: thread_step_def free_for_def)
  ultimately show ?thesis by (intro exI[of _ ?t5] exI[of _ ?p] exI[of _ ?q]) simp
qed

theorem commands_wait_for_ping_witness:
  "\<exists>ts. lock_step\<^sup>*\<^sup>* (start [call_locks Pass_of_ping (setRole MASTER ReplicationManager_init),
      call_locks (Call_replicate ''SET 1 a'') (setRole MASTER ReplicationManager_init)]) ts \<and>
    thread_step 1 ts = None"
  using commands_wait_for_ping[of "setRole MASTER ReplicationManager_init" "''SET 1 a''"]
  by (auto simp: setRole_def isMaster_def)

end
