(* ===== verification/TestPrograms.thy ===== *)
theory TestPrograms
  imports ReplicationProps
begin

section \<open>The manual test programs (test\_master\_loop, test\_replication\_complete, test\_slave\_functions, debug\_server)\<close>

text \<open>
  Three programs drive a \<^verbatim>\<open>ReplicationManager\<close> and print what they see; the fourth only waits for a
  signal.  Between two actions of main the background threads make passes of their loops: which
  ones, and at which times, is an argument of the model, one list of passes per gap.  A
  program ends with its exit code, the lines it printed (blank ones left out) and the managers it
  leaves.
\<close>

subsection \<open>Background passes\<close>

datatype pass = Master_pass int int | Ping_pass int int | Slave_pass

fun run_pass :: "pass \<Rightarrow> repl \<Rightarrow> repl" where
  "run_pass (Master_pass t1 t2) s = (if master_thread s then masterLoop_pass t1 t2 s else s)"
| "run_pass (Ping_pass t1 t2) s = (if ping_thread s then pingSlaves_pass t1 t2 s else s)"
| "run_pass Slave_pass s = (if slave_thread s then slaveLoop_pass s else s)"

definition run_passes :: "pass list \<Rightarrow> repl \<Rightarrow> repl" where
  "run_passes ps s = fold run_pass ps s"

text \<open>\<^verbatim>\<open>static_cast<int>(state)\<close>.\<close>

fun state_number :: "repl_state \<Rightarrow> int" where
  "state_number CONNECTING = 0"
| "state_number CONNECTED = 1"
| "state_number SYNCING = 2"
| "state_number ONLINE = 3"
| "state_number DISCONNECTED = 4"
| "state_number REPL_ERROR = 5"

subsection \<open>The loop over the commands\<close>

text \<open>
  \<^verbatim>\<open>for (int i = ...; ++i) { replicateCommand; print; sleep; }\<close> with n rounds left: the times of the
  calls are now, the passes before the statistics are read \<open>bg (2 * i)\<close> and those of the sleep
  \<open>bg (2 * i + 1)\<close>.
\<close>

definition set_command :: "string \<Rightarrow> nat \<Rightarrow> string" where
  "set_command who i = ''SET '' @ who @ ''key'' @ nat_to_string i @ '' '' @ who @ ''value'' @ nat_to_string i"

fun send_commands :: "(nat \<Rightarrow> string \<Rightarrow> repl \<Rightarrow> string list) \<Rightarrow> string \<Rightarrow> (nat \<Rightarrow> int) \<Rightarrow>
    (nat \<Rightarrow> pass list) \<Rightarrow> nat \<Rightarrow> nat \<Rightarrow> repl \<Rightarrow> string list \<times> repl" where
  "send_commands print who now bg i 0 s = ([], s)"
| "send_commands print who now bg i (Suc n) s =
     (let c = set_command who i;
          s1 = run_passes (bg (2 * i)) (replicateCommand (now i) c s);
          lns = print i c s1;
          s2 = run_passes (bg (2 * i + 1)) s1
      in case send_commands print who now bg (Suc i) n s2 of (rest, s3) \<Rightarrow> (lns @ rest, s3))"

subsection \<open>test\_master\_loop.cpp\<close>

definition master_loop_lines :: "nat \<Rightarrow> string \<Rightarrow> repl \<Rightarrow> string list" where
  "master_loop_lines i c s =
     [''Replicated command: '' @ c,
      ''Stats - Commands: '' @ int_to_string (total_commands_replicated (rstats s)) @
      '', Bytes: '' @ int_to_string (total_bytes_replicated (rstats s)) @
      '', Connected slaves: '' @ int_to_string (connected_slaves (rstats s))]"

definition test_master_loop :: "tcp_env \<Rightarrow> (nat \<Rightarrow> int) \<Rightarrow> (nat \<Rightarrow> pass list) \<Rightarrow>
    (exn, int \<times> string list \<times> repl) outcome" where
  "test_master_loop env now bg =
     (let m0 = init_repl '''' 0 ReplicationManager_init;
          m1 = snd (addSlave ''127.0.0.1'' 6380 m0);
          m2 = snd (addSlave ''127.0.0.1'' 6381 m1);
          out0 = [''Testing ReplicationManager masterLoop implementation...'']
      in case startReplication env m2 of
           Throw (e, m) \<Rightarrow> Throw e
         | Fault x \<Rightarrow> Fault x
         | Ok (started, m3) \<Rightarrow>
             if \<not> started then obind (stop_call env m3) (\<lambda>m. Ok (1, out0 @ [''Failed to start replication''], m))
             else case send_commands master_loop_lines '''' now bg 0 5 m3 of (lns, m4) \<Rightarrow>
               obind (stop_call env (run_passes (bg 10) m4)) (\<lambda>m.
                 Ok (0, out0 @ [''Master replication started successfully''] @ lns @
                   [''Running master loop for 10 seconds...'', ''Test completed successfully!''], m)))"

subsection \<open>test\_replication\_complete.cpp\<close>

definition complete_lines :: "nat \<Rightarrow> string \<Rightarrow> repl \<Rightarrow> string list" where
  "complete_lines i c s =
     [''Command '' @ nat_to_string (i + 1) @ '': '' @ c,
      ''  - Total commands: '' @ int_to_string (total_commands_replicated (rstats s)) @
      '', Total bytes: '' @ int_to_string (total_bytes_replicated (rstats s)) @
      '', Connected slaves: '' @ int_to_string (connected_slaves (rstats s)) @
      '', Replication lag: '' @ int_to_string (replication_lag (rstats s))]"

definition slave_line :: "string \<Rightarrow> slave_info \<Rightarrow> string" where
  "slave_line pre sl =
     pre @ ''Slave: '' @ slave_id sl @ '', State: '' @ int_to_string (state_number (slave_state sl)) @
     '', Online: '' @ (if is_online sl then ''Yes'' else ''No'') @
     '', Offset: '' @ int_to_string (slave_offset sl)"

definition final_lines :: "repl \<Rightarrow> string list" where
  "final_lines s =
     [''=== Final Statistics ==='', ''Final replication stats:'',
      ''  - Total commands replicated: '' @ int_to_string (total_commands_replicated (rstats s)),
      ''  - Total bytes replicated: '' @ int_to_string (total_bytes_replicated (rstats s)),
      ''  - Connected slaves: '' @ int_to_string (connected_slaves (rstats s)),
      ''  - Average replication lag: '' @ int_to_string (replication_lag (rstats s)),
      ''  - Current replication offset: '' @ int_to_string (roffset s)]"

definition test_replication_complete :: "tcp_env \<Rightarrow> (nat \<Rightarrow> int) \<Rightarrow> (nat \<Rightarrow> pass list) \<Rightarrow>
    (exn, int \<times> string list \<times> repl) outcome" where
  "test_replication_complete env now bg =
     (let m0 = init_repl '''' 0 ReplicationManager_init;
          m1 = snd (addSlave ''127.0.0.1'' 6380 m0);
          m2 = snd (addSlave ''127.0.0.1'' 6381 m1);
          m3 = snd (addSlave ''127.0.0.1'' 6382 m2);
          out0 = [''=== Testing Complete Replication System ==='',
                  ''Added '' @ nat_to_string (length (getSlaves m3)) @ '' slaves'']
      in case startReplication env m3 of
           Throw (e, m) \<Rightarrow> Throw e
         | Fault x \<Rightarrow> Fault x
         | Ok (started, m4) \<Rightarrow>
             if \<not> started then obind (stop_call env m4) (\<lambda>m. Ok (1, out0 @ [''Failed to start replication''], m))
             else case send_commands complete_lines '''' now bg 0 10 m4 of (lns, m5) \<Rightarrow>
               let m6 = run_passes (bg 20) m5
               in obind (stop_call env m6) (\<lambda>m. Ok (0, out0 @ [''Master replication started successfully'',
                   ''Master state: '' @ int_to_string (state_number (rstate m4)),
                   ''=== Simulating Replication Commands ===''] @ lns @
                   [''=== Slave Information ===''] @ map (slave_line []) (getSlaves m5) @
                   [''=== Running Master Loop ==='', ''Master loop will run for 5 seconds...''] @
                   final_lines m6 @ [''=== Test Completed Successfully! ===''], m)))"

subsection \<open>test\_slave\_functions.cpp\<close>

definition slave_test_lines :: "nat \<Rightarrow> string \<Rightarrow> repl \<Rightarrow> string list" where
  "slave_test_lines i c s =
     [''Command '' @ nat_to_string (i + 1) @ '': '' @ c,
      ''  - Connected slaves: '' @ int_to_string (connected_slaves (rstats s))]"

text \<open>
  The slave's passes before its state is printed are \<open>sbg 0\<close>, those of its ten seconds \<open>sbg 1\<close> and
  those while the master is tested \<open>sbg 2\<close>.  When the second start fails, the destructors of both
  managers stop them.
\<close>

definition test_slave_functions :: "tcp_env \<Rightarrow> (nat \<Rightarrow> int) \<Rightarrow> (nat \<Rightarrow> pass list) \<Rightarrow> (nat \<Rightarrow> pass list) \<Rightarrow>
    (exn, int \<times> string list \<times> repl \<times> repl) outcome" where
  "test_slave_functions env now sbg bg =
     (let l0 = init_repl ''127.0.0.1'' 16379 ReplicationManager_init;
          out0 = [''=== Testing Slave Functions Implementation ==='', ''1. Testing Slave Mode...'',
                  ''Slave initialized, master: '' @ getMasterAddress l0,
                  ''Slave role: '' @ (if isSlave l0 then ''SLAVE'' else ''NOT SLAVE'')];
          l1 = setCommandHandler l0
      in case startReplication env l1 of
           Throw (e, m) \<Rightarrow> Throw e
         | Fault x \<Rightarrow> Fault x
         | Ok (started, l2) \<Rightarrow>
             if \<not> started then obind (stop_call env l2) (\<lambda>l.
                 Ok (1, out0 @ [''Failed to start slave replication''], l, ReplicationManager_init))
             else
               let l3 = run_passes (sbg 0) l2;
                   out1 = out0 @ [''Slave replication started'',
                     ''Slave state: '' @ int_to_string (state_number (rstate l3)),
                     ''2. Running slave for 10 seconds...'', ''3. Testing Master Mode...'', ''Master initialized''];
                   l4 = run_passes (sbg 2) (run_passes (sbg 1) l3);
                   m0 = init_repl '''' 0 ReplicationManager_init;
                   m1 = snd (addSlave ''127.0.0.1'' 6380 m0);
                   m2 = snd (addSlave ''127.0.0.1'' 6381 m1)
               in case startReplication env m2 of
                    Throw (e, m) \<Rightarrow> Throw e
                  | Fault x \<Rightarrow> Fault x
                  | Ok (started, m3) \<Rightarrow>
                      if \<not> started then
                        obind (stop_call env m3) (\<lambda>m. obind (stop_call env l4) (\<lambda>l.
                          Ok (1, out1 @ [''Failed to start master replication''], l, m)))
                      else case send_commands slave_test_lines ''master_'' now bg 0 5 m3 of (lns, m4) \<Rightarrow>
                        obind (stop_call env l4) (\<lambda>l.
                        obind (stop_call env (run_passes (bg 10) m4)) (\<lambda>m.
                          Ok (0, out1 @ [''Master replication started'', ''4. Simulating replication commands...''] @
                            lns @ [''5. Slave Information:''] @ map (slave_line ''  - '') (getSlaves m4) @
                            [''6. Running master for 5 seconds...'', ''7. Stopping replication...'',
                             ''=== All Tests Completed Successfully! ===''], l, m))))"

subsection \<open>debug\_server.cpp\<close>

text \<open>Its main waits for ever; a signal ends it with 0.\<close>

definition debug_signalHandler :: "int \<Rightarrow> string list \<Rightarrow> int \<times> string list" where
  "debug_signalHandler sig out =
     (0, out @ [''Received signal '' @ int_to_string sig @ '', shutting down...''])"

definition debug_server_main :: "int option \<Rightarrow> (exn, int \<times> string list) outcome" where
  "debug_server_main sig =
     (let out = [''Debug Server Starting...'', ''Creating server instance...'',
            ''Server instance created successfully!'', ''Press Ctrl+C to stop'']
      in case sig of None \<Rightarrow> Fault Diverges | Some n \<Rightarrow> Ok (debug_signalHandler n out))"

subsection \<open>A master no slave ever connects to\<close>

text \<open>
  \<^verbatim>\<open>quiet\<close>: no slave is online, nothing was sent or announced, and n commands of together b bytes
  were replicated.  The passes of the loops keep it.
\<close>

definition quiet :: "nat \<Rightarrow> nat \<Rightarrow> repl \<Rightarrow> bool" where
  "quiet n b s \<longleftrightarrow> role s = MASTER \<and> slave_thread s = False \<and> log_ok s \<and>
     (\<forall>sl\<in>set (slaves s). \<not> is_online sl) \<and> sent s = [] \<and> announced s = [] \<and>
     roffset s = int n \<and> total_commands_replicated (rstats s) = int n \<and>
     total_bytes_replicated (rstats s) = int b \<and> connected_slaves (rstats s) = 0 \<and>
     replication_lag (rstats s) = 0"

lemma offline_filter: "\<forall>sl\<in>set sls. \<not> is_online sl \<Longrightarrow> filter is_online sls = []"
  by (simp add: filter_empty_conv)

lemma quiet_master_pass: "quiet n b s \<Longrightarrow> quiet n b (masterLoop_pass t1 t2 s)"
proof -
  assume q: "quiet n b s"
  have 1: "quiet n b (handleNewSlaveConnections s)" (is "quiet n b ?s1")
    using q by (auto simp: quiet_def handleNewSlaveConnections_def log_ok_def offline_filter)
  have 2: "quiet n b (processReplicationQueue ?s1)" (is "quiet n b ?s2")
    using 1 processReplicationQueue_discards[of ?s1] by (simp add: quiet_def log_ok_def)
  have 3: "quiet n b (updateSlaveStats ?s2)" (is "quiet n b ?s3")
    using 2 by (auto simp: quiet_def updateSlaveStats_def log_ok_def offline_filter Let_def)
  have 4: "quiet n b (checkSlaveHealth t1 ?s3)" (is "quiet n b ?s4")
    using 3 by (auto simp: quiet_def checkSlaveHealth_def log_ok_def)
  have "quiet n b (cleanupDeadSlaves t2 ?s4)"
    using 4 by (auto simp: quiet_def cleanupDeadSlaves_def log_ok_def)
  then show ?thesis by (simp add: masterLoop_pass_def)
qed

lemma quiet_ping_pass: "quiet n b s \<Longrightarrow> quiet n b (pingSlaves_pass t1 t2 s)"
  by (auto simp: quiet_def pingSlaves_pass_def cleanupDeadSlaves_def log_ok_def ping_one_def Let_def)

lemma quiet_pass: "quiet n b s \<Longrightarrow> quiet n b (run_pass p s)"
  by (cases p) (auto simp: quiet_master_pass quiet_ping_pass, simp add: quiet_def)

lemma quiet_passes: "quiet n b s \<Longrightarrow> quiet n b (run_passes ps s)"
  unfolding run_passes_def by (induction ps arbitrary: s) (simp_all add: quiet_pass)

lemma quiet_command:
  assumes "quiet n b s"
  shows "quiet (Suc n) (b + length c) (replicateCommand t c s)"
proof -
  have l: "log_ok (logReplicationEntry t c s)" using assms log_ok_snoc by (simp add: quiet_def)
  have "log_ok (replicateCommand t c s)"
    using l assms by (simp add: replicateCommand_def replicateToSlaves_def Let_def log_ok_def
        quiet_def isMaster_def)
  with assms show ?thesis
    by (simp add: quiet_def replicateCommand_def replicateToSlaves_def logReplicationEntry_def
        isMaster_def Let_def offline_filter)
qed

text \<open>What is printed then depends on the number of the command alone.\<close>

definition counted :: "nat \<Rightarrow> nat \<Rightarrow> repl" where
  "counted n b = ReplicationManager_init\<lparr>rstats := \<lparr>total_commands_replicated = int n,
     total_bytes_replicated = int b, replication_lag = 0, connected_slaves = 0, last_sync_time = 0\<rparr>\<rparr>"

fun bytes_sent :: "string \<Rightarrow> nat \<Rightarrow> nat" where
  "bytes_sent who 0 = 0"
| "bytes_sent who (Suc n) = bytes_sent who n + length (set_command who n)"

definition reads_counters :: "(nat \<Rightarrow> string \<Rightarrow> repl \<Rightarrow> string list) \<Rightarrow> bool" where
  "reads_counters print \<longleftrightarrow> (\<forall>i c s n b. quiet n b s \<longrightarrow> print i c s = print i c (counted n b))"

lemma printers_read_counters [simp]:
  "reads_counters master_loop_lines" "reads_counters complete_lines" "reads_counters slave_test_lines"
  by (simp_all add: reads_counters_def quiet_def counted_def master_loop_lines_def complete_lines_def
      slave_test_lines_def)

definition printed :: "(nat \<Rightarrow> string \<Rightarrow> repl \<Rightarrow> string list) \<Rightarrow> string \<Rightarrow> nat \<Rightarrow> nat \<Rightarrow> string list" where
  "printed print who i n = concat (map (\<lambda>j. print j (set_command who j)
     (counted (Suc j) (bytes_sent who (Suc j)))) [i..<i + n])"

lemma send_commands_quiet:
  assumes "reads_counters print"
  shows "quiet i (bytes_sent who i) s \<Longrightarrow>
    \<exists>s'. send_commands print who now bg i n s = (printed print who i n, s') \<and>
      quiet (i + n) (bytes_sent who (i + n)) s'"
proof (induction n arbitrary: i s)
  case (Suc n)
  let ?c = "set_command who i"
  let ?s1 = "run_passes (bg (2 * i)) (replicateCommand (now i) ?c s)"
  let ?s2 = "run_passes (bg (2 * i + 1)) ?s1"
  have 1: "quiet (Suc i) (bytes_sent who (Suc i)) ?s1"
    using quiet_passes[OF quiet_command[OF Suc.prems, of ?c]] by simp
  from Suc.IH[OF quiet_passes[OF 1]] obtain s' where
    "send_commands print who now bg (Suc i) n ?s2 = (printed print who (Suc i) n, s')"
    "quiet (Suc i + n) (bytes_sent who (Suc i + n)) s'" by blast
  moreover have "print i ?c ?s1 = print i ?c (counted (Suc i) (bytes_sent who (Suc i)))"
    using assms 1 unfolding reads_counters_def by blast
  moreover have "[i..<i + Suc n] = i # [Suc i..<Suc i + n]" by (simp add: upt_conv_Cons)
  ultimately show ?case by (simp add: printed_def Let_def del: upt_Suc bytes_sent.simps)
qed (simp add: printed_def)

definition sockets_ok :: "tcp_env \<Rightarrow> bool" where
  "sockets_ok env \<longleftrightarrow> socket_ok env \<and> setsockopt_ok env \<and> bind_ok env \<and> listen_ok env"

lemma start_master_ok:
  assumes "sockets_ok env" "isMaster s" "\<not> running s"
  shows "startReplication env s = Ok (True, s\<lparr>running := True, server_up := True,
    master_thread := True, ping_thread := True, rstate := ONLINE\<rparr>)"
  using assms by (simp add: sockets_ok_def startReplication_def tcp_init_def tcp_start_def
      isMaster_def updateState_def Let_def)

definition with_slaves :: "int list \<Rightarrow> repl" where
  "with_slaves ports = fold (\<lambda>p s. snd (addSlave ''127.0.0.1'' p s)) ports
     (init_repl '''' 0 ReplicationManager_init)"

lemma with_slaves_fields:
  "\<exists>sls. with_slaves ports = ReplicationManager_init\<lparr>role := MASTER, slaves := sls\<rparr> \<and>
     (\<forall>sl\<in>set sls. \<not> is_online sl)"
proof -
  have step: "\<exists>sls. fold (\<lambda>p s. snd (addSlave ''127.0.0.1'' p s)) ports
      (ReplicationManager_init\<lparr>role := MASTER, slaves := sls0\<rparr>) =
      ReplicationManager_init\<lparr>role := MASTER, slaves := sls\<rparr> \<and> (\<forall>sl\<in>set sls. \<not> is_online sl)"
    if "\<forall>sl\<in>set sls0. \<not> is_online sl" for sls0 using that
  proof (induction ports arbitrary: sls0)
    case (Cons p ports)
    obtain sls1 where "snd (addSlave ''127.0.0.1'' p (ReplicationManager_init\<lparr>role := MASTER, slaves := sls0\<rparr>)) =
        ReplicationManager_init\<lparr>role := MASTER, slaves := sls1\<rparr>" "\<forall>sl\<in>set sls1. \<not> is_online sl"
      using Cons.prems
      by (intro that[of "if \<exists>sl\<in>set sls0. slave_host sl = ''127.0.0.1'' \<and> slave_port sl = p
          then sls0 else sls0 @ [new_slave ''127.0.0.1'' p]"])
        (auto simp: addSlave_def isMaster_def new_slave_def)
    with Cons.IH[of sls1] show ?case by simp
  qed auto
  have "init_repl '''' 0 ReplicationManager_init =
      ReplicationManager_init\<lparr>role := MASTER, slaves := []\<rparr>"
    by (simp add: init_repl_def setRole_def ReplicationManager_init_def)
  with step[of "[]"] show ?thesis by (simp add: with_slaves_def)
qed

lemma started_quiet:
  assumes "sockets_ok env"
  shows "\<exists>m. startReplication env (with_slaves ports) = Ok (True, m) \<and> quiet 0 0 m \<and> rstate m = ONLINE"
proof -
  obtain sls where "with_slaves ports = ReplicationManager_init\<lparr>role := MASTER, slaves := sls\<rparr>"
    "\<forall>sl\<in>set sls. \<not> is_online sl" using with_slaves_fields by blast
  with start_master_ok[OF assms, of "with_slaves ports"] show ?thesis
    by (simp add: quiet_def isMaster_def ReplicationManager_init_def log_ok_def)
qed

lemma stop_call_Ok: "joins_end env \<Longrightarrow> stop_call env s = Ok (stopReplication s)"
  by (simp add: stop_call_def)

lemma quiet_stop: "quiet n b s \<Longrightarrow> quiet n b (stopReplication s)"
  by (simp add: quiet_def stopReplication_def updateState_def log_ok_def)

text \<open>
  The test program of the master loop prints the same lines whatever the background threads do
  and in whatever order: five commands counted as replicated, no slave connected, "completed
  successfully" once the joins of its stop have returned, although no slave was sent or told anything.
\<close>
theorem master_loop_test_transcript:
  assumes "sockets_ok env" "joins_end env"
  shows "\<exists>m. test_master_loop env now bg =
      Ok (0, [''Testing ReplicationManager masterLoop implementation...'',
              ''Master replication started successfully''] @ printed master_loop_lines '''' 0 5 @
             [''Running master loop for 10 seconds...'', ''Test completed successfully!''], m) \<and>
    sent m = [] \<and> announced m = []"
proof -
  obtain m where m: "startReplication env (with_slaves [6380, 6381]) = Ok (True, m)" "quiet 0 0 m"
    using started_quiet[OF assms(1)] by blast
  from send_commands_quiet[of master_loop_lines 0 "''''" m now bg 5] m(2) obtain m4 where
    m4: "send_commands master_loop_lines '''' now bg 0 5 m = (printed master_loop_lines '''' 0 5, m4)"
    "quiet 5 (bytes_sent '''' 5) m4" by auto
  have "quiet 5 (bytes_sent '''' 5) (stopReplication (run_passes (bg 10) m4))"
    by (rule quiet_stop[OF quiet_passes[OF m4(2)]])
  with m m4(1) show ?thesis
    by (simp add: test_master_loop_def with_slaves_def stop_call_Ok[OF assms(2)] quiet_def Let_def)
qed

theorem master_loop_test_transcript_witness:
  "\<exists>out m. test_master_loop \<lparr>socket_ok = True, setsockopt_ok = True, bind_ok = True, listen_ok = True, joins_end = True\<rparr>
      (\<lambda>i. int i) (\<lambda>i. [Master_pass 1 2, Ping_pass 3 4]) = Ok (0, out, m) \<and> sent m = []"
  using master_loop_test_transcript[of "\<lparr>socket_ok = True, setsockopt_ok = True, bind_ok = True,
      listen_ok = True, joins_end = True\<rparr>" "\<lambda>i. int i" "\<lambda>i. [Master_pass 1 2, Ping_pass 3 4]"]
  by (auto simp: sockets_ok_def)

text \<open>
  The complete test, when the joins of its stop return, reports ten replicated commands, no lag and
  success under every interleaving,
  with no slave online at any time; the only thing the threads can change is which of the offline
  slaves the clean-up has left to list.
\<close>
theorem complete_test_transcript:
  assumes "sockets_ok env" "joins_end env"
  shows "\<exists>sls m. test_replication_complete env now bg =
      Ok (0, [''=== Testing Complete Replication System ==='', ''Added 3 slaves'',
              ''Master replication started successfully'', ''Master state: 3'',
              ''=== Simulating Replication Commands ===''] @ printed complete_lines '''' 0 10 @
             [''=== Slave Information ===''] @ map (slave_line []) sls @
             [''=== Running Master Loop ==='', ''Master loop will run for 5 seconds...''] @
             final_lines ((counted 10 (bytes_sent '''' 10))\<lparr>roffset := 10\<rparr>) @
             [''=== Test Completed Successfully! ===''], m) \<and>
    (\<forall>sl\<in>set sls. \<not> is_online sl) \<and> sent m = [] \<and> announced m = []"
proof -
  obtain m where m: "startReplication env (with_slaves [6380, 6381, 6382]) = Ok (True, m)" "quiet 0 0 m"
    "rstate m = ONLINE" using started_quiet[OF assms(1)] by blast
  from send_commands_quiet[of complete_lines 0 "''''" m now bg 10] m(2) obtain m5 where
    m5: "send_commands complete_lines '''' now bg 0 10 m = (printed complete_lines '''' 0 10, m5)"
    "quiet 10 (bytes_sent '''' 10) m5" by auto
  let ?m6 = "run_passes (bg 20) m5"
  have 6: "quiet 10 (bytes_sent '''' 10) ?m6" by (rule quiet_passes[OF m5(2)])
  have fin: "final_lines ?m6 = final_lines ((counted 10 (bytes_sent '''' 10))\<lparr>roffset := 10\<rparr>)"
    using 6 by (simp add: final_lines_def quiet_def counted_def)
  have len: "nat_to_string (length (getSlaves (with_slaves [6380, 6381, 6382]))) = ''3''"
    by (simp add: with_slaves_def init_repl_def setRole_def addSlave_def isMaster_def new_slave_def
        ReplicationManager_init_def getSlaves_def nat_to_string.simps digit_char_def)
  have "test_replication_complete env now bg =
      Ok (0, [''=== Testing Complete Replication System ==='',
              ''Added '' @ nat_to_string (length (getSlaves (with_slaves [6380, 6381, 6382]))) @ '' slaves'',
              ''Master replication started successfully'', ''Master state: '' @ int_to_string 3,
              ''=== Simulating Replication Commands ===''] @ printed complete_lines '''' 0 10 @
             [''=== Slave Information ===''] @ map (slave_line []) (slaves m5) @
             [''=== Running Master Loop ==='', ''Master loop will run for 5 seconds...''] @
             final_lines ?m6 @ [''=== Test Completed Successfully! ===''], stopReplication ?m6)"
    using m m5(1) by (simp add: test_replication_complete_def with_slaves_def getSlaves_def
        stop_call_Ok[OF assms(2)] Let_def)
  moreover have "int_to_string 3 = ''3''"
    by (simp add: int_to_string_def nat_to_string.simps digit_char_def)
  moreover have "\<forall>sl\<in>set (slaves m5). \<not> is_online sl" using m5(2) by (simp add: quiet_def)
  moreover have "sent (stopReplication ?m6) = []" "announced (stopReplication ?m6) = []"
    using quiet_stop[OF 6] by (simp_all add: quiet_def)
  ultimately show ?thesis
    unfolding fin len by (intro exI[of _ "slaves m5"] exI[of _ "stopReplication ?m6"]) simp
qed

theorem complete_test_transcript_witness:
  "\<exists>out m. test_replication_complete \<lparr>socket_ok = True, setsockopt_ok = True, bind_ok = True,
      listen_ok = True, joins_end = True\<rparr> (\<lambda>i. int i) (\<lambda>i. [Master_pass 1 2, Ping_pass 3 4]) = Ok (0, out, m) \<and> announced m = []"
  using complete_test_transcript[of "\<lparr>socket_ok = True, setsockopt_ok = True, bind_ok = True,
      listen_ok = True, joins_end = True\<rparr>" "\<lambda>i. int i" "\<lambda>i. [Master_pass 1 2, Ping_pass 3 4]"]
  unfolding sockets_ok_def by fastforce

text \<open>The passes of a slave.\<close>

lemma slave_inv_pass: "slave_inv s \<Longrightarrow> slave_inv (run_pass p s)"
  by (cases p) (auto simp: slave_inv_def slave_pass updateState_def)

lemma slave_inv_passes: "slave_inv s \<Longrightarrow> slave_inv (run_passes ps s)"
  unfolding run_passes_def by (induction ps arbitrary: s) (simp_all add: slave_inv_pass)

definition early :: "repl_state \<Rightarrow> bool" where
  "early st \<longleftrightarrow> st = CONNECTING \<or> st = CONNECTED \<or> st = REPL_ERROR"

lemma early_passes: "slave_inv s \<Longrightarrow> early (rstate s) \<Longrightarrow> early (rstate (run_passes ps s))"
  unfolding run_passes_def
proof (induction ps arbitrary: s)
  case (Cons p ps)
  have "early (rstate (run_pass p s))"
    using Cons.prems by (cases p) (auto simp: slave_inv_def early_def slave_pass updateState_def)
  with Cons slave_inv_pass[of s p] show ?case by simp
qed simp

lemma start_slave_ok:
  "isSlave s \<Longrightarrow> \<not> running s \<Longrightarrow>
    startReplication env s = Ok (True, s\<lparr>running := True, slave_thread := True, rstate := CONNECTING\<rparr>)"
  by (simp add: startReplication_def isMaster_def isSlave_def updateState_def Let_def)

lemma pass_keeps_running: "running (run_pass p s) = running s \<and> server_up (run_pass p s) = server_up s"
proof (cases p)
  case (Master_pass t1 t2)
  have "running (processReplicationQueue t) = running t \<and> server_up (processReplicationQueue t) = server_up t" for t
    using drain_log_frame[of "rlog t" "roffset t" t]
    by (auto simp: processReplicationQueue_def split: prod.split)
  with Master_pass show ?thesis
    by (simp add: masterLoop_pass_def handleNewSlaveConnections_def updateSlaveStats_def
        checkSlaveHealth_def cleanupDeadSlaves_def Let_def)
qed (auto simp: pingSlaves_pass_def cleanupDeadSlaves_def slave_pass updateState_def Let_def)

lemma passes_keep_running:
  "running (run_passes ps s) = running s" "server_up (run_passes ps s) = server_up s"
  unfolding run_passes_def by (induction ps arbitrary: s) (simp_all add: pass_keeps_running)

lemma commands_keep_running:
  "send_commands print who now bg i n s = (lns, t) \<Longrightarrow> running t = running s \<and> server_up t = server_up s"
proof (induction n arbitrary: i s lns)
  case (Suc n)
  let ?c = "set_command who i"
  let ?s2 = "run_passes (bg (2 * i + 1)) (run_passes (bg (2 * i)) (replicateCommand (now i) ?c s))"
  obtain rest where "send_commands print who now bg (Suc i) n ?s2 = (rest, t)"
    using Suc.prems by (auto simp: Let_def split: prod.splits)
  from Suc.IH[OF this] show ?case
    by (simp add: passes_keep_running replicateCommand_def replicateToSlaves_def logReplicationEntry_def Let_def)
qed simp

lemma slave_inv_stop: "slave_inv s \<Longrightarrow> slave_inv (stopReplication s)"
  by (simp add: slave_inv_def stopReplication_def updateState_def)

text \<open>
  The test of the slave functions, when the joins of its stops return, ends with success under every
  interleaving, although the slave
  handed no command to its handler and never reached ONLINE: the state it prints is CONNECTING,
  CONNECTED or ERROR.
\<close>
theorem slave_test_passes_in_vain:
  assumes "sockets_ok env" "joins_end env"
  shows "\<exists>st sls l m. test_slave_functions env now sbg bg =
      Ok (0, [''=== Testing Slave Functions Implementation ==='', ''1. Testing Slave Mode...'',
              ''Slave initialized, master: '' @ ''127.0.0.1:16379'', ''Slave role: SLAVE'',
              ''Slave replication started'', ''Slave state: '' @ int_to_string (state_number st),
              ''2. Running slave for 10 seconds...'', ''3. Testing Master Mode...'', ''Master initialized'',
              ''Master replication started'', ''4. Simulating replication commands...''] @
             printed slave_test_lines ''master_'' 0 5 @ [''5. Slave Information:''] @
             map (slave_line ''  - '') sls @
             [''6. Running master for 5 seconds...'', ''7. Stopping replication...'',
              ''=== All Tests Completed Successfully! ===''], l, m) \<and>
    early st \<and> applied l = [] \<and> rstate l = DISCONNECTED \<and>
    (\<forall>sl\<in>set sls. \<not> is_online sl) \<and> sent m = [] \<and> announced m = []"
proof -
  let ?l0 = "init_repl ''127.0.0.1'' 16379 ReplicationManager_init"
  let ?l2 = "(setCommandHandler ?l0)\<lparr>running := True, slave_thread := True, rstate := CONNECTING\<rparr>"
  let ?l3 = "run_passes (sbg 0) ?l2"
  let ?l4 = "run_passes (sbg 2) (run_passes (sbg 1) ?l3)"
  have start: "startReplication env (setCommandHandler ?l0) = Ok (True, ?l2)"
    by (rule start_slave_ok) (simp_all add: setCommandHandler_def init_repl_def setRole_def
        setMasterAddress_def isSlave_def ReplicationManager_init_def)
  have l2: "slave_inv ?l2" by (simp add: slave_inv_def setCommandHandler_def init_repl_def
        setRole_def setMasterAddress_def ReplicationManager_init_def)
  have l3: "early (rstate ?l3)" by (rule early_passes[OF l2]) (simp add: early_def)
  have l4: "slave_inv (stopReplication ?l4)"
    by (intro slave_inv_stop slave_inv_passes l2)
  have addr: "getMasterAddress ?l0 = ''127.0.0.1:16379''" "isSlave ?l0"
    by (simp_all add: getMasterAddress_def init_repl_def setRole_def setMasterAddress_def isSlave_def
        ReplicationManager_init_def int_to_string_def nat_to_string.simps digit_char_def)
  obtain m where m: "startReplication env (with_slaves [6380, 6381]) = Ok (True, m)" "quiet 0 0 m"
    using started_quiet[OF assms(1)] by blast
  from send_commands_quiet[of slave_test_lines 0 "''master_''" m now bg 5] m(2) obtain m4 where
    m4: "send_commands slave_test_lines ''master_'' now bg 0 5 m = (printed slave_test_lines ''master_'' 0 5, m4)"
    "quiet 5 (bytes_sent ''master_'' 5) m4" by auto
  let ?m = "stopReplication (run_passes (bg 10) m4)"
  have q: "quiet 5 (bytes_sent ''master_'' 5) ?m" by (rule quiet_stop[OF quiet_passes[OF m4(2)]])
  have down: "rstate (stopReplication ?l4) = DISCONNECTED"
    by (simp add: stopReplication_def passes_keep_running updateState_def)
  have "test_slave_functions env now sbg bg =
      Ok (0, [''=== Testing Slave Functions Implementation ==='', ''1. Testing Slave Mode...'',
              ''Slave initialized, master: '' @ getMasterAddress ?l0, ''Slave role: SLAVE'',
              ''Slave replication started'', ''Slave state: '' @ int_to_string (state_number (rstate ?l3)),
              ''2. Running slave for 10 seconds...'', ''3. Testing Master Mode...'', ''Master initialized'',
              ''Master replication started'', ''4. Simulating replication commands...''] @
             printed slave_test_lines ''master_'' 0 5 @ [''5. Slave Information:''] @
             map (slave_line ''  - '') (slaves m4) @
             [''6. Running master for 5 seconds...'', ''7. Stopping replication...'',
              ''=== All Tests Completed Successfully! ===''], stopReplication ?l4, ?m)"
    using start addr(2) m m4(1)
    by (simp add: test_slave_functions_def with_slaves_def getSlaves_def stop_call_Ok[OF assms(2)] Let_def)
  moreover have "\<forall>sl\<in>set (slaves m4). \<not> is_online sl" using m4(2) by (simp add: quiet_def)
  moreover have "sent ?m = []" "announced ?m = []" using q by (simp_all add: quiet_def)
  moreover have "applied (stopReplication ?l4) = []" using l4 by (simp add: slave_inv_def)
  ultimately show ?thesis using l3 down unfolding addr(1) append_assoc by blast
qed

theorem slave_test_passes_in_vain_witness:
  "\<exists>out l m. test_slave_functions \<lparr>socket_ok = True, setsockopt_ok = True, bind_ok = True,
      listen_ok = True, joins_end = True\<rparr> (\<lambda>i. int i) (\<lambda>i. [Slave_pass]) (\<lambda>i. [Master_pass 1 2]) = Ok (0, out, l, m) \<and>
    applied l = []"
  using slave_test_passes_in_vain[of "\<lparr>socket_ok = True, setsockopt_ok = True, bind_ok = True,
      listen_ok = True, joins_end = True\<rparr>" "\<lambda>i. int i" "\<lambda>i. [Slave_pass]" "\<lambda>i. [Master_pass 1 2]"]
  unfolding sockets_ok_def by fastforce

subsection \<open>The end of the test programs\<close>

lemma with_slaves_started:
  assumes "sockets_ok env"
  shows "\<exists>m. startReplication env (with_slaves ports) = Ok (True, m) \<and> running m \<and> server_up m"
proof -
  obtain sls where "with_slaves ports = ReplicationManager_init\<lparr>role := MASTER, slaves := sls\<rparr>"
    using with_slaves_fields by blast
  with start_master_ok[OF assms, of "with_slaves ports"] show ?thesis
    by (simp add: isMaster_def ReplicationManager_init_def)
qed

lemma stop_call_hangs:
  "\<not> joins_end env \<Longrightarrow> running s \<Longrightarrow> server_up s \<Longrightarrow> stop_call env s = Fault Diverges"
  by (simp add: stop_call_def)

text \<open>
  The tests of a master do not end by themselves.  When nothing wakes the accept thread of the
  replication server, both programs wait for ever in \<^verbatim>\<open>stopReplication\<close>, before they could report
  their success.
\<close>
theorem master_tests_hang:
  assumes "sockets_ok env" "\<not> joins_end env"
  shows "test_master_loop env now bg = Fault Diverges \<and>
    test_replication_complete env now bg = Fault Diverges"
proof
  note up = passes_keep_running stop_call_hangs[OF assms(2)]
  obtain m where m: "startReplication env (with_slaves [6380, 6381]) = Ok (True, m)" "running m" "server_up m"
    using with_slaves_started[OF assms(1)] by blast
  obtain l t where t: "send_commands master_loop_lines '''' now bg 0 5 m = (l, t)" by fastforce
  then have "running t" "server_up t" using commands_keep_running[OF t] m(2,3) by simp_all
  with m(1) t show "test_master_loop env now bg = Fault Diverges"
    by (simp add: test_master_loop_def with_slaves_def up Let_def)
  obtain m where m: "startReplication env (with_slaves [6380, 6381, 6382]) = Ok (True, m)" "running m" "server_up m"
    using with_slaves_started[OF assms(1)] by blast
  obtain l t where t: "send_commands complete_lines '''' now bg 0 10 m = (l, t)" by fastforce
  then have "running t" "server_up t" using commands_keep_running[OF t] m(2,3) by simp_all
  with m(1) t show "test_replication_complete env now bg = Fault Diverges"
    by (simp add: test_replication_complete_def with_slaves_def up Let_def)
qed

theorem master_tests_hang_witness:
  "test_master_loop \<lparr>socket_ok = True, setsockopt_ok = True, bind_ok = True, listen_ok = True, joins_end = False\<rparr>
     (\<lambda>i. int i) (\<lambda>i. []) = Fault Diverges"
  using master_tests_hang[of "\<lparr>socket_ok = True, setsockopt_ok = True, bind_ok = True, listen_ok = True,
      joins_end = False\<rparr>" "\<lambda>i. int i" "\<lambda>i. []"]
  by (simp add: sockets_ok_def)

end
