(* ===== verification/ExceptionUsage.thy ===== *)
theory ExceptionUsage
  imports CppString
begin

section \<open>The sample program of the exception classes (examples/exception\_usage.cpp)\<close>

text \<open>
  Seven small classes and a main function that show the intended use of the hierarchy: an inner
  handler prints the exception with its code and throws it on, an outer one takes it.  The state
  is what the program reads and writes: files, printed lines, the position in the sequence of
  \<^verbatim>\<open>rand()\<close>, the lines of its worker threads and the number of live blocks.  What the operating
  system answers is an argument.  A throw carries the state it leaves behind.  The Chinese
  headings of main are the constructors \<open>Heading\<close>, \<open>Caught\<close>, \<open>All_done\<close> and \<open>Uncaught\<close>.
\<close>

subsection \<open>State and environment\<close>

datatype demo_line =
    Out string
  | Err string
  | Heading nat
  | Caught nat string
  | All_done
  | Uncaught string

record demo =
  demo_files :: "string \<rightharpoonup> string"
  demo_lines :: "demo_line list"
  demo_rand :: nat
  demo_workers :: "string list"
  demo_blocks :: int

text \<open>
  \<open>write_result\<close> is what opening a file for writing and writing a text to it gives: None when the
  file cannot be opened, else the text that reached the stream and whether the stream is still
  good.
\<close>

record demo_env =
  write_result :: "string \<Rightarrow> string \<Rightarrow> (string \<times> bool) option"
  malloc_ok :: "nat \<Rightarrow> bool"
  thread_ok :: bool
  rand_value :: "nat \<Rightarrow> nat"
  now_text :: string

type_synonym 'a run = "(exn \<times> demo, 'a \<times> demo) outcome"

definition say :: "demo_line \<Rightarrow> demo \<Rightarrow> demo" where
  "say l d = d\<lparr>demo_lines := demo_lines d @ [l]\<rparr>"

definition raise :: "sl_exception \<Rightarrow> demo \<Rightarrow> 'a run" where
  "raise x d = Throw (Skiplist_exception x, d)"

definition of_class :: "exn_class \<Rightarrow> exn \<Rightarrow> bool" where
  "of_class c e = (case e of Skiplist_exception x \<Rightarrow> catches c (exn_class x) | Std_exception _ \<Rightarrow> False)"

text \<open>\<^verbatim>\<open>catch (const C& e) { std::cerr << formatExceptionWithCode(e, ctx) << std::endl; throw; }\<close>\<close>

definition report :: "exn_class \<Rightarrow> string \<Rightarrow> 'a run \<Rightarrow> 'a run" where
  "report c ctx m = ocatch m (\<lambda>(e, d). Throw (e,
     case e of Skiplist_exception x \<Rightarrow>
         if catches c (exn_class x) then say (Err (formatExceptionWithCode x ctx)) d else d
     | Std_exception _ \<Rightarrow> d))"

text \<open>\<^verbatim>\<open>catch (const C& e) { std::cout << ... << e.what() << std::endl; }\<close> of main.\<close>

definition settle :: "exn_class \<Rightarrow> nat \<Rightarrow> unit run \<Rightarrow> unit run" where
  "settle c n m = ocatch m (\<lambda>(e, d).
     if of_class c e then Ok ((), say (Caught n (what e)) d) else Throw (e, d))"

subsection \<open>ConfigLoader\<close>

definition processConfigItem :: "string \<Rightarrow> string \<Rightarrow> demo \<Rightarrow> unit run" where
  "processConfigItem key value d =
     (if key = ''max_connections'' then
        (case stoi value of
           Throw e \<Rightarrow> Throw (e, d)
         | Fault x \<Rightarrow> Fault x
         | Ok n \<Rightarrow> if n \<le> 0
             then raise (new_exn ConfigParseException (''Invalid max_connections value: '' @ value)) d
             else Ok ((), d))
      else Ok ((), d))"

fun config_items :: "string list \<Rightarrow> demo \<Rightarrow> unit run" where
  "config_items [] d = Ok ((), d)"
| "config_items (line # ls) d =
     (if line = [] \<or> line ! 0 = CHR ''#'' then config_items ls d
      else case find_char (CHR ''='') line of
        None \<Rightarrow> raise (new_exn ConfigParseException (''Invalid config line format: '' @ line)) d
      | Some pos \<Rightarrow>
          let key = take pos line; value = drop (pos + 1) line
          in if key = [] then raise (new_exn ConfigParseException (''Empty key in config line: '' @ line)) d
             else obind (processConfigItem key value d) (\<lambda>(_, d1). config_items ls d1))"

definition loadConfig :: "string \<Rightarrow> demo \<Rightarrow> unit run" where
  "loadConfig filename d = report ConfigException ''ConfigLoader::loadConfig''
     (case demo_files d filename of
        None \<Rightarrow> raise (new_exn ConfigFileNotFoundException filename) d
      | Some t \<Rightarrow> config_items (getlines LF t) d)"

subsection \<open>NetworkServer\<close>

definition new_BindException :: "string \<Rightarrow> int \<Rightarrow> sl_exception" where
  "new_BindException address port =
     mk_exn BindException (''Failed to bind to '' @ address @ '':'' @ int_to_string port)
       (default_code BindException)"

definition NetworkServer_bind :: "string \<Rightarrow> int \<Rightarrow> demo \<Rightarrow> unit run" where
  "NetworkServer_bind address port d = report NetworkException ''NetworkServer::bind''
     (if port < 1024 then raise (new_BindException address port) d
      else if address = ''invalid_address''
      then raise (new_exn SocketException (''Invalid address format: '' @ address)) d
      else Ok ((), say (Out (''Successfully bound to '' @ address @ '':'' @ int_to_string port)) d))"

definition shouldFailConnection :: "demo_env \<Rightarrow> demo \<Rightarrow> bool \<times> demo" where
  "shouldFailConnection env d =
     (rand_value env (demo_rand d) mod 10 = 0, d\<lparr>demo_rand := demo_rand d + 1\<rparr>)"

definition acceptConnection :: "demo_env \<Rightarrow> demo \<Rightarrow> unit run" where
  "acceptConnection env d = report NetworkException ''NetworkServer::acceptConnection''
     (case shouldFailConnection env d of (fails, d1) \<Rightarrow>
        if fails then raise (new_exn ConnectionException ''Connection timeout'') d1
        else Ok ((), say (Out ''Connection accepted successfully'') d1))"

subsection \<open>DataStorage\<close>

definition DataStorage_save :: "demo_env \<Rightarrow> string \<Rightarrow> string \<Rightarrow> demo \<Rightarrow> unit run" where
  "DataStorage_save env filename data d = report StorageException ''DataStorage::saveData''
     (case write_result env filename data of
        None \<Rightarrow> raise (new_FileIOException filename ''write'') d
      | Some (t, good) \<Rightarrow>
          let d1 = d\<lparr>demo_files := (demo_files d)(filename \<mapsto> t)\<rparr> in
          if \<not> good then raise (new_FileIOException filename ''write'') d1
          else Ok ((), say (Out (''Data saved successfully to '' @ filename)) d1))"

text \<open>Only the first line of the file is read.\<close>

definition DataStorage_load :: "string \<Rightarrow> demo \<Rightarrow> string run" where
  "DataStorage_load filename d = report StorageException ''DataStorage::loadData''
     (case demo_files d filename of
        None \<Rightarrow> raise (new_FileIOException filename ''read'') d
      | Some t \<Rightarrow>
          let data = (case getlines LF t of [] \<Rightarrow> [] | l # _ \<Rightarrow> l) in
          if find_str ''CORRUPTED'' data \<noteq> None
          then raise (new_exn DataCorruptionException ''Data contains corruption marker'') d
          else Ok (data, say (Out (''Data loaded successfully from '' @ filename)) d))"

subsection \<open>RedisProtocolHandler\<close>

definition splitCommand :: "string \<Rightarrow> string list" where
  "splitCommand command = filter (\<lambda>part. part \<noteq> []) (getlines (CHR '' '') command)"

definition valid_commands :: "string list" where
  "valid_commands = [''GET'', ''SET'', ''DEL'', ''PING'', ''QUIT'']"

definition isValidCommand :: "string \<Rightarrow> bool" where
  "isValidCommand cmd \<longleftrightarrow> cmd \<in> set valid_commands"

definition demo_parseCommand :: "string \<Rightarrow> demo \<Rightarrow> unit run" where
  "demo_parseCommand command d = report RedisProtocolException ''RedisProtocolHandler::parseCommand''
     (if command = [] then raise (new_exn InvalidCommandException ''Empty command'') d
      else case splitCommand command of
        [] \<Rightarrow> raise (new_exn ProtocolParseException (''Failed to parse command: '' @ command)) d
      | cmd # _ \<Rightarrow>
          if \<not> isValidCommand cmd then raise (new_exn InvalidCommandException cmd) d
          else Ok ((), say (Out (''Command parsed successfully: '' @ cmd)) d))"

subsection \<open>MemoryManager\<close>

definition allocateMemory :: "demo_env \<Rightarrow> nat \<Rightarrow> demo \<Rightarrow> unit run" where
  "allocateMemory env bytes d = report MemoryException ''MemoryManager::allocateMemory''
     (if \<not> malloc_ok env bytes
      then raise (new_exn OutOfMemoryException (''malloc('' @ nat_to_string bytes @ '')'')) d
      else Ok ((), say (Out (''Memory allocated successfully: '' @ nat_to_string bytes @ '' bytes''))
             (d\<lparr>demo_blocks := demo_blocks d + 1\<rparr>)))"

definition deallocateMemory :: "bool \<Rightarrow> demo \<Rightarrow> demo" where
  "deallocateMemory not_null d =
     (if not_null then say (Out ''Memory deallocated successfully'') (d\<lparr>demo_blocks := demo_blocks d - 1\<rparr>)
      else d)"

subsection \<open>ThreadManager\<close>

definition workerFunction :: "string \<Rightarrow> string list" where
  "workerFunction name =
     [''Worker thread '' @ name @ '' started'', ''Worker thread '' @ name @ '' finished'']"

text \<open>
  When no thread can be started, the constructor of \<^verbatim>\<open>std::thread\<close> throws \<^verbatim>\<open>std::system_error\<close>; a
  thread that was constructed is joinable, so the branch of \<^verbatim>\<open>ThreadCreationException\<close> is dead.
\<close>

definition thread_joinable :: bool where
  "thread_joinable = True"

definition createWorkerThread :: "demo_env \<Rightarrow> string \<Rightarrow> demo \<Rightarrow> unit run" where
  "createWorkerThread env name d = report ThreadException ''ThreadManager::createWorkerThread''
     (if \<not> thread_ok env then Throw (Std_exception ''Resource temporarily unavailable'', d)
      else if \<not> thread_joinable then raise (new_exn ThreadCreationException name) d
      else Ok ((), say (Out (''Worker thread created successfully: '' @ name))
             (d\<lparr>demo_workers := demo_workers d @ workerFunction name\<rparr>)))"

subsection \<open>LogManager\<close>

definition writeLog :: "demo_env \<Rightarrow> string \<Rightarrow> string \<Rightarrow> demo \<Rightarrow> unit run" where
  "writeLog env log_file message d = report LoggingException ''LogManager::writeLog''
     (case write_result env log_file (now_text env @ '' '' @ message @ [LF]) of
        None \<Rightarrow> raise (new_exn LogFileException log_file) d
      | Some (t, good) \<Rightarrow>
          let old = (case demo_files d log_file of None \<Rightarrow> [] | Some x \<Rightarrow> x);
              d1 = d\<lparr>demo_files := (demo_files d)(log_file \<mapsto> old @ t)\<rparr> in
          if \<not> good then raise (new_exn LogFileException log_file) d1
          else Ok ((), say (Out (''Log written successfully to '' @ log_file)) d1))"

subsection \<open>main\<close>

definition SIZE_MAX :: nat where "SIZE_MAX = 2 ^ 64 - 1"

definition demo_steps :: "demo_env \<Rightarrow> (nat \<times> exn_class \<times> (demo \<Rightarrow> unit run)) list" where
  "demo_steps env =
     [(1, ConfigException, loadConfig ''nonexistent.conf''),
      (2, NetworkException, NetworkServer_bind ''127.0.0.1'' 80),
      (3, StorageException, DataStorage_save env ''/invalid/path/file.txt'' ''test data''),
      (4, RedisProtocolException, demo_parseCommand ''INVALID_COMMAND''),
      (5, MemoryException, \<lambda>d. obind (allocateMemory env SIZE_MAX d) (\<lambda>(_, d1). Ok ((), deallocateMemory True d1))),
      (6, ThreadException, createWorkerThread env ''test_worker''),
      (7, LoggingException, writeLog env ''/invalid/log/path/app.log'' ''Test log message'')]"

fun run_steps :: "(nat \<times> exn_class \<times> (demo \<Rightarrow> unit run)) list \<Rightarrow> demo \<Rightarrow> unit run" where
  "run_steps [] d = Ok ((), say All_done d)"
| "run_steps ((n, c, m) # ss) d =
     obind (settle c n (m (say (Heading n) d))) (\<lambda>(_, d1). run_steps ss d1)"

definition exception_usage_main :: "demo_env \<Rightarrow> demo \<Rightarrow> (exn, int \<times> demo) outcome" where
  "exception_usage_main env d =
     (case run_steps (demo_steps env) (say (Heading 0) d) of
        Ok (_, d1) \<Rightarrow> Ok (0, d1)
      | Throw (e, d1) \<Rightarrow> Ok (1, say (Uncaught (what e)) d1)
      | Fault x \<Rightarrow> Fault x)"

subsection \<open>What is thrown\<close>

lemmas run_defs = report_def raise_def settle_def of_class_def

lemma classes [simp]:
  "catches ConfigException ConfigFileNotFoundException" "catches ConfigException ConfigParseException"
  "catches NetworkException BindException" "catches NetworkException SocketException"
  "catches NetworkException ConnectionException" "catches StorageException FileIOException"
  "catches StorageException DataCorruptionException"
  "catches RedisProtocolException InvalidCommandException"
  "catches RedisProtocolException ProtocolParseException"
  "catches MemoryException OutOfMemoryException" "catches LoggingException LogFileException"
  by (simp_all add: catches_def)

lemma exn_class_new [simp]: "exn_class (new_exn c a) = c" "exn_class (new_FileIOException f p) = FileIOException"
    "exn_class (new_BindException ad pt) = BindException"
  by (simp_all add: new_exn_def mk_exn_def new_FileIOException_def new_BindException_def)

lemma report_raise [simp]: "report c ctx (raise x d) =
    (if catches c (exn_class x) then Throw (Skiplist_exception x, say (Err (formatExceptionWithCode x ctx)) d)
     else Throw (Skiplist_exception x, d))"
  by (simp add: report_def raise_def)

lemma report_Ok [simp]: "report c ctx (Ok r) = Ok r"
  by (simp add: report_def)

lemma settle_Ok [simp]: "settle c n (Ok r) = Ok r"
  by (simp add: settle_def)

lemma settle_Throw [simp]: "settle c n (Throw (e, d)) =
    (if of_class c e then Ok ((), say (Caught n (what e)) d) else Throw (e, d))"
  by (simp add: settle_def)

subsection \<open>Loading a configuration\<close>

text \<open>What is wrong with a line, and the first line with which something is.\<close>

definition line_problem :: "string \<Rightarrow> exn option" where
  "line_problem line =
     (if line = [] \<or> line ! 0 = CHR ''#'' then None
      else case find_char (CHR ''='') line of
        None \<Rightarrow> Some (Skiplist_exception (new_exn ConfigParseException (''Invalid config line format: '' @ line)))
      | Some pos \<Rightarrow>
          if pos = 0 then Some (Skiplist_exception (new_exn ConfigParseException (''Empty key in config line: '' @ line)))
          else if take pos line \<noteq> ''max_connections'' then None
          else case stoi (drop (pos + 1) line) of
            Ok n \<Rightarrow> if 0 < n then None else Some (Skiplist_exception (new_exn ConfigParseException
                (''Invalid max_connections value: '' @ drop (pos + 1) line)))
          | _ \<Rightarrow> Some (Std_exception ''stoi''))"

lemma stoi_Throw: "stoi v = Throw e \<Longrightarrow> e = Std_exception ''stoi''"
  by (auto simp: stoi_def split: option.splits if_splits)

lemma config_items_line:
  "config_items (line # ls) d =
     (case line_problem line of None \<Rightarrow> config_items ls d | Some e \<Rightarrow> Throw (e, d))"
proof (cases "find_char (CHR ''='') line")
  case None
  then show ?thesis by (simp add: line_problem_def raise_def)
next
  case (Some pos)
  then have "pos < length line" by (simp add: find_char_Some)
  then have key: "take pos line = [] \<longleftrightarrow> pos = 0" by auto
  show ?thesis
  proof (cases "stoi (drop (pos + 1) line)")
    case (Throw e)
    then show ?thesis using Some key stoi_Throw[OF Throw]
      by (simp add: line_problem_def raise_def processConfigItem_def Let_def)
  qed (use Some key in \<open>simp_all add: line_problem_def raise_def processConfigItem_def Let_def\<close>)
qed

lemma config_items_find:
  "config_items ls d = (case find (\<lambda>l. line_problem l \<noteq> None) ls of
     None \<Rightarrow> Ok ((), d) | Some l \<Rightarrow> Throw (the (line_problem l), d))"
  by (induction ls) (auto simp: config_items_line split: option.split simp del: config_items.simps(2))

lemma line_problem_cases:
  assumes "line_problem l = Some e"
  shows "(\<exists>x. e = Skiplist_exception x \<and> exn_class x = ConfigParseException) \<or>
    e = Std_exception ''stoi'' \<and> (\<exists>v. l = ''max_connections='' @ v \<and> stoi v = Throw e)"
proof (cases "find_char (CHR ''='') l")
  case None
  with assms show ?thesis by (auto simp: line_problem_def split: if_splits)
next
  case (Some pos)
  then have l: "l = take pos l @ CHR ''='' # drop (pos + 1) l"
    by (metis Suc_eq_plus1 find_char_Some id_take_nth_drop)
  show ?thesis
  proof (cases "take pos l = ''max_connections''")
    case True
    with l have "l = ''max_connections='' @ drop (pos + 1) l" by simp
    with assms Some True show ?thesis
      using stoi_Throw by (auto simp: line_problem_def split: if_splits outcome.splits)
  qed (use assms Some in \<open>auto simp: line_problem_def split: if_splits\<close>)
qed

text \<open>
  Loading a configuration file that can be opened returns when no line is wrong, and else throws
  what is wrong with the first one that is.  Every exception of the hierarchy is printed with its
  code; the text of an exception of \<^verbatim>\<open>stoi\<close>, which a value of \<^verbatim>\<open>max_connections\<close> that is no number
  throws past the handler for \<^verbatim>\<open>ConfigException\<close>, is not.
\<close>
theorem loadConfig_first_bad_line:
  assumes "demo_files d f = Some t"
  shows "loadConfig f d = (case find (\<lambda>l. line_problem l \<noteq> None) (getlines LF t) of
     None \<Rightarrow> Ok ((), d)
   | Some l \<Rightarrow> (case the (line_problem l) of
       Skiplist_exception x \<Rightarrow>
         Throw (Skiplist_exception x, say (Err (formatExceptionWithCode x ''ConfigLoader::loadConfig'')) d)
     | Std_exception m \<Rightarrow> Throw (Std_exception ''stoi'', d)))"
proof (cases "find (\<lambda>l. line_problem l \<noteq> None) (getlines LF t)")
  case (Some l)
  then obtain e where e: "line_problem l = Some e" by (auto simp: find_Some_iff)
  then show ?thesis using Some line_problem_cases[OF e] assms
    by (auto simp: loadConfig_def config_items_find report_def)
qed (simp add: assms loadConfig_def config_items_find)

theorem loadConfig_first_bad_line_witness:
  "loadConfig ''a'' \<lparr>demo_files = [''a'' \<mapsto> ''max_connections=many''], demo_lines = [], demo_rand = 0,
      demo_workers = [], demo_blocks = 0\<rparr> =
    Throw (Std_exception ''stoi'', \<lparr>demo_files = [''a'' \<mapsto> ''max_connections=many''], demo_lines = [],
      demo_rand = 0, demo_workers = [], demo_blocks = 0\<rparr>)"
proof -
  let ?d = "\<lparr>demo_files = [''a'' \<mapsto> ''max_connections=many''], demo_lines = [], demo_rand = 0,
      demo_workers = [], demo_blocks = 0\<rparr>"
  have "getlines LF ''max_connections=many'' = [''max_connections=many'']"
    by (simp add: getlines_def LF_def)
  moreover have "line_problem ''max_connections=many'' = Some (Std_exception ''stoi'')"
    by (simp add: line_problem_def stoi_def strtol_def isspace_c_def isdigit_c_def)
  ultimately show ?thesis
    by (subst loadConfig_first_bad_line[of ?d "''a''" "''max_connections=many''"]) simp_all
qed

subsection \<open>The run of main\<close>

lemma settle_loadConfig:
  "settle ConfigException n (loadConfig f d) =
     (case demo_files d f of
        None \<Rightarrow> Ok ((), say (Caught n (''Configuration file not found: '' @ f))
          (say (Err (''Context: ConfigLoader::loadConfig - Error Code: CONFIG_FILE_NOT_FOUND - Configuration file not found: '' @ f)) d))
      | Some t \<Rightarrow> (case find (\<lambda>l. line_problem l \<noteq> None) (getlines LF t) of
          None \<Rightarrow> Ok ((), d)
        | Some l \<Rightarrow> (case the (line_problem l) of
            Skiplist_exception x \<Rightarrow> Ok ((), say (Caught n (exn_message x))
              (say (Err (formatExceptionWithCode x ''ConfigLoader::loadConfig'')) d))
          | Std_exception m \<Rightarrow> Throw (Std_exception m, d))))"
proof (cases "demo_files d f")
  case None
  then show ?thesis
    by (simp add: loadConfig_def of_class_def)
      (simp add: formatExceptionWithCode_def new_exn_def mk_exn_def)
next
  case (Some t)
  show ?thesis
  proof (cases "find (\<lambda>l. line_problem l \<noteq> None) (getlines LF t)")
    case (Some l)
    then obtain e where e: "line_problem l = Some e" by (auto simp: find_Some_iff)
    then show ?thesis using Some \<open>demo_files d f = Some t\<close> line_problem_cases[OF e]
      by (auto simp: loadConfig_def config_items_find report_def of_class_def)
  qed (simp add: Some loadConfig_def config_items_find)
qed

lemma say_files [simp]: "demo_files (say l d) = demo_files d"
  by (simp add: say_def)

text \<open>The configuration that main loads makes \<^verbatim>\<open>stoi\<close> throw.\<close>

definition config_escapes :: "demo \<Rightarrow> bool" where
  "config_escapes d = (case demo_files d ''nonexistent.conf'' of
     None \<Rightarrow> False
   | Some t \<Rightarrow> (case find (\<lambda>l. line_problem l \<noteq> None) (getlines LF t) of
       None \<Rightarrow> False | Some l \<Rightarrow> line_problem l = Some (Std_exception ''stoi'')))"

lemma config_step:
  "(config_escapes d \<and> settle ConfigException 1 (loadConfig ''nonexistent.conf'' d) =
      Throw (Std_exception ''stoi'', d)) \<or>
   (\<not> config_escapes d \<and> (\<exists>d'. settle ConfigException 1 (loadConfig ''nonexistent.conf'' d) = Ok ((), d')))"
proof (cases "demo_files d ''nonexistent.conf''")
  case (Some t)
  show ?thesis
  proof (cases "find (\<lambda>l. line_problem l \<noteq> None) (getlines LF t)")
    case (Some l)
    then obtain e where e: "line_problem l = Some e" by (auto simp: find_Some_iff)
    from line_problem_cases[OF e] consider x where "e = Skiplist_exception x"
      | "e = Std_exception ''stoi''" by blast
    then show ?thesis using Some e \<open>demo_files d _ = Some t\<close>
      by cases (simp_all add: settle_loadConfig config_escapes_def)
  qed (simp add: Some settle_loadConfig config_escapes_def)
qed (simp add: settle_loadConfig config_escapes_def)

lemma middle_steps:
  "\<exists>d'. settle NetworkException 2 (NetworkServer_bind a p d) = Ok ((), d')"
  "\<exists>d'. settle StorageException 3 (DataStorage_save env f x d) = Ok ((), d')"
  "\<exists>d'. settle RedisProtocolException 4 (demo_parseCommand c d) = Ok ((), d')"
  "\<exists>d'. settle MemoryException 5 (obind (allocateMemory env n d) (\<lambda>(_, d1). Ok ((), deallocateMemory b d1))) = Ok ((), d')"
  "\<exists>d'. settle LoggingException 7 (writeLog env f x d) = Ok ((), d')"
  by (auto simp: NetworkServer_bind_def DataStorage_save_def demo_parseCommand_def allocateMemory_def
      writeLog_def of_class_def Let_def split: option.split list.split)

lemma thread_step:
  "settle ThreadException 6 (createWorkerThread env n d) =
     (if thread_ok env then Ok ((), say (Out (''Worker thread created successfully: '' @ n))
        (d\<lparr>demo_workers := demo_workers d @ workerFunction n\<rparr>))
      else Throw (Std_exception ''Resource temporarily unavailable'', d))"
  by (simp add: createWorkerThread_def thread_joinable_def report_def of_class_def)

text \<open>
  The sample program always ends, with 1 exactly when a value of \<^verbatim>\<open>max_connections\<close> in its
  configuration file is no number or no thread can be started, the two failures whose exceptions
  are outside the hierarchy, and with 0 otherwise.
\<close>
theorem exception_usage_exit_code:
  "\<exists>d'. exception_usage_main env d =
     Ok (if config_escapes d \<or> \<not> thread_ok env then 1 else 0, d')"
proof -
  let ?d = "say (Heading 1) (say (Heading 0) d)"
  have esc: "config_escapes ?d = config_escapes d" by (simp add: config_escapes_def)
  show ?thesis
  proof (cases "config_escapes d")
    case True
    with config_step[of ?d] esc
    have "settle ConfigException 1 (loadConfig ''nonexistent.conf'' ?d) = Throw (Std_exception ''stoi'', ?d)"
      by simp
    with True show ?thesis by (simp add: exception_usage_main_def demo_steps_def)
  next
    case False
    with config_step[of ?d] esc obtain d1 where
      1: "settle ConfigException 1 (loadConfig ''nonexistent.conf'' ?d) = Ok ((), d1)" by auto
    obtain d2 where 2: "settle NetworkException 2 (NetworkServer_bind ''127.0.0.1'' 80
        (say (Heading 2) d1)) = Ok ((), d2)" using middle_steps(1) by blast
    obtain d3 where 3: "settle StorageException 3 (DataStorage_save env ''/invalid/path/file.txt'' ''test data''
        (say (Heading 3) d2)) = Ok ((), d3)" using middle_steps(2) by blast
    obtain d4 where 4: "settle RedisProtocolException 4 (demo_parseCommand ''INVALID_COMMAND''
        (say (Heading 4) d3)) = Ok ((), d4)" using middle_steps(3) by blast
    obtain d5 where 5: "settle MemoryException 5 (obind (allocateMemory env SIZE_MAX
        (say (Heading 5) d4)) (\<lambda>(_, d1). Ok ((), deallocateMemory True d1))) = Ok ((), d5)"
      using middle_steps(4) by blast
    show ?thesis
    proof (cases "thread_ok env")
      case True
      then obtain d6 where 6: "settle ThreadException 6 (createWorkerThread env ''test_worker''
        (say (Heading 6) d5)) = Ok ((), d6)" by (simp add: thread_step)
      obtain d7 where 7: "settle LoggingException 7 (writeLog env ''/invalid/log/path/app.log''
        ''Test log message'' (say (Heading 7) d6)) = Ok ((), d7)" using middle_steps(5) by blast
      from False True 1 2 3 4 5 6 7 show ?thesis
        by (simp add: exception_usage_main_def demo_steps_def)
    next
      case no_thread: False
      then have 6: "settle ThreadException 6 (createWorkerThread env ''test_worker''
        (say (Heading 6) d5)) = Throw (Std_exception ''Resource temporarily unavailable'',
          say (Heading 6) d5)" by (simp add: thread_step)
      from False no_thread 1 2 3 4 5 6 show ?thesis
        by (simp add: exception_usage_main_def demo_steps_def)
    qed
  qed
qed

end
