(* ===== verification/Regex.thy ===== *)
theory Regex
  imports CppString
begin

section \<open>Regular expressions\<close>

text \<open>
  The expressions the source hands to \<^verbatim>\<open>std::regex_match\<close>, which asks whether the whole text is in
  the language of the expression.  They are matched by derivatives; the last lemmas say that this
  decides the language.
\<close>

subsection \<open>Expressions and their matcher\<close>

datatype regex =
    Nothing
  | Empty
  | Class "char \<Rightarrow> bool"
  | Seq regex regex
  | Alt regex regex
  | Star regex

definition Plus :: "regex \<Rightarrow> regex" where
  "Plus r = Seq r (Star r)"

definition Maybe :: "regex \<Rightarrow> regex" where
  "Maybe r = Alt Empty r"

fun Literal :: "string \<Rightarrow> regex" where
  "Literal [] = Empty"
| "Literal (c # cs) = Seq (Class (\<lambda>x. x = c)) (Literal cs)"

fun nullable :: "regex \<Rightarrow> bool" where
  "nullable Nothing = False"
| "nullable Empty = True"
| "nullable (Class P) = False"
| "nullable (Seq r q) = (nullable r \<and> nullable q)"
| "nullable (Alt r q) = (nullable r \<or> nullable q)"
| "nullable (Star r) = True"

fun deriv :: "char \<Rightarrow> regex \<Rightarrow> regex" where
  "deriv c Nothing = Nothing"
| "deriv c Empty = Nothing"
| "deriv c (Class P) = (if P c then Empty else Nothing)"
| "deriv c (Seq r q) =
     (if nullable r then Alt (Seq (deriv c r) q) (deriv c q) else Seq (deriv c r) q)"
| "deriv c (Alt r q) = Alt (deriv c r) (deriv c q)"
| "deriv c (Star r) = Seq (deriv c r) (Star r)"

fun regex_match :: "string \<Rightarrow> regex \<Rightarrow> bool" where
  "regex_match [] r = nullable r"
| "regex_match (c # s) r = regex_match s (deriv c r)"

subsection \<open>Languages\<close>

fun lang :: "regex \<Rightarrow> string set" where
  "lang Nothing = {}"
| "lang Empty = {[]}"
| "lang (Class P) = {[c] |c. P c}"
| "lang (Seq r q) = {x @ y |x y. x \<in> lang r \<and> y \<in> lang q}"
| "lang (Alt r q) = lang r \<union> lang q"
| "lang (Star r) = {concat ws |ws. set ws \<subseteq> lang r}"

lemma nullable_lang: "nullable r \<longleftrightarrow> [] \<in> lang r"
proof (induction r)
  case (Star r)
  have "concat [] \<in> lang (Star r)" unfolding lang.simps by (intro CollectI exI[of _ "[]"]) simp
  then show ?case by simp
qed auto

lemma star_Cons: "c # s \<in> lang (Star r) \<longleftrightarrow> (\<exists>x y. s = x @ y \<and> c # x \<in> lang r \<and> y \<in> lang (Star r))"
proof
  assume "c # s \<in> lang (Star r)"
  then obtain ws where "concat ws = c # s" "set ws \<subseteq> lang r" by auto
  then show "\<exists>x y. s = x @ y \<and> c # x \<in> lang r \<and> y \<in> lang (Star r)"
  proof (induction ws)
    case (Cons w ws)
    show ?case
    proof (cases w)
      case Nil
      with Cons show ?thesis by simp
    next
      case (Cons d x)
      then have "d = c" "s = x @ concat ws" using Cons.prems(1) by auto
      moreover have "concat ws \<in> lang (Star r)" using Cons.prems(2) by auto
      ultimately show ?thesis using Cons Cons.prems(2) by auto
    qed
  qed simp
next
  assume "\<exists>x y. s = x @ y \<and> c # x \<in> lang r \<and> y \<in> lang (Star r)"
  then obtain x ws where "s = x @ concat ws" "c # x \<in> lang r" "set ws \<subseteq> lang r" by auto
  then show "c # s \<in> lang (Star r)"
    unfolding lang.simps by (intro CollectI exI[of _ "(c # x) # ws"]) simp
qed

lemma deriv_lang: "s \<in> lang (deriv c r) \<longleftrightarrow> c # s \<in> lang r"
proof (induction r arbitrary: s)
  case (Seq r q)
  have "c # s \<in> lang (Seq r q) \<longleftrightarrow>
      ([] \<in> lang r \<and> c # s \<in> lang q) \<or> (\<exists>x y. s = x @ y \<and> c # x \<in> lang r \<and> y \<in> lang q)"
    by (auto simp: Cons_eq_append_conv)
  with Seq show ?case by (auto simp: nullable_lang)
next
  case (Star r)
  then show ?case using star_Cons[of c s r] by auto
qed auto

lemma regex_match_lang: "regex_match s r \<longleftrightarrow> s \<in> lang r"
  by (induction s arbitrary: r) (simp_all add: nullable_lang deriv_lang)

subsection \<open>Languages of the usual forms\<close>

lemma lang_Literal [simp]: "lang (Literal s) = {s}"
  by (induction s) auto

lemma lang_Class_star [simp]: "lang (Star (Class P)) = {s. list_all P s}"
proof (intro set_eqI iffI)
  fix s assume "s \<in> lang (Star (Class P))"
  then obtain ws where "s = concat ws" "\<forall>w\<in>set ws. \<exists>c. w = [c] \<and> P c" by auto
  then show "s \<in> {s. list_all P s}" by (auto simp: list_all_iff)
next
  fix s assume "s \<in> {s. list_all P s}"
  then have "set (map (\<lambda>c. [c]) s) \<subseteq> lang (Class P)" by (auto simp: list_all_iff)
  moreover have "s = concat (map (\<lambda>c. [c]) s)" by simp
  ultimately show "s \<in> lang (Star (Class P))" unfolding lang.simps by blast
qed

lemma lang_Plus_Class: "lang (Plus (Class P)) = {s. s \<noteq> [] \<and> list_all P s}"
proof -
  have "s \<in> lang (Plus (Class P)) \<longleftrightarrow> s \<noteq> [] \<and> list_all P s" for s
  proof (cases s)
    case (Cons c t)
    have "c # t \<in> lang (Plus (Class P)) \<longleftrightarrow> t \<in> lang (deriv c (Plus (Class P)))" by (simp only: deriv_lang)
    also have "\<dots> \<longleftrightarrow> P c \<and> t \<in> lang (Star (Class P))" unfolding Plus_def by simp
    finally show ?thesis unfolding Cons lang_Class_star by simp
  qed (simp add: Plus_def)
  then show ?thesis by blast
qed

end
