(* ===== verification/UtilsSystem.thy ===== *)
theory UtilsSystem
  imports Utils Regex Timestamps
begin

section \<open>The rest of class Utils that is not arithmetic (utils/utils.cpp)\<close>

text \<open>
  Random numbers, files, the environment, addresses by regular expression, the debug flag.  The
  generator and its distributions, the file system and the operating system are arguments.
\<close>

subsection \<open>Random numbers\<close>

text \<open>The static generator: whether it was seeded, and its state.\<close>

record 'g random_state =
  seeded :: bool
  generator :: 'g

definition initRandomGenerator :: "(int \<Rightarrow> 'g) \<Rightarrow> int \<Rightarrow> 'g random_state \<Rightarrow> 'g random_state" where
  "initRandomGenerator seed now r = (if seeded r then r else \<lparr>seeded = True, generator = seed now\<rparr>)"

text \<open>\<open>dist lo hi\<close> draws from a uniform distribution; the same for \<^verbatim>\<open>int\<close> and \<^verbatim>\<open>double\<close>.\<close>

definition draw :: "(int \<Rightarrow> 'g) \<Rightarrow> int \<Rightarrow> ('a \<Rightarrow> 'a \<Rightarrow> 'g \<Rightarrow> 'a \<times> 'g) \<Rightarrow> 'a \<Rightarrow> 'a \<Rightarrow> 'g random_state \<Rightarrow>
    'a \<times> 'g random_state" where
  "draw seed now dist lo hi r =
     (let r1 = initRandomGenerator seed now r in
      case dist lo hi (generator r1) of (x, g) \<Rightarrow> (x, r1\<lparr>generator := g\<rparr>))"

definition randomInt :: "(int \<Rightarrow> 'g) \<Rightarrow> int \<Rightarrow> (int \<Rightarrow> int \<Rightarrow> 'g \<Rightarrow> int \<times> 'g) \<Rightarrow> int \<Rightarrow> int \<Rightarrow> 'g random_state \<Rightarrow>
    int \<times> 'g random_state" where
  "randomInt seed now dist lo hi r = draw seed now dist lo hi r"

definition randomDouble :: "(int \<Rightarrow> 'g) \<Rightarrow> int \<Rightarrow> ('d \<Rightarrow> 'd \<Rightarrow> 'g \<Rightarrow> 'd \<times> 'g) \<Rightarrow> 'd \<Rightarrow> 'd \<Rightarrow> 'g random_state \<Rightarrow>
    'd \<times> 'g random_state" where
  "randomDouble seed now dist lo hi r = draw seed now dist lo hi r"

subsection \<open>Files\<close>

text \<open>A path is absent, a file with its size, or a directory with the paths in it.\<close>

datatype fs_entry = Regular nat | Directory "string list"

definition fileExists :: "(string \<rightharpoonup> fs_entry) \<Rightarrow> string \<Rightarrow> bool" where
  "fileExists fs f \<longleftrightarrow> fs f \<noteq> None"

text \<open>\<^verbatim>\<open>file_size\<close> of a directory is an error, which nothing catches.\<close>

definition utils_getFileSize :: "(string \<rightharpoonup> fs_entry) \<Rightarrow> string \<Rightarrow> (exn, nat) outcome" where
  "utils_getFileSize fs f = (case fs f of
       None \<Rightarrow> Ok 0
     | Some (Regular n) \<Rightarrow> Ok n
     | Some (Directory _) \<Rightarrow> Throw (Std_exception ''filesystem error: cannot get file size: Is a directory''))"

text \<open>
  What \<^verbatim>\<open>create_directories\<close> gives is an argument: whether it made a directory, or an exception.  It
  is false for a directory that is there already.
\<close>

definition createDirectory :: "(string \<Rightarrow> (exn, bool) outcome) \<Rightarrow> string \<Rightarrow> (exn, bool) outcome" where
  "createDirectory mkdirs p = ocatch (mkdirs p) (\<lambda>e. Ok False)"

definition listFiles :: "(string \<rightharpoonup> fs_entry) \<Rightarrow> string \<Rightarrow> string list" where
  "listFiles fs d = (case fs d of Some (Directory ps) \<Rightarrow> ps | _ \<Rightarrow> [])"

subsection \<open>The operating system\<close>

text \<open>\<^verbatim>\<open>gethostname\<close> fails, or fills the buffer of 256 bytes.\<close>

definition getHostname :: "string option \<Rightarrow> string" where
  "getHostname name = (case name of Some n \<Rightarrow> n | None \<Rightarrow> ''unknown'')"

definition getProcessId :: "int \<Rightarrow> int" where
  "getProcessId pid = pid"

definition getCpuCount :: "int \<Rightarrow> int" where
  "getCpuCount nprocs = nprocs"

text \<open>\<^verbatim>\<open>setenv\<close> refuses a name that is empty or has an equals sign.\<close>

definition setEnvironmentVariable :: "string \<Rightarrow> string \<Rightarrow> (string \<rightharpoonup> string) \<Rightarrow> bool \<times> (string \<rightharpoonup> string)" where
  "setEnvironmentVariable name value env =
     (if name = [] \<or> CHR ''='' \<in> set name then (False, env) else (True, env(name \<mapsto> value)))"

text \<open>How long \<^verbatim>\<open>sleep\<close> sleeps, in milliseconds.\<close>

definition utils_sleep :: "int \<Rightarrow> int" where
  "utils_sleep ms = (if ms < 0 then 0 else ms)"

subsection \<open>Debugging\<close>

definition printStackTrace :: "string list \<Rightarrow> string list" where
  "printStackTrace out = out @ [''Stack trace not available'']"

definition setDebugMode :: "bool \<Rightarrow> bool \<Rightarrow> bool" where
  "setDebugMode enabled debug_mode = enabled"

definition isDebugMode :: "bool \<Rightarrow> bool" where
  "isDebugMode debug_mode = debug_mode"

subsection \<open>Mail addresses and links\<close>

definition is_letter :: "char \<Rightarrow> bool" where
  "is_letter c \<longleftrightarrow> (65 \<le> (of_char c :: nat) \<and> (of_char c :: nat) \<le> 90) \<or>
     (97 \<le> (of_char c :: nat) \<and> (of_char c :: nat) \<le> 122)"

definition local_char :: "char \<Rightarrow> bool" where
  "local_char c \<longleftrightarrow> is_letter c \<or> isdigit_c c \<or> c \<in> set ''._%+-''"

definition domain_char :: "char \<Rightarrow> bool" where
  "domain_char c \<longleftrightarrow> is_letter c \<or> isdigit_c c \<or> c \<in> set ''.-''"

definition email_regex :: regex where
  "email_regex = Seq (Plus (Class local_char)) (Seq (Literal ''@'') (Seq (Plus (Class domain_char))
     (Seq (Literal ''.'') (Seq (Class is_letter) (Plus (Class is_letter))))))"

definition isValidEmail :: "string \<Rightarrow> bool" where
  "isValidEmail s = regex_match s email_regex"

text \<open>A dot outside of brackets stands for any character but the ends of a line.\<close>

definition url_regex :: regex where
  "url_regex = Seq (Literal ''http'') (Seq (Maybe (Literal ''s'')) (Seq (Literal ''://'')
     (Seq (Class (\<lambda>c. \<not> isspace_c c \<and> c \<notin> set ''/$.?#'')) (Seq (Class (\<lambda>c. c \<noteq> CR \<and> c \<noteq> LF))
       (Star (Class (\<lambda>c. \<not> isspace_c c)))))))"

definition isValidUrl :: "string \<Rightarrow> bool" where
  "isValidUrl s = regex_match s url_regex"


subsection \<open>Properties\<close>

lemma drawn_once_seeded: "seeded r \<Longrightarrow> draw seed now dist lo hi r = draw seed' now' dist lo hi r"
  by (simp add: draw_def initRandomGenerator_def)

lemma environment_roundtrip:
  "setEnvironmentVariable name value env = (True, env') \<Longrightarrow> getEnvironmentVariable env' name d = value"
  by (auto simp: setEnvironmentVariable_def getEnvironmentVariable_def split: if_splits)

text \<open>
  The language of the expression for mail addresses, split at the sign and at the last dot.
\<close>

lemma isValidEmail_parts:
  "isValidEmail s \<longleftrightarrow> (\<exists>l d t. s = l @ ''@'' @ d @ ''.'' @ t \<and> l \<noteq> [] \<and> list_all local_char l \<and>
     d \<noteq> [] \<and> list_all domain_char d \<and> 2 \<le> length t \<and> list_all is_letter t)"
proof -
  have two: "t \<in> lang (Seq (Class is_letter) (Plus (Class is_letter))) \<longleftrightarrow> 2 \<le> length t \<and> list_all is_letter t" for t
  proof (cases t)
    case (Cons c u)
    have "c # u \<in> lang (Seq (Class is_letter) (Plus (Class is_letter))) \<longleftrightarrow> is_letter c \<and> u \<in> lang (Plus (Class is_letter))"
      using deriv_lang[of u c "Seq (Class is_letter) (Plus (Class is_letter))"] by auto
    then show ?thesis using Cons by (auto simp: lang_Plus_Class Suc_le_eq)
  qed simp
  show ?thesis
    unfolding isValidEmail_def regex_match_lang email_regex_def lang.simps(4)[of "Plus _"]
      lang.simps(4)[of "Literal _"] two lang_Plus_Class lang_Literal by blast
qed

text \<open>A link needs two characters behind the slashes, and the second may be a blank.\<close>

lemma short_link_refused: "\<not> isValidUrl ''http://a''"
  by (simp add: isValidUrl_def url_regex_def Maybe_def)

lemma link_with_blank_accepted: "isValidUrl ''http://a b''"
  by code_simp

end
