(* ===== verification/UtilsNumbers.thy ===== *)
theory UtilsNumbers
  imports CppDouble
begin

section \<open>The functions of class Utils on double (utils/utils.cpp)\<close>

text \<open>
  Reading and writing numbers, sizes in units, the four statistics.  A vector with NaN in it breaks
  the order that \<^verbatim>\<open>std::sort\<close> relies on, which may then run past its ends; that, an index outside
  of the vector and a conversion to \<^verbatim>\<open>size_t\<close> out of its range are the fault \<open>Out_of_bounds\<close>.
\<close>

subsection \<open>Reading\<close>

text \<open>
  \<^verbatim>\<open>strtod\<close>: white space, a sign, then a decimal number, a hexadecimal one, an infinity or NaN.
  The digits of a number in base b with a point in them are the pair of their value and of how many
  are behind the point; None when there is none.
\<close>

definition xdigit_val :: "char \<Rightarrow> nat" where
  "xdigit_val c = (if isdigit_c c then digit_val c else (of_char (tolower_c c) :: nat) - 87)"

definition is_xdigit :: "char \<Rightarrow> bool" where
  "is_xdigit c \<longleftrightarrow> isdigit_c c \<or> (97 \<le> (of_char (tolower_c c) :: nat) \<and> (of_char (tolower_c c) :: nat) \<le> 102)"

definition value_in :: "nat \<Rightarrow> string \<Rightarrow> nat" where
  "value_in b ds = foldl (\<lambda>n c. b * n + xdigit_val c) 0 ds"

definition mantissa_of :: "nat \<Rightarrow> (char \<Rightarrow> bool) \<Rightarrow> string \<Rightarrow> (nat \<times> nat \<times> string) option" where
  "mantissa_of b dig s =
     (let i = takeWhile dig s; s1 = drop (length i) s;
          f = (case s1 of c # r \<Rightarrow> if c = CHR ''.'' then takeWhile dig r else [] | [] \<Rightarrow> []);
          s2 = (case s1 of c # r \<Rightarrow> if c = CHR ''.'' then drop (length f) r else s1 | [] \<Rightarrow> [])
      in if i = [] \<and> f = [] then None else Some (value_in b (i @ f), length f, s2))"

text \<open>The exponent behind a letter; 0 when there is none.\<close>

definition exponent_of :: "char \<Rightarrow> string \<Rightarrow> int" where
  "exponent_of letter s = (case s of
       c # r \<Rightarrow>
         if tolower_c c \<noteq> letter then 0
         else (case r of
             d # ds \<Rightarrow> if d = CHR ''-'' then - int (digits_val (takeWhile isdigit_c ds))
                       else if d = CHR ''+'' then int (digits_val (takeWhile isdigit_c ds))
                       else int (digits_val (takeWhile isdigit_c r))
           | [] \<Rightarrow> 0)
     | [] \<Rightarrow> 0)"

text \<open>\<open>a / b * x ^ k\<close> as a fraction.\<close>

definition times_power :: "nat \<Rightarrow> nat \<Rightarrow> nat \<Rightarrow> int \<Rightarrow> nat \<times> nat" where
  "times_power a b x k = (if 0 \<le> k then (a * x ^ nat k, b) else (a, b * x ^ nat (- k)))"

text \<open>The sign and the fraction, an infinity, or NaN.\<close>

datatype literal = Number bool nat nat | Infinity bool | Not_a_number

definition unsigned_literal :: "bool \<Rightarrow> string \<Rightarrow> literal option" where
  "unsigned_literal neg s =
     (let low = map tolower_c s in
      if take 3 low = ''inf'' then Some (Infinity neg)
      else if take 3 low = ''nan'' then Some Not_a_number
      else case (if take 2 low = ''0x'' then mantissa_of 16 is_xdigit (drop 2 s) else None) of
        Some (v, k, r) \<Rightarrow>
          Some (case times_power v (16 ^ k) 2 (exponent_of (CHR ''p'') r) of (a, b) \<Rightarrow> Number neg a b)
      | None \<Rightarrow> (case mantissa_of 10 isdigit_c s of
            Some (v, k, r) \<Rightarrow>
              Some (case times_power v (10 ^ k) 10 (exponent_of (CHR ''e'') r) of (a, b) \<Rightarrow> Number neg a b)
          | None \<Rightarrow> None))"

definition strtod :: "string \<Rightarrow> literal option" where
  "strtod s = (case dropWhile isspace_c s of
       [] \<Rightarrow> None
     | c # r \<Rightarrow> if c = CHR ''-'' then unsigned_literal True r
                else if c = CHR ''+'' then unsigned_literal False r
                else unsigned_literal False (c # r))"

text \<open>
  \<^verbatim>\<open>std::stod\<close> throws when there is no number, and when the number overflows or is tiny and not exact.
\<close>

definition tiny_inexact :: "nat \<Rightarrow> nat \<Rightarrow> bool" where
  "tiny_inexact a b \<longleftrightarrow> a * 2 ^ 1022 < b \<and> a * 2 ^ 1074 mod b \<noteq> 0"

definition stod :: "string \<Rightarrow> (exn, double) outcome" where
  "stod s = (case strtod s of
       None \<Rightarrow> Throw (Std_exception ''stod'')
     | Some (Infinity neg) \<Rightarrow> Ok (Inf neg)
     | Some Not_a_number \<Rightarrow> Ok NaN
     | Some (Number neg a b) \<Rightarrow>
         (case fround neg a b of
            Inf _ \<Rightarrow> Throw (Std_exception ''stod'')
          | x \<Rightarrow> if tiny_inexact a b then Throw (Std_exception ''stod'') else Ok x))"

definition stringToDouble :: "string \<Rightarrow> double \<Rightarrow> double" where
  "stringToDouble s default_value = (case stod s of Ok x \<Rightarrow> x | _ \<Rightarrow> default_value)"

subsection \<open>Writing\<close>

definition doubleToString :: "double \<Rightarrow> nat \<Rightarrow> string" where
  "doubleToString x precision = print_fixed precision x"

definition formatNumber :: "double \<Rightarrow> nat \<Rightarrow> string" where
  "formatNumber x precision = print_fixed precision x"

definition formatPercentage :: "double \<Rightarrow> nat \<Rightarrow> string" where
  "formatPercentage x precision = formatNumber (d_mul x (d_of_nat 100)) precision @ ''%''"

definition formatCurrency :: "double \<Rightarrow> string \<Rightarrow> string" where
  "formatCurrency amount currency = currency @ '' '' @ formatNumber amount 2"

definition byte_units :: "string list" where
  "byte_units = [''B'', ''KB'', ''MB'', ''GB'', ''TB'']"

text \<open>\<^verbatim>\<open>while (size >= 1024.0 && unit < 4)\<close>; the first argument is \<open>4 - unit\<close>.\<close>

fun shrink :: "nat \<Rightarrow> double \<Rightarrow> nat \<Rightarrow> double \<times> nat" where
  "shrink 0 x unit = (x, unit)"
| "shrink (Suc k) x unit =
     (if d_le (d_of_nat 1024) x then shrink k (d_div x (d_of_nat 1024)) (unit + 1) else (x, unit))"

definition formatBytes :: "nat \<Rightarrow> string" where
  "formatBytes bytes =
     (case shrink 4 (d_of_nat bytes) 0 of (x, unit) \<Rightarrow> print_fixed 2 x @ '' '' @ byte_units ! unit)"

definition formatFileSize :: "nat \<Rightarrow> string" where
  "formatFileSize bytes = formatBytes bytes"

subsection \<open>Time\<close>

text \<open>The steady clock's nanoseconds, cut to microseconds and divided.\<close>

definition getCurrentTimeSeconds :: "int \<Rightarrow> double" where
  "getCurrentTimeSeconds ns = d_div (d_of_int (cut ns 1000)) (d_of_nat 1000000)"

fun d_floor :: "double \<Rightarrow> int option" where
  "d_floor (Fin s m e) = Some (signed s (num m e) div int (den e))"
| "d_floor x = None"

fun d_ceil :: "double \<Rightarrow> int option" where
  "d_ceil (Fin s m e) = Some (- ((- signed s (num m e)) div int (den e)))"
| "d_ceil x = None"

fun d_trunc :: "double \<Rightarrow> int option" where
  "d_trunc (Fin s m e) = Some (signed s (num m e div den e))"
| "d_trunc x = None"

text \<open>The milliseconds to sleep; None when the cast to \<^verbatim>\<open>int\<close> is out of range.\<close>

definition sleepSeconds :: "double \<Rightarrow> int option" where
  "sleepSeconds x = (case d_trunc (d_mul x (d_of_nat 1000)) of
       Some i \<Rightarrow> if int_min \<le> i \<and> i \<le> int_max then Some i else None
     | None \<Rightarrow> None)"

subsection \<open>Statistics\<close>

definition calculateAverage :: "double list \<Rightarrow> double" where
  "calculateAverage xs =
     (if xs = [] then d_zero False else d_div (foldl d_add (d_zero False) xs) (d_of_nat (length xs)))"

fun d_insert :: "double \<Rightarrow> double list \<Rightarrow> double list" where
  "d_insert x [] = [x]"
| "d_insert x (y # ys) = (if d_less y x then y # d_insert x ys else x # y # ys)"

definition d_sort :: "double list \<Rightarrow> (exn, double list) outcome" where
  "d_sort xs = (if NaN \<in> set xs then Fault Out_of_bounds else Ok (foldr d_insert xs []))"

definition calculateMedian :: "double list \<Rightarrow> (exn, double) outcome" where
  "calculateMedian xs =
     (if xs = [] then Ok (d_zero False)
      else obind (d_sort xs) (\<lambda>ys.
        let n = length ys in
        Ok (if even n then d_div (d_add (ys ! (n div 2 - 1)) (ys ! (n div 2))) (d_of_nat 2)
            else ys ! (n div 2))))"

definition calculateStandardDeviation :: "double list \<Rightarrow> double" where
  "calculateStandardDeviation xs =
     (if length xs < 2 then d_zero False
      else
        let mean = calculateAverage xs;
            sum = foldl (\<lambda>a x. let diff = d_sub x mean in d_add a (d_mul diff diff)) (d_zero False) xs
        in d_sqrt (d_div sum (d_of_nat (length xs - 1))))"

definition element :: "double list \<Rightarrow> int \<Rightarrow> (exn, double) outcome" where
  "element ys i = (if 0 \<le> i \<and> i < int (length ys) then Ok (ys ! nat i) else Fault Out_of_bounds)"

definition calculatePercentile :: "double list \<Rightarrow> double \<Rightarrow> (exn, double) outcome" where
  "calculatePercentile xs percentile =
     (if xs = [] then Ok (d_zero False)
      else obind (d_sort xs) (\<lambda>ys.
        let index = d_mul (d_div percentile (d_of_nat 100)) (d_of_nat (length ys - 1)) in
        case (d_floor index, d_ceil index) of
          (Some lower, Some upper) \<Rightarrow>
            if lower = upper then element ys lower
            else obind (element ys lower) (\<lambda>x. obind (element ys upper) (\<lambda>y.
              let weight = d_sub index (d_of_int lower) in
              Ok (d_add (d_mul x (d_sub (d_of_nat 1) weight)) (d_mul y weight))))
        | _ \<Rightarrow> Fault Out_of_bounds))"

subsection \<open>Sizes\<close>

lemma shrink_val:
  assumes "normal m e" and "10 * int k - 1074 \<le> e"
  shows "\<exists>j\<le>k. shrink k (Fin False m e) u = (Fin False m (e - 10 * int j), u + j) \<and>
    (j < k \<longrightarrow> val m e < 1024 ^ (j + 1)) \<and> (0 < j \<longrightarrow> 1024 ^ j \<le> val m e)"
  using assms
proof (induction k arbitrary: e u)
  case (Suc k)
  show ?case
  proof (cases "1024 \<le> val m e")
    case True
    have v: "val m (e - 10) * 1024 = val m e" by (simp add: val_def power_int_diff)
    have "normal m (e - 10)" "10 * int k - 1074 \<le> e - 10" using Suc.prems by (simp_all add: normal_def)
    from Suc.IH[OF this, of "u + 1"] obtain j where j: "j \<le> k"
      "shrink k (Fin False m (e - 10)) (u + 1) = (Fin False m (e - 10 - 10 * int j), u + 1 + j)"
      "j < k \<longrightarrow> val m (e - 10) < 1024 ^ (j + 1)" "0 < j \<longrightarrow> 1024 ^ j \<le> val m (e - 10)" by blast
    have "shrink (Suc k) (Fin False m e) u = shrink k (Fin False m (e - 10)) (u + 1)"
      using True Suc.prems by (simp add: le_1024 div_1024)
    moreover have "e - 10 - 10 * int j = e - 10 * int (Suc j)" by simp
    moreover have "Suc j < Suc k \<longrightarrow> val m e < 1024 ^ (Suc j + 1)" using j(3) v by auto
    moreover have "1024 ^ Suc j \<le> val m e" using j(4) v True by (cases "j = 0") auto
    ultimately show ?thesis using j(1,2) by (intro exI[of _ "Suc j"]) simp
  next
    case False
    then show ?thesis by (intro exI[of _ 0]) (simp add: le_1024)
  qed
qed simp

lemma shrink_stop: "\<not> d_le (d_of_nat 1024) x \<Longrightarrow> shrink k x u = (x, u)"
  by (cases k) simp_all

lemma val_shift: "val m (e - 10 * int u) * 1024 ^ u = val m e"
proof -
  have "(2::real) powi (10 * int u) = (2 powi 10) powi int u" by (rule power_int_mult)
  then have "(1024::real) ^ u = 2 powi (10 * int u)" by simp
  then show ?thesis by (simp add: val_def power_int_diff)
qed

text \<open>
  Sizes in units.  A size below \<open>2 ^ 53\<close> is written as the exact quotient by a power of 1024,
  rounded to two decimals, half to even, in the largest unit that is not above the size, or in TB:
  no step of the division in \<^verbatim>\<open>double\<close> loses anything.
\<close>
theorem formatBytes_exact:
  assumes "bytes < 2 ^ 53"
  shows "\<exists>u\<le>4. formatBytes bytes = fixed_text 2 bytes (1024 ^ u) @ '' '' @ byte_units ! u \<and>
    (u < 4 \<longrightarrow> bytes < 1024 ^ (u + 1)) \<and> (0 < u \<longrightarrow> 1024 ^ u \<le> bytes)"
proof (cases "bytes = 0")
  case True
  have "d_of_nat 0 = d_zero False" by (simp add: d_of_nat_def fround_def)
  moreover have "\<not> d_le (d_of_nat 1024) (d_zero False)" by (simp add: d_zero_def le_1024 val_def)
  ultimately have "formatBytes 0 = fixed_text 2 (num 0 (- 1074)) (den (- 1074)) @ '' '' @ byte_units ! 0"
    by (simp add: formatBytes_def shrink_stop d_zero_def)
  also have "fixed_text 2 (num 0 (- 1074)) (den (- 1074)) = fixed_text 2 0 1"
    by (rule fixed_text_ratio) (simp_all add: num_def ratio_val)
  finally show ?thesis using True by (intro exI[of _ 0]) simp
next
  case False
  then obtain m e where me: "d_of_nat bytes = Fin False m e" "normal m e" "- 52 \<le> e" "val m e = real bytes"
    using d_of_nat_exact assms by blast
  then obtain u where u: "u \<le> 4" "shrink 4 (d_of_nat bytes) 0 = (Fin False m (e - 10 * int u), 0 + u)"
    "u < 4 \<longrightarrow> val m e < 1024 ^ (u + 1)" "0 < u \<longrightarrow> 1024 ^ u \<le> val m e"
    using shrink_val[of m e 4 0] by auto
  let ?e = "e - 10 * int u"
  have "real (num m ?e) / real (den ?e) * 1024 ^ u = real bytes"
    using val_shift[of m e u] me(4) by (simp add: ratio_val)
  then have "real (num m ?e) * real (1024 ^ u) = real bytes * real (den ?e)"
    using ratio_val(2)[of ?e] by (simp add: field_simps)
  then have "num m ?e * 1024 ^ u = bytes * den ?e" by (simp only: of_nat_mult[symmetric] of_nat_eq_iff)
  then have "fixed_text 2 (num m ?e) (den ?e) = fixed_text 2 bytes (1024 ^ u)"
    by (intro fixed_text_ratio) (simp_all add: ratio_val)
  moreover have "u < 4 \<longrightarrow> bytes < 1024 ^ (u + 1)" "0 < u \<longrightarrow> 1024 ^ u \<le> bytes"
    using u(3,4) unfolding me(4) by (metis of_nat_less_iff of_nat_power of_nat_numeral, metis of_nat_le_iff of_nat_power of_nat_numeral)
  ultimately show ?thesis using u(1,2) by (intro exI[of _ u]) (simp add: formatBytes_def)
qed

theorem formatBytes_exact_witness:
  "formatBytes 1536 = ''1.50 KB''"
proof -
  obtain u where u: "u \<le> 4" "formatBytes 1536 = fixed_text 2 1536 (1024 ^ u) @ '' '' @ byte_units ! u"
    "u < 4 \<longrightarrow> (1536::nat) < 1024 ^ (u + 1)" "0 < u \<longrightarrow> (1024::nat) ^ u \<le> 1536"
    using formatBytes_exact[of 1536] by auto
  have "u = 0 \<or> u = 1 \<or> u = 2 \<or> u = 3 \<or> u = 4" using u(1) by linarith
  then have "u = 1" using u(3,4) by auto
  with u(2) show ?thesis
    by (simp add: fixed_text_def round_half_even_def byte_units_def nat_to_string.simps pad_2 digit_char_def)
qed

text \<open>Just below a unit the rounded text reaches it, in the smaller unit.\<close>

lemma size_rounds_up: "fixed_text 2 1048575 (1024 ^ 1) = ''1024.00''"
  by (simp add: fixed_text_def round_half_even_def nat_to_string.simps pad_2 digit_char_def)

subsection \<open>Percentiles\<close>

lemma d_of_nat_power: "d_of_nat 1 = Fin False (2 ^ 52) (- 52)" "d_of_nat 2 = Fin False (2 ^ 52) (- 51)"
  unfolding d_of_nat_def by (rule fround_exact, simp_all add: val_def power_int_minus)+

lemma d_div_val:
  assumes "normal m e" "normal k f" "normal r g" "val m e = val r g * val k f"
  shows "d_div (Fin False m e) (Fin False k f) = Fin False r g"
proof -
  have k: "0 < k" "0 < m" using assms(1,2) by (simp_all add: normal_def)
  have pos: "0 < val k f" using k by (simp add: val_def)
  have "real (num m e * den f) / real (den e * num k f) =
      (real (num m e) / real (den e)) / (real (num k f) / real (den f))" by simp
  also have "\<dots> = val r g" using assms(4) pos by (simp add: ratio_val)
  finally show ?thesis
    using assms(3) k by (simp, intro fround_exact) (simp_all add: normal_def num_pos ratio_val)
qed

lemma d_mul_val:
  assumes "normal m e" "normal k f" "normal r g" "val r g = val m e * val k f"
  shows "d_mul (Fin False m e) (Fin False k f) = Fin False r g"
proof -
  have k: "0 < k" "0 < m" using assms(1,2) by (simp_all add: normal_def)
  have "real (num m e * num k f) / real (den e * den f) =
      (real (num m e) / real (den e)) * (real (num k f) / real (den f))" by simp
  also have "\<dots> = val r g" using assms(4) by (simp add: ratio_val)
  finally show ?thesis
    using assms(3) k by (simp, intro fround_exact) (simp_all add: normal_def num_pos ratio_val)
qed

lemma d_floor_val: "val m e = real n \<Longrightarrow> d_floor (Fin False m e) = Some (int n) \<and> d_ceil (Fin False m e) = Some (int n)"
proof -
  assume v: "val m e = real n"
  have "real (num m e) = real n * real (den e)" using ratio_val(1)[of m e] ratio_val(2)[of e] v by (simp add: field_simps)
  then have "num m e = n * den e" by (simp only: of_nat_mult[symmetric] of_nat_eq_iff)
  moreover have "- (int n * int (den e)) div int (den e) = - int n"
    using ratio_val(2)[of e] nonzero_mult_div_cancel_right[of "int (den e)" "- int n"] by simp
  ultimately show ?thesis using ratio_val(2)[of e] by (simp add: signed_def)
qed

lemma length_d_insert: "length (foldr d_insert xs []) = length xs"
proof -
  have "length (d_insert x ys) = Suc (length ys)" for x ys by (induction ys) auto
  then show ?thesis by (induction xs) simp_all
qed

text \<open>The index for 0, 100 and 200 percent of n, as the code computes it.\<close>

lemma percent_index:
  assumes "n < 2 ^ 53" and "k \<le> 2"
  shows "d_floor (d_mul (d_div (d_of_nat (100 * k)) (d_of_nat 100)) (d_of_nat n)) = Some (int (k * n)) \<and>
    d_ceil (d_mul (d_div (d_of_nat (100 * k)) (d_of_nat 100)) (d_of_nat n)) = Some (int (k * n))"
proof -
  have zero: "d_of_nat 0 = d_zero False" by (simp add: d_of_nat_def fround_def)
  obtain m e where h: "d_of_nat 100 = Fin False m e" "normal m e" "val m e = 100" using d_of_nat_exact[of 100] by auto
  have p: "d_div (d_of_nat (100 * k)) (d_of_nat 100) =
      (if k = 0 then d_zero False else Fin False (2 ^ 52) (int k - 53))"
  proof (cases "k = 0")
    case False
    then obtain m' e' where h': "d_of_nat (100 * k) = Fin False m' e'" "normal m' e'" "val m' e' = real (100 * k)"
      using d_of_nat_exact[of "100 * k"] assms(2) by auto
    have "k = 1 \<or> k = 2" using False assms(2) by linarith
    then have "val (2 ^ 52) (int k - 53) = real k" "normal (2 ^ 52) (int k - 53)"
      by (auto simp: val_def power_int_minus normal_def)
    then show ?thesis using d_div_val[OF h'(2) h(2), of "2 ^ 52" "int k - 53"] h(1,3) h'(1,3) False by simp
  qed (use h(2) in \<open>simp add: zero h(1) d_zero_def fround_def num_def normal_def\<close>)
  have "\<exists>r g. d_mul (d_div (d_of_nat (100 * k)) (d_of_nat 100)) (d_of_nat n) = Fin False r g \<and> val r g = real (k * n)"
  proof (cases "n = 0")
    case True
    then show ?thesis unfolding p by (simp add: zero d_zero_def fround_def num_def val_def)
  next
    case False
    then obtain r g where n: "d_of_nat n = Fin False r g" "normal r g" "- 52 \<le> g" "g \<le> 0" "val r g = real n"
      using d_of_nat_exact assms(1) by blast
    show ?thesis
    proof (cases "k = 0")
      case True
      then show ?thesis unfolding p by (simp add: n(1) d_zero_def fround_def num_def val_def)
    next
      case False
      then have k: "k = 1 \<or> k = 2" using assms(2) by linarith
      have "normal (2 ^ 52) (int k - 53)" "normal r (g + int k - 1)" using k n by (auto simp: normal_def)
      moreover have "val r (g + int k - 1) = val (2 ^ 52) (int k - 53) * val r g" "val r (g + int k - 1) = real (k * n)"
        using k n(5) by (auto simp: val_def power_int_minus power_int_add)
      ultimately have "d_mul (Fin False (2 ^ 52) (int k - 53)) (Fin False r g) = Fin False r (g + int k - 1)"
        "val r (g + int k - 1) = real (k * n)" using d_mul_val[OF _ n(2)] by blast+
      then show ?thesis unfolding p n(1) using False by simp
    qed
  qed
  then show ?thesis using d_floor_val by fastforce
qed

text \<open>
  The ends of the percentiles.  Of a vector without NaN, 0 percent gives the first and 100 percent
  the last element in order, exactly; the percentage is not checked, and 200 percent of two or more
  elements reads outside of the vector.
\<close>
theorem percentile_ends:
  assumes "d_sort xs = Ok ys" and "xs \<noteq> []" and "length xs < 2 ^ 53"
  shows "calculatePercentile xs (d_of_nat 0) = Ok (ys ! 0) \<and>
    calculatePercentile xs (d_of_nat 100) = Ok (ys ! (length xs - 1)) \<and>
    (2 \<le> length xs \<longrightarrow> calculatePercentile xs (d_of_nat 200) = Fault Out_of_bounds)"
proof -
  have len: "length ys = length xs" using assms(1) by (auto simp: d_sort_def length_d_insert split: if_splits)
  note i = percent_index[of "length xs - 1"]
  have "calculatePercentile xs (d_of_nat 0) = Ok (ys ! 0)"
    using i[of 0] assms len by (simp add: calculatePercentile_def element_def)
  moreover have "calculatePercentile xs (d_of_nat 100) = Ok (ys ! (length xs - 1))"
    using i[of 1] assms len by (simp add: calculatePercentile_def element_def)
  moreover have "2 \<le> length xs \<longrightarrow> calculatePercentile xs (d_of_nat 200) = Fault Out_of_bounds"
    using i[of 2] assms len by (simp add: calculatePercentile_def element_def)
  ultimately show ?thesis by blast
qed

theorem percentile_ends_witness:
  "calculatePercentile [Fin False (2 ^ 52) (- 51), Fin False (2 ^ 52) (- 52)] (d_of_nat 100) =
    Ok (Fin False (2 ^ 52) (- 51))"
proof -
  have "d_sort [Fin False (2 ^ 52) (- 51), Fin False (2 ^ 52) (- 52)] =
      Ok [Fin False (2 ^ 52) (- 52), Fin False (2 ^ 52) (- 51)]"
    by (simp add: d_sort_def signed_def num_def den_def)
  from percentile_ends[OF this] show ?thesis by simp
qed

end
