(* ===== verification/Traces.thy ===== *)
theory Traces
  imports Main
begin

section \<open>Runs of a step relation and what one system promises of another\<close>

text \<open>
  A step carries an event that an observer sees, or none.  \<open>exec\<close> collects the events of a run.
  The locale \<open>forward_simulation\<close> is the contract between a system and its specification: every
  step of the system is answered by a step of the specification with the same event, or by none
  when nothing is seen.  Then every trace of the system is a trace of the specification.
\<close>

inductive exec :: "('s \<Rightarrow> 'e option \<Rightarrow> 's \<Rightarrow> bool) \<Rightarrow> 's \<Rightarrow> 'e list \<Rightarrow> 's \<Rightarrow> bool" for step where
  exec_Nil: "exec step s [] s"
| exec_silent: "step s None t \<Longrightarrow> exec step t tr u \<Longrightarrow> exec step s tr u"
| exec_event: "step s (Some e) t \<Longrightarrow> exec step t tr u \<Longrightarrow> exec step s (e # tr) u"

lemma exec_append: "exec step s tr t \<Longrightarrow> exec step t tr' u \<Longrightarrow> exec step s (tr @ tr') u"
  by (induction rule: exec.induct) (auto intro: exec.intros)

lemma exec_invariant:
  assumes "exec step s tr t" "I s" "\<And>x e y. I x \<Longrightarrow> step x e y \<Longrightarrow> I y"
  shows "I t"
  using assms by (induction rule: exec.induct) blast+

text \<open>The step at which something an observer of the state sees changed last.\<close>

lemma exec_last_change:
  assumes "exec step s tr u" "f u \<noteq> f s"
  shows "\<exists>tr1 tr2 x e y. tr = tr1 @ (case e of None \<Rightarrow> [] | Some a \<Rightarrow> [a]) @ tr2 \<and>
    exec step s tr1 x \<and> step x e y \<and> exec step y tr2 u \<and> f y = f u \<and> f y \<noteq> f x"
  using assms
proof (induction rule: exec.induct)
  case (exec_silent s t tr u)
  show ?case
  proof (cases "f u = f t")
    case True
    with exec_silent show ?thesis
      by (intro exI[of _ "[]"] exI[of _ tr] exI[of _ s] exI[of _ None] exI[of _ t]) (auto intro: exec_Nil)
  next
    case False
    with exec_silent.IH obtain tr1 tr2 x e y where "tr = tr1 @ (case e of None \<Rightarrow> [] | Some a \<Rightarrow> [a]) @ tr2"
      "exec step t tr1 x" "step x e y" "exec step y tr2 u" "f y = f u" "f y \<noteq> f x" by blast
    with exec_silent.hyps(1) show ?thesis by (blast intro: exec.exec_silent)
  qed
next
  case (exec_event s e t tr u)
  show ?case
  proof (cases "f u = f t")
    case True
    with exec_event show ?thesis
      by (intro exI[of _ "[]"] exI[of _ tr] exI[of _ s] exI[of _ "Some e"] exI[of _ t]) (auto intro: exec_Nil)
  next
    case False
    with exec_event.IH obtain tr1 tr2 x e' y where *: "tr = tr1 @ (case e' of None \<Rightarrow> [] | Some a \<Rightarrow> [a]) @ tr2"
      "exec step t tr1 x" "step x e' y" "exec step y tr2 u" "f y = f u" "f y \<noteq> f x" by blast
    have "e # tr = (e # tr1) @ (case e' of None \<Rightarrow> [] | Some a \<Rightarrow> [a]) @ tr2" using *(1) by simp
    moreover have "exec step s (e # tr1) x" by (rule exec.exec_event[OF exec_event.hyps(1) *(2)])
    ultimately show ?thesis using *(3-6) by blast
  qed
qed simp

lemma exec_step: "step x e y \<Longrightarrow> exec step x (case e of None \<Rightarrow> [] | Some a \<Rightarrow> [a]) y"
  by (cases e) (auto intro: exec.intros)

locale forward_simulation =
  fixes cstep :: "'c \<Rightarrow> 'e option \<Rightarrow> 'c \<Rightarrow> bool"
    and astep :: "'a \<Rightarrow> 'e option \<Rightarrow> 'a \<Rightarrow> bool"
    and R :: "'c \<Rightarrow> 'a \<Rightarrow> bool"
  assumes simulates: "R c a \<Longrightarrow> cstep c e c' \<Longrightarrow>
    \<exists>a'. R c' a' \<and> (astep a e a' \<or> e = None \<and> a' = a)"
begin

lemma trace_of_spec:
  "exec cstep c tr c' \<Longrightarrow> R c a \<Longrightarrow> \<exists>a'. exec astep a tr a' \<and> R c' a'"
proof (induction arbitrary: a rule: exec.induct)
  case (exec_Nil s)
  then show ?case by (blast intro: exec.exec_Nil)
next
  case (exec_silent s t tr u)
  from simulates[OF exec_silent.prems exec_silent.hyps(1)] obtain b where
    b: "R t b" "astep a None b \<or> b = a" by blast
  from exec_silent.IH[OF b(1)] b(2) show ?case by (blast intro: exec.exec_silent)
next
  case (exec_event s e t tr u)
  from simulates[OF exec_event.prems exec_event.hyps(1)] obtain b where
    b: "R t b" "astep a (Some e) b" by blast
  from exec_event.IH[OF b(1)] b(2) show ?case by (blast intro: exec.exec_event)
qed

end

end
