(* ===== verification/DumpRace.thy ===== *)
theory DumpRace
  imports SkipListRace Persistence
begin

section \<open>A dump that runs while other threads write (skiplist/skiplist.cpp)\<close>

text \<open>
  \<^verbatim>\<open>dump_file\<close> takes no mutex either: the persistence thread and a client's SAVE walk along level 0
  between the insertions and deletions of other clients.  The dump is a machine with one node per
  step; what it writes is the list of the pairs so far.  Key and value of a node never change, so
  reading both is one step.
\<close>

subsection \<open>The machine\<close>

datatype dump_pc =
    D_first                   \<comment> \<open>reads \<open>head_->forward[0]\<close>\<close>
  | D_node "addr option"      \<comment> \<open>tests node, and writes its pair if it is not null\<close>
  | D_next addr               \<comment> \<open>reads \<open>node->forward[0]\<close>\<close>
  | D_done

type_synonym dump_state = "dump_pc \<times> (int \<times> string) list"

fun dump_step :: "heap \<Rightarrow> addr \<Rightarrow> dump_state \<Rightarrow> (exn, dump_state) outcome" where
  "dump_step h first (D_first, out) = obind (get_forward h first 0) (\<lambda>q. Ok (D_node q, out))"
| "dump_step h first (D_node None, out) = Ok (D_done, out)"
| "dump_step h first (D_node (Some a), out) =
     obind (deref h a) (\<lambda>n. Ok (D_next a, out @ [(get_key n, get_value n)]))"
| "dump_step h first (D_next a, out) = obind (get_forward h a 0) (\<lambda>q. Ok (D_node q, out))"
| "dump_step h first (D_done, out) = Ok (D_done, out)"

inductive dump_race :: "(nat \<Rightarrow> nat) \<Rightarrow> kv_op set \<Rightarrow> dump_state \<times> skiplist \<Rightarrow> dump_state \<times> skiplist \<Rightarrow> bool"
  for rnd W where
  dump_read: "dump_step (mem s) (head s) d = Ok d' \<Longrightarrow> dump_race rnd W (d, s) (d', s)"
| dump_write: "op \<in> W \<Longrightarrow> run_ops (insert_element rnd) delete_element [op] s = Ok s' \<Longrightarrow>
    dump_race rnd W (d, s) (d, s')"

lemma dump_read_step: "dump_step (mem s) (head s) d = Ok d' \<Longrightarrow> (dump_race rnd W)\<^sup>*\<^sup>* (d', s) t \<Longrightarrow>
    (dump_race rnd W)\<^sup>*\<^sup>* (d, s) t"
  by (meson converse_rtranclp_into_rtranclp dump_read)

subsection \<open>Left alone, it writes the rest of the list\<close>

lemma deref_item: "fwd h i a = Some q \<Longrightarrow> \<exists>n. deref h a = Ok n \<and> (get_key n, get_value n) = item_at h a"
  using deref_fwd by (fastforce simp: get_key_def get_value_def)

lemma dump_finishes:
  "path (mem s) 0 p vs None \<Longrightarrow>
    (dump_race rnd W)\<^sup>*\<^sup>* ((D_node p, out), s) ((D_done, out @ map (item_at (mem s)) vs), s)"
proof (induction vs arbitrary: p out)
  case Nil
  then show ?case by - (rule dump_read_step[OF _ rtranclp.rtrancl_refl], simp)
next
  case (Cons a vs)
  then obtain r where p: "p = Some a" and r: "fwd (mem s) 0 a = Some r" "path (mem s) 0 r vs None" by auto
  obtain n where n: "deref (mem s) a = Ok n" "(get_key n, get_value n) = item_at (mem s) a"
    using deref_item[OF r(1)] by blast
  have "(dump_race rnd W)\<^sup>*\<^sup>* ((D_next a, out @ [item_at (mem s) a]), s)
      ((D_done, out @ map (item_at (mem s)) (a # vs)), s)"
    using r(1) Cons.IH[OF r(2), of "out @ [item_at (mem s) a]"]
    by - (rule dump_read_step[of s _ "(D_node r, out @ [item_at (mem s) a])"], simp_all)
  with p n show ?case by - (rule dump_read_step[of s "(D_node p, out)" "(D_next a, out @ [item_at (mem s) a])"], simp_all)
qed

lemma dump_whole:
  assumes "nodes_inv s xs"
  shows "(dump_race rnd W)\<^sup>*\<^sup>* ((D_first, []), s) ((D_done, items s), s)"
proof -
  obtain r where r: "fwd (mem s) 0 (head s) = Some r" "path (mem s) 0 r xs None"
    using nodes_inv_path0[OF assms] by auto
  from dump_finishes[OF r(2), of rnd W "[]"] r(1) show ?thesis
    by - (rule dump_read_step[of s "(D_first, [])" "(D_node r, [])"], simp_all add: items_inv[OF assms])
qed

lemma dump_alone_det: "dump_race rnd {} x y \<Longrightarrow> dump_race rnd {} x z \<Longrightarrow> y = z"
  by (auto elim!: dump_race.cases)

lemma dump_done_stays: "(dump_race rnd {})\<^sup>*\<^sup>* ((D_done, out), s) c \<Longrightarrow> c = ((D_done, out), s)"
  by (induction rule: rtranclp_induct) (auto elim: dump_race.cases)

lemma dump_alone:
  assumes "wf_skiplist s"
  shows "(dump_race rnd {})\<^sup>*\<^sup>* ((D_first, []), s) ((D_done, out), s) \<longleftrightarrow> out = items s"
proof
  assume run: "(dump_race rnd {})\<^sup>*\<^sup>* ((D_first, []), s) ((D_done, out), s)"
  obtain xs where "nodes_inv s xs" using assms by (auto simp: wf_skiplist_def)
  from deterministic_runs[of "dump_race rnd {}", OF _ run dump_whole[OF this]] dump_alone_det
  show "out = items s" by (auto dest: dump_done_stays)
qed (use assms dump_whole in \<open>auto simp: wf_skiplist_def\<close>)

text \<open>
  Without writers the machine writes the file that \<^verbatim>\<open>dump_file\<close> writes.
\<close>
theorem dump_machine_is_dump:
  assumes "wf_skiplist s" "writable d"
  shows "(dump_race rnd {})\<^sup>*\<^sup>* ((D_first, []), s) ((D_done, out), s) \<longleftrightarrow>
    dump_file s d = Ok (d\<lparr>content := Some (concat (map (\<lambda>kv. dump_line kv @ [LF]) (items s)))\<rparr>) \<and> out = items s"
  using dump_alone[OF assms(1)] wf_level_items[OF assms(1)] assms(2) by (auto simp: dump_file_def)

theorem dump_machine_is_dump_witness:
  "\<exists>s. items s = [(7, ''x'')] \<and> (dump_race (\<lambda>_. 0) {})\<^sup>*\<^sup>* ((D_first, []), s) ((D_done, [(7, ''x'')]), s)"
proof -
  obtain s where s: "wf_skiplist s" "items s = [(7, ''x'')]" using one_key_store by (auto simp: store_ok_def)
  let ?d = "\<lparr>content = None, writable = True\<rparr>"
  have "dump_file s ?d = Ok (?d\<lparr>content := Some (concat (map (\<lambda>kv. dump_line kv @ [LF]) (items s)))\<rparr>)"
    using wf_level_items[OF s(1)] by (simp add: dump_file_def)
  with dump_machine_is_dump[OF s(1), of ?d "\<lambda>_. 0" "items s"] s(2) show ?thesis by auto
qed

subsection \<open>Insertions beside a dump\<close>

text \<open>The node behind a node, and behind the head, in the order of the keys.\<close>

lemma next_node:
  assumes inv: "nodes_inv s xs" and a: "a \<in> set xs"
  shows "\<exists>q. fwd (mem s) 0 a = Some q \<and> (q = None \<longrightarrow> (\<forall>x\<in>set xs. key_at (mem s) x \<le> key_at (mem s) a)) \<and>
    (\<forall>b. q = Some b \<longrightarrow> b \<in> set xs \<and> key_at (mem s) a < key_at (mem s) b \<and>
      (\<forall>x\<in>set xs. key_at (mem s) x < key_at (mem s) b \<longrightarrow> key_at (mem s) x \<le> key_at (mem s) a))"
proof -
  from a obtain us vs where xs: "xs = us @ a # vs" by (meson split_list)
  have "path (mem s) 0 (Some (head s)) ((head s # us) @ a # vs) None" using nodes_inv_path0[OF inv] xs by simp
  then obtain r where r: "fwd (mem s) 0 a = Some r" "path (mem s) 0 r vs None"
    unfolding path_append by auto
  have sorted: "sorted_wrt (<) (map (key_at (mem s)) xs)" using inv by (simp add: nodes_inv_def)
  show ?thesis
  proof (cases vs)
    case Nil
    then have "\<forall>x\<in>set xs. key_at (mem s) x \<le> key_at (mem s) a"
      using sorted xs by (auto simp: sorted_wrt_append less_imp_le)
    with r Nil show ?thesis by auto
  next
    case (Cons b ws)
    then have "b \<in> set xs" "key_at (mem s) a < key_at (mem s) b" "\<forall>x\<in>set us. key_at (mem s) x \<le> key_at (mem s) a"
      "\<forall>x\<in>set ws. \<not> key_at (mem s) x < key_at (mem s) b"
      using sorted xs by (auto simp: sorted_wrt_append less_imp_le)
    with r Cons xs show ?thesis by auto
  qed
qed

lemma first_node:
  assumes inv: "nodes_inv s xs"
  shows "\<exists>q. fwd (mem s) 0 (head s) = Some q \<and> (q = None \<longrightarrow> xs = []) \<and>
    (\<forall>b. q = Some b \<longrightarrow> b \<in> set xs \<and> (\<forall>x\<in>set xs. \<not> key_at (mem s) x < key_at (mem s) b))"
proof -
  obtain r where r: "fwd (mem s) 0 (head s) = Some r" "path (mem s) 0 r xs None"
    using nodes_inv_path0[OF inv] by auto
  have "sorted_wrt (<) (map (key_at (mem s)) xs)" using inv by (simp add: nodes_inv_def)
  with r show ?thesis by (cases xs) auto
qed

lemma same_key_same_node:
  "nodes_inv s xs \<Longrightarrow> a \<in> set xs \<Longrightarrow> b \<in> set xs \<Longrightarrow> key_at (mem s) a = key_at (mem s) b \<Longrightarrow> a = b"
proof -
  assume inv: "nodes_inv s xs" and ab: "a \<in> set xs" "b \<in> set xs" "key_at (mem s) a = key_at (mem s) b"
  have "distinct (map (key_at (mem s)) xs)"
    using inv by (simp add: nodes_inv_def strict_sorted_iff)
  with ab show "a = b" by (simp add: distinct_map inj_on_def)
qed

text \<open>An insertion keeps the nodes there are.\<close>

lemma put_nodes:
  assumes "store_ok rnd s" "insert_element rnd k v s = Ok (r, s')" "nodes_inv s xs"
  shows "\<exists>ys. nodes_inv s' ys \<and> set xs \<subseteq> set ys \<and> (\<forall>x\<in>set xs. item_at (mem s') x = item_at (mem s) x)"
proof (cases "k \<in> fst ` set (items s)")
  case True
  with insert_present[of s k rnd v] assms show ?thesis by (auto simp: store_ok_def)
next
  case False
  note inv = assms(3)
  have "k \<notin> key_at (mem s) ` set xs" using False keys_inv[OF inv] by simp
  moreover have "rand_ends rnd (rand_pos s)" using assms(1) by (simp add: store_ok_def rand_fair_def)
  ultimately obtain s1 where s1:
    "insert_new rnd k v (replicate (nat (max_level s + 1)) (pred_of s k xs)) s = Ok s1"
    "nodes_inv s1 (before_key (mem s) k xs @ next_addr s # from_key (mem s) k xs)"
    "\<forall>x. x \<noteq> next_addr s \<longrightarrow> item_at (mem s1) x = item_at (mem s) x" using insert_new_inv[OF inv] by blast
  from insert_step[OF inv False s1(1)] assms(2) have s': "s1 = s'" by simp
  let ?ys = "before_key (mem s) k xs @ next_addr s # from_key (mem s) k xs"
  have "set (before_key (mem s) k xs @ from_key (mem s) k xs) \<subseteq> set ?ys"
    unfolding set_append list.set(2) by blast
  then have "set xs \<subseteq> set ?ys" unfolding below_above .
  moreover have "next_addr s \<notin> set xs" using inv by (auto simp: nodes_inv_def)
  then have "\<forall>x\<in>set xs. item_at (mem s') x = item_at (mem s) x" using s1(3) unfolding s' by metis
  ultimately show ?thesis using s1(2) unfolding s' by blast
qed

text \<open>
  Where the dump stands, for the pairs B the list held at the beginning: everything written is
  below the cursor, and everything of B below the cursor is written.
\<close>

fun dump_at :: "(int \<times> string) set \<Rightarrow> skiplist \<Rightarrow> addr list \<Rightarrow> dump_state \<Rightarrow> bool" where
  "dump_at B s xs (D_first, out) \<longleftrightarrow> out = []"
| "dump_at B s xs (D_node None, out) \<longleftrightarrow> B \<subseteq> set out"
| "dump_at B s xs (D_node (Some a), out) \<longleftrightarrow> a \<in> set xs \<and> (\<forall>kv\<in>set out. fst kv < key_at (mem s) a) \<and>
     (\<forall>kv\<in>B. fst kv < key_at (mem s) a \<longrightarrow> kv \<in> set out)"
| "dump_at B s xs (D_next a, out) \<longleftrightarrow> a \<in> set xs \<and> (\<forall>kv\<in>set out. fst kv \<le> key_at (mem s) a) \<and>
     (\<forall>kv\<in>B. fst kv \<le> key_at (mem s) a \<longrightarrow> kv \<in> set out)"
| "dump_at B s xs (D_done, out) \<longleftrightarrow> B \<subseteq> set out"

definition dump_ok :: "(nat \<Rightarrow> nat) \<Rightarrow> (int \<times> string) set \<Rightarrow> dump_state \<times> skiplist \<Rightarrow> bool" where
  "dump_ok rnd B c \<longleftrightarrow> store_ok rnd (snd c) \<and> sorted_wrt (<) (map fst (snd (fst c))) \<and>
     (\<exists>xs. nodes_inv (snd c) xs \<and> dump_at B (snd c) xs (fst c) \<and>
        B \<subseteq> item_at (mem (snd c)) ` set xs \<and> set (snd (fst c)) \<subseteq> item_at (mem (snd c)) ` set xs)"

lemma dump_step_node:
  assumes "nodes_inv s xs" "a \<in> set xs"
  shows "dump_step (mem s) (head s) (D_node (Some a), out) = Ok (D_next a, out @ [item_at (mem s) a])"
proof -
  obtain q where "fwd (mem s) 0 a = Some q" using next_node[OF assms] by blast
  from deref_item[OF this] show ?thesis by auto
qed

lemma dump_step_ok:
  assumes "dump_ok rnd B (d, s)"
  shows "\<exists>d'. dump_step (mem s) (head s) d = Ok d' \<and> dump_ok rnd B (d', s)"
proof -
  obtain pc out where d: "d = (pc, out)" by (cases d)
  obtain xs where inv: "nodes_inv s xs" and at: "dump_at B s xs (pc, out)"
    and sub: "B \<subseteq> item_at (mem s) ` set xs" "set out \<subseteq> item_at (mem s) ` set xs"
    and ok: "store_ok rnd s" "sorted_wrt (<) (map fst out)"
    using assms d by (auto simp: dump_ok_def)
  have go: ?thesis if "dump_step (mem s) (head s) (pc, out) = Ok (pc', out')" "dump_at B s xs (pc', out')"
    "set out' \<subseteq> item_at (mem s) ` set xs" "sorted_wrt (<) (map fst out')" for pc' out'
    using that d inv ok(1) sub(1) by (auto simp: dump_ok_def)
  show ?thesis
  proof (cases pc)
    case D_first
    obtain q where q: "fwd (mem s) 0 (head s) = Some q" "q = None \<longrightarrow> xs = []"
      "\<forall>b. q = Some b \<longrightarrow> b \<in> set xs \<and> (\<forall>x\<in>set xs. \<not> key_at (mem s) x < key_at (mem s) b)"
      using first_node[OF inv] by blast
    have "dump_at B s xs (D_node q, out)"
      using q(2,3) sub(1) at D_first by (cases q) fastforce+
    with go[of "D_node q" out] q(1) D_first sub ok show ?thesis by simp
  next
    case (D_node q)
    show ?thesis
    proof (cases q)
      case None
      with go[of D_done out] D_node at sub ok show ?thesis by simp
    next
      case (Some a)
      with D_node at have a: "a \<in> set xs" "\<forall>kv\<in>set out. fst kv < key_at (mem s) a"
        "\<forall>kv\<in>B. fst kv < key_at (mem s) a \<longrightarrow> kv \<in> set out" by simp_all
      have "kv \<in> set (out @ [item_at (mem s) a])" if kv: "kv \<in> B" "fst kv \<le> key_at (mem s) a" for kv
      proof (cases "fst kv = key_at (mem s) a")
        case True
        from kv(1) sub(1) obtain x where x: "x \<in> set xs" "kv = item_at (mem s) x" by auto
        with True same_key_same_node[OF inv x(1) a(1)] show ?thesis by simp
      qed (use kv a(3) in simp)
      then have "dump_at B s xs (D_next a, out @ [item_at (mem s) a])" using a by auto
      moreover have "sorted_wrt (<) (map fst (out @ [item_at (mem s) a]))"
        using ok(2) a(2) by (auto simp: sorted_wrt_append)
      ultimately show ?thesis
        using go[OF _ _ _ \<open>sorted_wrt (<) (map fst (out @ [item_at (mem s) a]))\<close>, of "D_next a"]
          dump_step_node[OF inv a(1)] D_node Some sub(2) a(1) by simp
    qed
  next
    case (D_next a)
    with at have a: "a \<in> set xs" "\<forall>kv\<in>set out. fst kv \<le> key_at (mem s) a"
      "\<forall>kv\<in>B. fst kv \<le> key_at (mem s) a \<longrightarrow> kv \<in> set out" by simp_all
    obtain q where q: "fwd (mem s) 0 a = Some q" "q = None \<longrightarrow> (\<forall>x\<in>set xs. key_at (mem s) x \<le> key_at (mem s) a)"
      "\<forall>b. q = Some b \<longrightarrow> b \<in> set xs \<and> key_at (mem s) a < key_at (mem s) b \<and>
        (\<forall>x\<in>set xs. key_at (mem s) x < key_at (mem s) b \<longrightarrow> key_at (mem s) x \<le> key_at (mem s) a)"
      using next_node[OF inv a(1)] by blast
    have "dump_at B s xs (D_node q, out)"
    proof (cases q)
      case None
      have "kv \<in> set out" if "kv \<in> B" for kv
        using that sub(1) q(2) None a(3) by fastforce
      with None show ?thesis by auto
    next
      case (Some b)
      have "kv \<in> set out" if "kv \<in> B" "fst kv < key_at (mem s) b" for kv
        using that sub(1) q(3) Some a(3) by fastforce
      with Some q(3) a(2) show ?thesis by force
    qed
    with go[of "D_node q" out] q(1) D_next sub ok show ?thesis by simp
  next
    case D_done
    with go[of D_done out] at sub ok show ?thesis by simp
  qed
qed

lemma dump_at_more:
  assumes "set xs \<subseteq> set ys" "\<forall>x\<in>set xs. item_at (mem s') x = item_at (mem s) x" "dump_at B s xs d"
  shows "dump_at B s' ys d"
proof -
  have "key_at (mem s') x = key_at (mem s) x" if "x \<in> set xs" for x
    using assms(2) that fst_item_at by metis
  with assms(1,3) show ?thesis by (induction B s xs d rule: dump_at.induct) auto
qed

lemma dump_ok_write:
  assumes "dump_ok rnd B (d, s)" "insert_element rnd k v s = Ok (r, s')"
  shows "dump_ok rnd B (d, s')"
proof -
  obtain xs where inv: "nodes_inv s xs" and at: "dump_at B s xs d"
    and sub: "B \<subseteq> item_at (mem s) ` set xs" "set (snd d) \<subseteq> item_at (mem s) ` set xs"
    and ok: "store_ok rnd s" "sorted_wrt (<) (map fst (snd d))"
    using assms(1) by (auto simp: dump_ok_def)
  obtain ys where ys: "nodes_inv s' ys" "set xs \<subseteq> set ys" "\<forall>x\<in>set xs. item_at (mem s') x = item_at (mem s) x"
    using put_nodes[OF ok(1) assms(2) inv] by blast
  have "item_at (mem s) ` set xs \<subseteq> item_at (mem s') ` set ys"
  proof
    fix kv assume "kv \<in> item_at (mem s) ` set xs"
    then obtain x where "x \<in> set xs" "kv = item_at (mem s') x" using ys(3) by auto
    then show "kv \<in> item_at (mem s') ` set ys" using ys(2) by auto
  qed
  with sub ys dump_at_more[OF ys(2,3) at] put_keys(1)[OF ok(1) assms(2)] ok(2) show ?thesis
    by (auto simp: dump_ok_def intro!: exI[of _ ys])
qed

lemma dump_ok_step:
  assumes "dump_race rnd W c c'" "inserts_only W" "dump_ok rnd B c"
  shows "dump_ok rnd B c'"
  using assms(1)
proof cases
  case (dump_read s d d')
  with assms(3) dump_step_ok show ?thesis by fastforce
next
  case (dump_write op s s' d)
  then obtain k v where "op = Put k v" using assms(2) by (auto simp: inserts_only_def)
  with dump_write(4) obtain r where "insert_element rnd k v s = Ok (r, s')" by (auto simp: outcome_simps)
  with assms(3) dump_write(1,2) dump_ok_write show ?thesis by blast
qed

lemma dump_ok_run:
  "(dump_race rnd W)\<^sup>*\<^sup>* c c' \<Longrightarrow> inserts_only W \<Longrightarrow> dump_ok rnd B c \<Longrightarrow> dump_ok rnd B c'"
  by (induction rule: rtranclp_induct) (auto intro: dump_ok_step)

lemma dump_ok_start:
  assumes "store_ok rnd s"
  shows "dump_ok rnd (set (items s)) ((D_first, []), s)"
proof -
  obtain xs where inv: "nodes_inv s xs" using assms by (auto simp: store_ok_def wf_skiplist_def)
  with assms show ?thesis by (auto simp: dump_ok_def items_inv intro!: exI[of _ xs])
qed

text \<open>
  C16. A dump beside insertions.  While other threads only insert, the dump never reads through a
  dead pointer, and when it ends, the file has the pairs in the order of their keys, has every pair
  that was in the list at the beginning, and none that is not in the list at the end.
\<close>
theorem dump_beside_inserts:
  assumes "store_ok rnd s" "inserts_only W"
    and "(dump_race rnd W)\<^sup>*\<^sup>* ((D_first, []), s) ((pc, out), s')"
  shows "(\<exists>d. dump_step (mem s') (head s') (pc, out) = Ok d) \<and>
    (pc = D_done \<longrightarrow> set (items s) \<subseteq> set out \<and> set out \<subseteq> set (items s') \<and> sorted_wrt (<) (map fst out))"
proof -
  have ok: "dump_ok rnd (set (items s)) ((pc, out), s')"
    by (rule dump_ok_run[OF assms(3,2) dump_ok_start[OF assms(1)]])
  then obtain xs where "nodes_inv s' xs" "dump_at (set (items s)) s' xs (pc, out)"
    "set out \<subseteq> item_at (mem s') ` set xs" "sorted_wrt (<) (map fst out)" by (auto simp: dump_ok_def)
  with dump_step_ok[OF ok] show ?thesis by (auto simp: items_inv)
qed

theorem dump_beside_inserts_witness:
  "\<exists>s out. items s = [(7, ''x'')] \<and>
    (dump_race (\<lambda>_. 0) {Put 6 ''y''})\<^sup>*\<^sup>* ((D_first, []), s) ((D_done, out), s) \<and> (7, ''x'') \<in> set out"
proof -
  obtain s where s: "store_ok (\<lambda>_. 0) s" "items s = [(7, ''x'')]" using one_key_store by blast
  then obtain xs where "nodes_inv s xs" by (auto simp: store_ok_def wf_skiplist_def)
  note run = dump_whole[OF this, of "\<lambda>_. 0" "{Put 6 ''y''}"]
  from dump_beside_inserts[OF s(1) _ run] have "set (items s) \<subseteq> set (items s)" by (simp add: inserts_only_def)
  with run s(2) show ?thesis by (intro exI[of _ s] exI[of _ "items s"]) simp
qed

subsection \<open>It is no snapshot\<close>

lemma at_first_node:
  assumes "nodes_inv s (a # as)"
  shows "(dump_race rnd W)\<^sup>*\<^sup>* ((D_first, []), s) ((D_next a, [item_at (mem s) a]), s)"
proof -
  have "fwd (mem s) 0 (head s) = Some (Some a)" using nodes_inv_path0[OF assms] by auto
  then have 1: "dump_step (mem s) (head s) (D_first, []) = Ok (D_node (Some a), [])" by simp
  have 2: "dump_step (mem s) (head s) (D_node (Some a), []) = Ok (D_next a, [item_at (mem s) a])"
    using dump_step_node[OF assms, of a "[]"] by simp
  show ?thesis using dump_read_step[OF 1 dump_read_step[OF 2 rtranclp.rtrancl_refl]] .
qed

lemma after_node:
  assumes inv: "nodes_inv s (us @ a # vs)"
  shows "(dump_race rnd W)\<^sup>*\<^sup>* ((D_next a, out), s) ((D_done, out @ map (item_at (mem s)) vs), s)"
proof -
  have "path (mem s) 0 (Some (head s)) ((head s # us) @ a # vs) None" using nodes_inv_path0[OF inv] by simp
  then obtain r where r: "fwd (mem s) 0 a = Some r" "path (mem s) 0 r vs None"
    unfolding path_append by auto
  then have "dump_step (mem s) (head s) (D_next a, out) = Ok (D_node r, out)" by simp
  from dump_read_step[OF this dump_finishes[OF r(2)]] show ?thesis .
qed

lemma put_new:
  assumes "store_ok rnd s" "k \<notin> fst ` set (items s)"
  shows "\<exists>s'. insert_element rnd k v s = Ok (0, s') \<and> store_ok rnd s' \<and>
    set (items s') = insert (k, v) (set (items s))"
proof -
  have "rand_ends rnd (rand_pos s)" "wf_skiplist s" using assms(1) by (simp_all add: store_ok_def rand_fair_def)
  with insert_absent[OF this(2,1) assms(2)] obtain s' where s': "insert_element rnd k v s = Ok (0, s')"
    "wf_skiplist s'" "items s' = ins_sorted k v (items s)" by blast
  then have "store_ok rnd s'" using put_keys(1)[OF assms(1)] by blast
  moreover have "set (ins_sorted k v (items s)) =
      insert (k, v) (set (takeWhile (\<lambda>p. fst p < k) (items s) @ dropWhile (\<lambda>p. fst p < k) (items s)))"
    unfolding ins_sorted_def set_append list.set(2) by blast
  then have "set (items s') = insert (k, v) (set (items s))" by (simp only: takeWhile_dropWhile_id s'(3))
  ultimately show ?thesis using s'(1) by (intro exI[of _ s']) simp
qed

text \<open>
  A dump is no snapshot.  A client inserts a key below all others and then one above the first,
  and both insertions are answered; a dump that had already written the first node writes a file
  that has the second insertion and not the first.
\<close>
theorem dump_is_no_snapshot:
  assumes "store_ok rnd s" "items s = (k, v) # rest" "j < k" "k < m" "m \<notin> fst ` set (items s)"
  shows "\<exists>s1 s2 out. insert_element rnd j u s = Ok (0, s1) \<and> insert_element rnd m w s1 = Ok (0, s2) \<and>
    (dump_race rnd {Put j u, Put m w})\<^sup>*\<^sup>* ((D_first, []), s) ((D_done, out), s2) \<and>
    (m, w) \<in> set out \<and> j \<notin> fst ` set out"
proof -
  let ?R = "dump_race rnd {Put j u, Put m w}"
  obtain xs where inv: "nodes_inv s xs" using assms(1) by (auto simp: store_ok_def wf_skiplist_def)
  with assms(2) obtain a as where xs: "xs = a # as" "item_at (mem s) a = (k, v)"
    by (cases xs) (auto simp: items_inv[OF inv])
  have "map fst (items s) = map (key_at (mem s)) xs" by (simp add: items_inv[OF inv])
  then have "sorted_wrt (<) (map fst (items s))" using inv by (simp add: nodes_inv_def)
  then have "j \<notin> fst ` set (items s)" using assms(2,3) by force
  from put_new[OF assms(1) this] obtain s1 where s1: "insert_element rnd j u s = Ok (0, s1)" "store_ok rnd s1"
    "set (items s1) = insert (j, u) (set (items s))" by blast
  have "m \<notin> fst ` set (items s1)" using s1(3) assms(3,4,5) by auto
  from put_new[OF s1(2) this] obtain s2 where s2: "insert_element rnd m w s1 = Ok (0, s2)" "store_ok rnd s2"
    "set (items s2) = insert (m, w) (set (items s1))" by blast
  obtain ys where ys: "nodes_inv s1 ys" "set xs \<subseteq> set ys" "\<forall>x\<in>set xs. item_at (mem s1) x = item_at (mem s) x"
    using put_nodes[OF assms(1) s1(1) inv] by blast
  obtain zs where zs: "nodes_inv s2 zs" "set ys \<subseteq> set zs" "\<forall>x\<in>set ys. item_at (mem s2) x = item_at (mem s1) x"
    using put_nodes[OF s1(2) s2(1) ys(1)] by blast
  have a: "a \<in> set zs" "item_at (mem s2) a = (k, v)" using xs ys zs by auto
  then obtain us vs where split: "zs = us @ a # vs" by (meson split_list)
  have sorted: "sorted_wrt (<) (map (key_at (mem s2)) (us @ a # vs))" using zs(1) split by (simp add: nodes_inv_def)
  have key_a: "key_at (mem s2) a = k" using a(2) key_at_eq by blast
  let ?out = "[(k, v)] @ map (item_at (mem s2)) vs"
  have "(m, w) \<in> item_at (mem s2) ` set zs" using s2(3) items_inv[OF zs(1)] by auto
  then obtain x where x: "x \<in> set zs" "item_at (mem s2) x = (m, w)" by auto
  then have "key_at (mem s2) x = m" using key_at_eq by blast
  then have "x \<in> set vs" using x(1) split sorted key_a assms(4) by (auto simp: sorted_wrt_append)
  then have "(m, w) \<in> set ?out" using x(2) by force
  moreover have "\<forall>x\<in>set vs. k < key_at (mem s2) x" using sorted key_a by (auto simp: sorted_wrt_append)
  then have "j \<notin> fst ` set ?out" using assms(3) by (auto simp: image_image)
  moreover have "?R ((D_next a, [(k, v)]), s) ((D_next a, [(k, v)]), s1)"
    using s1(1) by (intro dump_write[of "Put j u"]) simp_all
  moreover have "?R ((D_next a, [(k, v)]), s1) ((D_next a, [(k, v)]), s2)"
    using s2(1) by (intro dump_write[of "Put m w"]) simp_all
  moreover have "?R\<^sup>*\<^sup>* ((D_next a, [(k, v)]), s2) ((D_done, ?out), s2)"
    using after_node[of s2 us a vs rnd] zs(1) split by blast
  moreover have "?R\<^sup>*\<^sup>* ((D_first, []), s) ((D_next a, [(k, v)]), s)"
    using at_first_node[of s a as rnd] inv xs by simp
  ultimately show ?thesis using s1(1) s2(1)
    by (meson converse_rtranclp_into_rtranclp rtranclp_trans)
qed

theorem dump_is_no_snapshot_witness:
  "\<exists>s s2 out. items s = [(7, ''x'')] \<and>
    (dump_race (\<lambda>_. 0) {Put 1 ''u'', Put 9 ''w''})\<^sup>*\<^sup>* ((D_first, []), s) ((D_done, out), s2) \<and>
    (9, ''w'') \<in> set out \<and> 1 \<notin> fst ` set out"
proof -
  obtain s where s: "store_ok (\<lambda>_. 0) s" "items s = [(7, ''x'')]" using one_key_store by blast
  with dump_is_no_snapshot[OF s(1), of 7 "''x''" "[]" 1 9 "''u''" "''w''"] show ?thesis by auto
qed

subsection \<open>Deletions beside a dump\<close>

text \<open>
  A deletion beside a dump makes it read a freed node: the dump has written the first pair, the
  node is deleted, and the dump asks it for its successor.
\<close>
theorem dump_beside_delete_faults:
  assumes "wf_skiplist s" "items s = (k, v) # rest"
  shows "\<exists>d s'. (dump_race rnd {Remove k})\<^sup>*\<^sup>* ((D_first, []), s) (d, s') \<and> wf_skiplist s' \<and>
    snd d = [(k, v)] \<and> dump_step (mem s') (head s') d = Fault Bad_pointer"
proof -
  obtain xs where inv: "nodes_inv s xs" using assms(1) by (auto simp: wf_skiplist_def)
  with assms(2) obtain a as where xs: "xs = a # as" "item_at (mem s) a = (k, v)"
    by (cases xs) (auto simp: items_inv[OF inv])
  obtain s' where s': "delete_element k s = Ok s'" "wf_skiplist s'" "mem s' a = None"
    using delete_first[OF inv xs(1)] xs(2) key_at_eq by blast
  let ?d = "(D_next a, [(k, v)])"
  have "dump_race rnd {Remove k} (?d, s) (?d, s')" using s'(1) by (intro dump_write[of "Remove k"]) simp_all
  moreover have "(dump_race rnd {Remove k})\<^sup>*\<^sup>* ((D_first, []), s) (?d, s)"
    using at_first_node[of s a as rnd] inv xs by simp
  moreover have "dump_step (mem s') (head s') ?d = Fault Bad_pointer"
    using s'(3) by (simp add: get_forward_def deref_def)
  ultimately show ?thesis using s'(2)
    by (intro exI[of _ ?d] exI[of _ s']) (auto intro: rtranclp.rtrancl_into_rtrancl)
qed

theorem dump_beside_delete_faults_witness:
  "\<exists>s d s'. items s = [(7, ''x'')] \<and> (dump_race (\<lambda>_. 0) {Remove 7})\<^sup>*\<^sup>* ((D_first, []), s) (d, s') \<and>
    dump_step (mem s') (head s') d = Fault Bad_pointer"
proof -
  obtain s where s: "store_ok (\<lambda>_. 0) s" "items s = [(7, ''x'')]" using one_key_store by blast
  with dump_beside_delete_faults[OF _ s(2), of "\<lambda>_. 0"] show ?thesis by (auto simp: store_ok_def)
qed

end
