(* ===== verification/HandlerThreads.thy ===== *)
theory HandlerThreads
  imports Traces RedisService DumpRace
begin

section \<open>Commands of several clients at once (server/redis_handler.cpp)\<close>

text \<open>
  Every client has its own thread, and all of them call \<^verbatim>\<open>RedisHandler::handleCommand\<close> on one
  handler.  Nothing holds a mutex for the length of a command: the total is counted under
  \<^verbatim>\<open>stats_mutex_\<close>, the list is changed under its own mutex, the counter of the command is
  taken under \<^verbatim>\<open>stats_mutex_\<close> again, the line is appended under \<^verbatim>\<open>aof_mutex_\<close>, and it is
  handed to the replication manager, which locks for itself.  A step of the model is what one
  mutex makes atomic; \<^verbatim>\<open>search_element\<close> locks nothing and is the machine of SkipListRace, one
  read of memory per step, and \<^verbatim>\<open>dump_file\<close> locks nothing and is the machine of DumpRace.
  \<^verbatim>\<open>load_file\<close> takes the mutex of the list anew for every line, so a LOAD is one step per line.  The
  persistence thread saves beside the clients.
\<close>

subsection \<open>Where a client's thread stands\<close>

datatype after_count =
    Then_reply string              \<comment> \<open>return the reply\<close>
  | Then_log string string         \<comment> \<open>append and replicate the line, then return the reply\<close>
  | Then_info                      \<comment> \<open>write the report of INFO\<close>

datatype client_pc =
    At_idle
  | At_entry string                             \<comment> \<open>\<^verbatim>\<open>handleCommand\<close> is called with the bytes\<close>
  | At_dispatch string "string list"            \<comment> \<open>the total is counted\<close>
  | At_search string string int search_pc       \<comment> \<open>inside \<^verbatim>\<open>search_element\<close>\<close>
  | At_count string after_count                 \<comment> \<open>in front of the counter of the command\<close>
  | At_info
  | At_save bool dump_state                     \<comment> \<open>inside \<^verbatim>\<open>dump_file\<close>, for a client or for the persistence thread\<close>
  | At_saved bool                               \<comment> \<open>in front of the message of \<^verbatim>\<open>saveData\<close>\<close>
  | At_persisted                                \<comment> \<open>in front of the message of \<^verbatim>\<open>persistenceLoop\<close>\<close>
  | At_load "string list" "string \<times> string"     \<comment> \<open>inside \<^verbatim>\<open>load_file\<close>, with the lines ahead\<close>
  | At_loaded                                   \<comment> \<open>in front of the message of \<^verbatim>\<open>loadData\<close>\<close>
  | At_append string string
  | At_replicate string string
  | At_answer string

definition count_command :: "string \<Rightarrow> cmd_stats \<Rightarrow> cmd_stats" where
  "count_command c s =
     (if c = ''SET'' then s\<lparr>set_commands := set_commands s + 1\<rparr>
      else if c = ''GET'' then s\<lparr>get_commands := get_commands s + 1\<rparr>
      else if c = ''DEL'' then s\<lparr>del_commands := del_commands s + 1\<rparr>
      else if c = ''EXISTS'' then s\<lparr>exists_commands := exists_commands s + 1\<rparr>
      else if c = ''FLUSH'' then s\<lparr>flush_commands := flush_commands s + 1\<rparr>
      else if c = ''SAVE'' then s\<lparr>save_commands := save_commands s + 1\<rparr>
      else if c = ''LOAD'' then s\<lparr>load_commands := load_commands s + 1\<rparr>
      else if c = ''INFO'' then s\<lparr>info_commands := info_commands s + 1\<rparr>
      else s)"

definition OK_reply :: string where
  "OK_reply = createSimpleString ''OK''"

definition lookup_reply :: "string \<Rightarrow> string \<Rightarrow> bool \<Rightarrow> string" where
  "lookup_reply c a found =
     (if c = ''GET'' then (if found then createBulkString (''value_for_key_'' @ a) else createNullBulkString)
      else createInteger (if found then 1 else 0))"

subsection \<open>The steps of a thread\<close>

definition set_step :: "henv \<Rightarrow> string list \<Rightarrow> client_pc handler_op" where
  "set_step env args h =
     (if length args < 2 then Ok (At_answer (wrong_args ''set''), h)
      else case stringToInt (args ! 0) of
        None \<Rightarrow> Ok (At_answer (err ''key must be an integer''), h)
      | Some key \<Rightarrow>
          obind (on_store (insert_element (env_rand env) key (args ! 1)) h) (\<lambda>(result, h1).
            Ok (At_count ''SET''
                  (if result = 0 then Then_log (''SET '' @ args ! 0 @ '' '' @ args ! 1) OK_reply
                   else Then_reply (err ''failed to set key'')), h1)))"

definition lookup_step :: "string \<Rightarrow> string \<Rightarrow> string list \<Rightarrow> client_pc handler_op" where
  "lookup_step c name args h =
     (if length args \<noteq> 1 then Ok (At_answer (wrong_args name), h)
      else case stringToInt (args ! 0) of
        None \<Rightarrow> Ok (At_answer (err ''key must be an integer''), h)
      | Some key \<Rightarrow> (case store h of
            None \<Rightarrow> Fault Bad_pointer
          | Some s \<Rightarrow> Ok (At_search c (args ! 0) key (search_start s), h)))"

definition del_step :: "string list \<Rightarrow> client_pc handler_op" where
  "del_step args h =
     (if length args \<noteq> 1 then Ok (At_answer (wrong_args ''del''), h)
      else case stringToInt (args ! 0) of
        None \<Rightarrow> Ok (At_answer (err ''key must be an integer''), h)
      | Some key \<Rightarrow>
          obind (on_store (\<lambda>s. obind (delete_element key s) (\<lambda>s'. Ok ((), s'))) h) (\<lambda>(u, h1).
            Ok (At_count ''DEL'' (Then_log (''DEL '' @ args ! 0) (createInteger 1)), h1)))"

text \<open>SAVE.  The text is written when the file is closed.\<close>

definition save_open :: "client_pc handler_op" where
  "save_open h =
     (if store h = None then Ok (At_count ''SAVE'' (Then_reply OK_reply), h)
      else Ok (At_save True (D_first, []), h))"

definition dump_written :: "(int \<times> string) list \<Rightarrow> store_file \<Rightarrow> store_file" where
  "dump_written kvs d =
     (if writable d then d\<lparr>content := Some (concat (map (\<lambda>kv. dump_line kv @ [LF]) kvs))\<rparr> else d)"

definition save_walk :: "bool \<Rightarrow> dump_state \<Rightarrow> client_pc handler_op" where
  "save_walk client d h =
     (case store h of
        None \<Rightarrow> Fault Bad_pointer
      | Some s \<Rightarrow>
          if fst d = D_done then Ok (At_saved client, h\<lparr>store_disk := dump_written (snd d) (store_disk h)\<rparr>)
          else (case dump_step (mem s) (head s) d of
              Ok d' \<Rightarrow> Ok (At_save client d', h) | Throw e \<Rightarrow> Throw (e, h) | Fault x \<Rightarrow> Fault x))"

text \<open>LOAD: the file is opened, then line after line is read and inserted, then it is closed.\<close>

definition load_open :: "client_pc handler_op" where
  "load_open h =
     (case store h of
        None \<Rightarrow> Ok (At_count ''LOAD'' (Then_reply OK_reply), h)
      | Some s \<Rightarrow>
          if reader_open s then Ok (At_loaded, h\<lparr>store := Some (s\<lparr>reader_open := False\<rparr>)\<rparr>)
          else (case content (store_disk h) of
              None \<Rightarrow> Ok (At_loaded, h)
            | Some t \<Rightarrow> Ok (At_load (getlines LF t) ('''', ''''), h\<lparr>store := Some (s\<lparr>reader_open := True\<rparr>)\<rparr>)))"

fun load_step :: "(nat \<Rightarrow> nat) \<Rightarrow> string list \<Rightarrow> string \<times> string \<Rightarrow> client_pc handler_op" where
  "load_step rnd [] kv h =
     obind (on_store (\<lambda>s. Ok ((), s\<lparr>reader_open := False\<rparr>)) h) (\<lambda>(u, h1). Ok (At_loaded, h1))"
| "load_step rnd (line # lines) kv h =
     (let kv' = get_key_value_from_string line kv
      in if fst kv' = [] \<or> snd kv' = [] then Ok (At_load lines kv', h)
         else case stoi (fst kv') of
                Throw e \<Rightarrow> Throw (e, h)
              | Fault d \<Rightarrow> Fault d
              | Ok k \<Rightarrow> obind (on_store (insert_element rnd k (snd kv')) h) (\<lambda>(r, h1). Ok (At_load lines kv', h1)))"

text \<open>The other commands touch one mutex at most and are one step.\<close>

definition dispatch_step :: "henv \<Rightarrow> string \<Rightarrow> string list \<Rightarrow> client_pc handler_op" where
  "dispatch_step env c args h =
     (let whole = obind (find_handler c h env args h) (\<lambda>(r, h1). Ok (At_answer r, h1)) in
      if \<not> registered h then whole
      else if c = ''SET'' then set_step env args h
      else if c = ''GET'' then lookup_step c ''get'' args h
      else if c = ''EXISTS'' then lookup_step c ''exists'' args h
      else if c = ''DEL'' then del_step args h
      else if c = ''FLUSH'' then Ok (At_count c (Then_log ''FLUSH'' OK_reply), h)
      else if c = ''SAVE'' then save_open h
      else if c = ''LOAD'' then load_open h
      else if c = ''INFO'' then Ok (At_count c Then_info, h)
      else whole)"

definition search_move :: "string \<Rightarrow> string \<Rightarrow> int \<Rightarrow> search_pc \<Rightarrow> client_pc handler_op" where
  "search_move c a key p h =
     (case store h of
        None \<Rightarrow> Fault Bad_pointer
      | Some s \<Rightarrow> (case search_step key (mem s) p of
            Ok (P_done found) \<Rightarrow> Ok (At_count c (Then_reply (lookup_reply c a found)), h)
          | Ok p' \<Rightarrow> Ok (At_search c a key p', h)
          | Throw e \<Rightarrow> Throw (e, h)
          | Fault d \<Rightarrow> Fault d))"

text \<open>The catch clauses of \<^verbatim>\<open>handleCommand\<close> and of \<^verbatim>\<open>persistenceLoop\<close>.\<close>

definition internal_error :: "henv \<Rightarrow> exn \<times> handler \<Rightarrow> (exn \<times> handler, string \<times> handler) outcome" where
  "internal_error env eh = (case eh of (e, h) \<Rightarrow>
     obind (log_at env LOG_ERROR (''Error handling command: '' @ what e) h) (\<lambda>(u, h1).
       Ok (err ''internal error'', h1)))"

definition caught :: "henv \<Rightarrow> (exn \<times> handler, client_pc \<times> handler) outcome \<Rightarrow>
    (exn \<times> handler, client_pc \<times> handler) outcome" where
  "caught env m = ocatch m (\<lambda>eh. obind (internal_error env eh) (\<lambda>(r, h1). Ok (At_answer r, h1)))"

definition persist_caught :: "henv \<Rightarrow> (exn \<times> handler, client_pc \<times> handler) outcome \<Rightarrow>
    (exn \<times> handler, client_pc \<times> handler) outcome" where
  "persist_caught env m = ocatch m (\<lambda>(e, h).
     obind (log_at env LOG_ERROR (''Error during persistence: '' @ what e) h) (\<lambda>(u, h1). Ok (At_idle, h1)))"

lemma caught_simps [simp]:
  "caught env (Ok x) = Ok x" "persist_caught env (Ok x) = Ok x"
  "caught env (Throw eh) = obind (internal_error env eh) (\<lambda>(r, h1). Ok (At_answer r, h1))"
  "caught env (Fault d) = Fault d" "persist_caught env (Fault d) = Fault d"
  by (simp_all add: caught_def persist_caught_def)

fun command_step :: "henv \<Rightarrow> client_pc \<Rightarrow> client_pc handler_op" where
  "command_step env At_idle h = Ok (At_idle, h)"
| "command_step env (At_entry request) h =
     (let cmd = parseCommand request in
      if command cmd = '''' then Ok (At_answer (err ''unknown command''), h)
      else Ok (At_dispatch (command cmd) (arguments cmd),
               with_stats (\<lambda>s. s\<lparr>total_commands := total_commands s + 1\<rparr>) h))"
| "command_step env (At_dispatch c args) h = caught env (dispatch_step env c args h)"
| "command_step env (At_search c a key p) h = search_move c a key p h"
| "command_step env (At_count c k) h =
     (let h1 = with_stats (count_command c) h in
      Ok (case k of Then_reply r \<Rightarrow> At_answer r | Then_log l r \<Rightarrow> At_append l r | Then_info \<Rightarrow> At_info, h1))"
| "command_step env At_info h = Ok (At_answer (createBulkString (getServerInfo env h)), h)"
| "command_step env (At_save client d) h =
     (if client then caught env (save_walk True d h) else persist_caught env (save_walk False d h))"
| "command_step env (At_saved client) h =
     (let m = log_at env INFO ''Data saved to file'' h in
      if client then caught env (obind m (\<lambda>(u, h1). Ok (At_count ''SAVE'' (Then_reply OK_reply), h1)))
      else persist_caught env (obind m (\<lambda>(u, h1). Ok (At_persisted, h1))))"
| "command_step env At_persisted h =
     persist_caught env (obind (log_at env DEBUG ''Data persisted successfully'' h) (\<lambda>(u, h1). Ok (At_idle, h1)))"
| "command_step env (At_load lines kv) h = caught env (load_step (env_rand env) lines kv h)"
| "command_step env At_loaded h =
     caught env (obind (log_at env INFO ''Data loaded from file'' h) (\<lambda>(u, h1).
       Ok (At_count ''LOAD'' (Then_reply OK_reply), h1)))"
| "command_step env (At_append l r) h = Ok (At_replicate l r, appendAOF env l h)"
| "command_step env (At_replicate l r) h = Ok (At_answer r, replicate env l h)"
| "command_step env (At_answer r) h = Ok (At_answer r, h)"

text \<open>
  The clients together.  A client sends a request out of Q when its last one was answered; the
  clocks and what the logger meets may differ at every step, the numbers of rand() are one stream.
  Any idle thread can be the persistence thread and begin to save.  What the dump file holds may
  change at any time: its text arrives there in pieces, and dumps at once cut each other's text
  (TwoSaves).  So may the lines that are still ahead of a LOAD, since the file is rewritten under it
  and loads at once share \<^verbatim>\<open>file_reader_\<close>: every sequence of lines is possible.
\<close>

datatype client_event = Called nat string | Returned nat string

type_synonym clients = "handler \<times> (nat \<Rightarrow> client_pc)"

inductive clients_step :: "(nat \<Rightarrow> nat) \<Rightarrow> string set \<Rightarrow> clients \<Rightarrow> client_event option \<Rightarrow> clients \<Rightarrow> bool"
  for rnd Q where
  call: "cs i = At_idle \<Longrightarrow> request \<in> Q \<Longrightarrow>
    clients_step rnd Q (h, cs) (Some (Called i request)) (h, cs(i := At_entry request))"
| move: "env_rand env = rnd \<Longrightarrow> command_step env (cs i) h = Ok (pc, h') \<Longrightarrow>
    clients_step rnd Q (h, cs) None (h', cs(i := pc))"
| answer: "cs i = At_answer r \<Longrightarrow>
    clients_step rnd Q (h, cs) (Some (Returned i r)) (h, cs(i := At_idle))"
| begin_save: "cs i = At_idle \<Longrightarrow> store h \<noteq> None \<Longrightarrow>
    clients_step rnd Q (h, cs) None (h, cs(i := At_save False (D_first, [])))"
| disk_change: "clients_step rnd Q (h, cs) None (h\<lparr>store_disk := (store_disk h)\<lparr>content := t\<rparr>\<rparr>, cs)"
| lines_change: "cs i = At_load ls kv \<Longrightarrow> clients_step rnd Q (h, cs) None (h, cs(i := At_load ls' kv))"

inductive_cases clients_stepE: "clients_step rnd Q c e c'"

subsection \<open>Alone, the steps are handleCommand\<close>

inductive alone :: "henv \<Rightarrow> client_pc \<times> handler \<Rightarrow> client_pc \<times> handler \<Rightarrow> bool" for env where
  "command_step env pc h = Ok (pc', h') \<Longrightarrow> (\<forall>r. pc \<noteq> At_answer r) \<Longrightarrow> alone env (pc, h) (pc', h')"

lemma alone_step:
  "command_step env pc h = Ok (pc', h') \<Longrightarrow> (\<forall>r. pc \<noteq> At_answer r) \<Longrightarrow> (alone env)\<^sup>*\<^sup>* (pc', h') t \<Longrightarrow>
    (alone env)\<^sup>*\<^sup>* (pc, h) t"
  by (meson alone.intros converse_rtranclp_into_rtranclp)

lemma alone_answer: "(alone env)\<^sup>*\<^sup>* (At_answer r, h) t \<Longrightarrow> t = (At_answer r, h)"
  by (erule converse_rtranclpE) (auto elim: alone.cases)

lemma alone_det: "alone env x y \<Longrightarrow> alone env x z \<Longrightarrow> y = z"
  by (auto elim!: alone.cases)

lemma alone_reply:
  "(alone env)\<^sup>*\<^sup>* (At_count c (Then_reply r), h) (At_answer r, with_stats (count_command c) h)"
  by (rule alone_step) (auto simp: Let_def)

lemma alone_log:
  "(alone env)\<^sup>*\<^sup>* (At_count c (Then_log l r), h)
     (At_answer r, replicate env l (appendAOF env l (with_stats (count_command c) h)))"
proof -
  let ?h = "with_stats (count_command c) h"
  have "(alone env)\<^sup>*\<^sup>* (At_replicate l r, appendAOF env l ?h) (At_answer r, replicate env l (appendAOF env l ?h))"
    by (rule alone_step) auto
  then have "(alone env)\<^sup>*\<^sup>* (At_append l r, ?h) (At_answer r, replicate env l (appendAOF env l ?h))"
    by - (rule alone_step[of env "At_append l r" ?h], auto)
  then show ?thesis by - (rule alone_step[of env "At_count c (Then_log l r)" h], auto simp: Let_def)
qed

lemma alone_search:
  assumes "store h = Some s" "search_element key s = Ok found"
  shows "(alone env)\<^sup>*\<^sup>* (At_search c a key (search_start s), h)
    (At_answer (lookup_reply c a found), with_stats (count_command c) h)"
proof -
  have "(race (\<lambda>_. 0) {} key)\<^sup>*\<^sup>* (search_start s, s) (P_done found, s)"
    by (rule search_machine_alone[OF assms(2)])
  moreover have "search_start s \<noteq> P_done b" for b by (simp add: search_start_def)
  moreover have "(\<forall>b. fst x \<noteq> P_done b) \<longrightarrow> snd x = s \<longrightarrow> (alone env)\<^sup>*\<^sup>* (At_search c a key (fst x), h)
      (At_answer (lookup_reply c a found), with_stats (count_command c) h)"
    if "(race (\<lambda>_. 0) {} key)\<^sup>*\<^sup>* x (P_done found, s)" for x
    using that
  proof (induction rule: converse_rtranclp_induct)
    case (step x y)
    show ?case
    proof (intro impI)
      assume x: "\<forall>b. fst x \<noteq> P_done b" "snd x = s"
      with step(1) obtain p' where p': "search_step key (mem s) (fst x) = Ok p'" "y = (p', s)"
        by (auto elim: race.cases)
      show "(alone env)\<^sup>*\<^sup>* (At_search c a key (fst x), h)
        (At_answer (lookup_reply c a found), with_stats (count_command c) h)"
      proof (cases "\<exists>b. p' = P_done b")
        case True
        then obtain b where b: "p' = P_done b" by blast
        with step(2) p'(2) have "b = found" using race_done by blast
        with b p'(1) assms(1) show ?thesis
          by - (rule alone_step[OF _ _ alone_reply], auto simp: search_move_def)
      next
        case False
        then have "search_move c a key (fst x) h = Ok (At_search c a key p', h)"
          using p'(1) assms(1) by (auto simp: search_move_def split: search_pc.split)
        with step.IH False p'(2) show ?thesis
          by - (rule alone_step[of env "At_search c a key (fst x)" h], auto)
      qed
    qed
  qed auto
  ultimately show ?thesis by fastforce
qed

text \<open>What a handler of the table returns, the thread comes to; what it throws, the step throws.\<close>

definition reaches :: "henv \<Rightarrow> client_pc \<times> handler \<Rightarrow> string \<times> handler \<Rightarrow> bool" where
  "reaches env x rh \<longleftrightarrow> (alone env)\<^sup>*\<^sup>* x (At_answer (fst rh), snd rh)"

definition step_reaches :: "henv \<Rightarrow> (exn \<times> handler, client_pc \<times> handler) outcome \<Rightarrow>
    (exn \<times> handler, string \<times> handler) outcome \<Rightarrow> bool" where
  "step_reaches env m r \<longleftrightarrow> (case r of
       Ok rh \<Rightarrow> (\<exists>x. m = Ok x \<and> reaches env x rh)
     | Throw e \<Rightarrow> m = Throw e \<or> (\<exists>x. m = Ok x \<and> (\<forall>rh. internal_error env e = Ok rh \<longrightarrow> reaches env x rh))
     | Fault d \<Rightarrow> m = Fault d)"

lemma step_reaches_answer [simp]: "step_reaches env (Ok (At_answer r, h)) (Ok (r, h))"
  by (simp add: step_reaches_def reaches_def)

lemma step_reaches_bind:
  "(\<And>a h1. m = Ok (a, h1) \<Longrightarrow> step_reaches env (f (a, h1)) (g (a, h1))) \<Longrightarrow>
     step_reaches env (obind m f) (obind m g)"
  by (cases m) (auto simp: step_reaches_def)

lemma step_reaches_log:
  "h' = replicate env l (appendAOF env l (with_stats (count_command c) h)) \<Longrightarrow>
     step_reaches env (Ok (At_count c (Then_log l r), h)) (Ok (r, h'))"
  using alone_log by (simp add: step_reaches_def reaches_def)

lemma step_reaches_reply:
  "h' = with_stats (count_command c) h \<Longrightarrow>
     step_reaches env (Ok (At_count c (Then_reply r), h)) (Ok (r, h'))"
  using alone_reply by (simp add: step_reaches_def reaches_def)

lemma step_reaches_whole:
  "step_reaches env (obind m (\<lambda>(r, h1). Ok (At_answer r, h1))) m"
  by (cases m) (auto simp: step_reaches_def reaches_def)

lemma count_command_names [simp]:
  "count_command ''SET'' = (\<lambda>s. s\<lparr>set_commands := set_commands s + 1\<rparr>)"
  "count_command ''GET'' = (\<lambda>s. s\<lparr>get_commands := get_commands s + 1\<rparr>)"
  "count_command ''DEL'' = (\<lambda>s. s\<lparr>del_commands := del_commands s + 1\<rparr>)"
  "count_command ''EXISTS'' = (\<lambda>s. s\<lparr>exists_commands := exists_commands s + 1\<rparr>)"
  "count_command ''FLUSH'' = (\<lambda>s. s\<lparr>flush_commands := flush_commands s + 1\<rparr>)"
  "count_command ''SAVE'' = (\<lambda>s. s\<lparr>save_commands := save_commands s + 1\<rparr>)"
  "count_command ''LOAD'' = (\<lambda>s. s\<lparr>load_commands := load_commands s + 1\<rparr>)"
  "count_command ''INFO'' = (\<lambda>s. s\<lparr>info_commands := info_commands s + 1\<rparr>)"
  by (simp_all add: fun_eq_iff count_command_def)

lemma set_step_reaches: "step_reaches env (set_step env args h) (handleSet env args h)"
  unfolding set_step_def handleSet_def
  by (auto simp: OK_reply_def Let_def with_stats_def split: option.split
      intro!: step_reaches_bind step_reaches_log step_reaches_reply)

lemma del_step_reaches: "step_reaches env (del_step args h) (handleDel env args h)"
  unfolding del_step_def handleDel_def
  by (auto simp: Let_def split: option.split
      intro!: step_reaches_bind step_reaches_log step_reaches_reply)

lemma lookup_reaches:
  assumes "handler_ok env h" "stringToInt (args ! 0) = Some key" "length args = 1"
  shows "step_reaches env (lookup_step c name args h)
    (Ok (lookup_reply c (args ! 0) (contents h key \<noteq> None), with_stats (count_command c) h))"
proof -
  from assms(1) obtain s where s: "store h = Some s" "store_ok (env_rand env) s" by (auto simp: handler_ok_def)
  then have "search_element key s = Ok (contents h key \<noteq> None)"
    using sl.srch_law[OF s(2)] by (simp add: contents_def)
  from alone_search[OF s(1) this, of env c "args ! 0"] show ?thesis
    using assms(2,3) s(1) by (simp add: lookup_step_def step_reaches_def reaches_def)
qed

lemma get_step_reaches:
  "handler_ok env h \<Longrightarrow> step_reaches env (lookup_step ''GET'' ''get'' args h) (handleGet env args h)"
  using lookup_reaches[of env h args _ "''GET''" "''get''"]
  by (auto simp: handleGet_def lookup_step_def store_search lookup_reply_def Let_def
      split: option.split)

lemma exists_step_reaches:
  "handler_ok env h \<Longrightarrow> step_reaches env (lookup_step ''EXISTS'' ''exists'' args h) (handleExists env args h)"
  using lookup_reaches[of env h args _ "''EXISTS''" "''exists''"]
  by (auto simp: handleExists_def lookup_step_def store_search lookup_reply_def Let_def
      split: option.split)

lemma info_step_reaches:
  "step_reaches env (Ok (At_count ''INFO'' Then_info, h)) (handleInfo env args h)"
proof -
  let ?h = "with_stats (count_command ''INFO'') h"
  have "(alone env)\<^sup>*\<^sup>* (At_info, ?h) (At_answer (createBulkString (getServerInfo env ?h)), ?h)"
    by (rule alone_step) auto
  then have "(alone env)\<^sup>*\<^sup>* (At_count ''INFO'' Then_info, h) (At_answer (createBulkString (getServerInfo env ?h)), ?h)"
    by - (rule alone_step[of env "At_count ''INFO'' Then_info" h], auto simp: Let_def)
  moreover have "handleInfo env args h = Ok (createBulkString (getServerInfo env ?h), ?h)"
    by (simp add: handleInfo_def Let_def)
  ultimately show ?thesis by (simp add: step_reaches_def reaches_def)
qed

lemma table_handlers:
  assumes "registered h"
  shows "find_handler ''SET'' h = handleSet" "find_handler ''GET'' h = handleGet"
    "find_handler ''DEL'' h = handleDel" "find_handler ''EXISTS'' h = handleExists"
    "find_handler ''FLUSH'' h = handleFlush" "find_handler ''SAVE'' h = handleSave"
    "find_handler ''LOAD'' h = handleLoad" "find_handler ''INFO'' h = handleInfo"
  using assms by (simp_all add: find_handler_def command_table_def)

lemma step_reaches_OkE:
  assumes "step_reaches env m (Ok (r, h))"
  obtains pc h1 where "m = Ok (pc, h1)" "(alone env)\<^sup>*\<^sup>* (pc, h1) (At_answer r, h)"
  using assms by (auto simp: step_reaches_def reaches_def)

lemma step_reaches_if:
  "(P \<Longrightarrow> step_reaches env m r) \<Longrightarrow> (\<not> P \<Longrightarrow> step_reaches env m' r) \<Longrightarrow> step_reaches env (if P then m else m') r"
  by simp

text \<open>SAVE and LOAD.\<close>

lemma save_walk_alone:
  assumes "store h = Some s" "(dump_race rnd {})\<^sup>*\<^sup>* (d, s) ((D_done, kvs), s)"
  shows "(alone env)\<^sup>*\<^sup>* (At_save True d, h) (At_saved True, h\<lparr>store_disk := dump_written kvs (store_disk h)\<rparr>)"
proof -
  have "snd x = s \<longrightarrow> (alone env)\<^sup>*\<^sup>* (At_save True (fst x), h)
      (At_saved True, h\<lparr>store_disk := dump_written kvs (store_disk h)\<rparr>)"
    if "(dump_race rnd {})\<^sup>*\<^sup>* x ((D_done, kvs), s)" for x
    using that
  proof (induction rule: converse_rtranclp_induct)
    case base
    show ?case using assms(1) by - (rule impI, rule alone_step, auto simp: save_walk_def)
  next
    case (step x y)
    show ?case
    proof
      assume x: "snd x = s"
      with step(1) obtain d' where d': "dump_step (mem s) (head s) (fst x) = Ok d'" "y = (d', s)"
        by (auto elim: dump_race.cases)
      show "(alone env)\<^sup>*\<^sup>* (At_save True (fst x), h)
          (At_saved True, h\<lparr>store_disk := dump_written kvs (store_disk h)\<rparr>)"
      proof (cases "fst (fst x) = D_done")
        case True
        then have "d' = fst x" using d'(1) by (cases "fst x") auto
        with step.IH d'(2) show ?thesis by simp
      next
        case False
        with step.IH d' assms(1) show ?thesis
          by - (rule alone_step[of env "At_save True (fst x)" h "At_save True d'" h], auto simp: save_walk_def)
      qed
    qed
  qed
  from this[OF assms(2)] show ?thesis by simp
qed

lemma save_reaches:
  assumes "handler_ok env h"
  shows "step_reaches env (save_open h) (handleSave env args h)"
proof -
  obtain s where s: "store h = Some s" "wf_skiplist s" using assms by (auto simp: handler_ok_def store_ok_def)
  then obtain xs where xs: "nodes_inv s xs" by (auto simp: wf_skiplist_def)
  let ?h = "h\<lparr>store_disk := dump_written (items s) (store_disk h)\<rparr>"
  have dump: "dump_file s (store_disk h) = Ok (store_disk ?h)"
    using wf_level_items[OF s(2)] by (simp add: dump_file_def dump_written_def)
  have "handler_ok env ?h" using assms by (rule handler_ok_frame) simp_all
  from log_at_Ok[OF this, of INFO "''Data saved to file''"] obtain h1 where
    h1: "log_at env INFO ''Data saved to file'' ?h = Ok ((), h1)" by blast
  have "(alone env)\<^sup>*\<^sup>* (At_saved True, ?h) (At_answer OK_reply, with_stats (count_command ''SAVE'') h1)"
    using h1 by - (rule alone_step[OF _ _ alone_reply], auto)
  with save_walk_alone[OF s(1) dump_whole[OF xs], of env]
  have "(alone env)\<^sup>*\<^sup>* (At_save True (D_first, []), h) (At_answer OK_reply, with_stats (count_command ''SAVE'') h1)"
    by (rule rtranclp_trans)
  then show ?thesis
    using s(1) dump h1 by (simp add: save_open_def handleSave_def saveData_def step_reaches_def reaches_def OK_reply_def)
qed

text \<open>Where a thread in \<^verbatim>\<open>load_file\<close> comes to, by what the loop of \<^verbatim>\<open>load_file\<close> returns.\<close>

definition loads_to :: "henv \<Rightarrow> client_pc \<times> handler \<Rightarrow> handler \<Rightarrow> (exn \<times> skiplist, skiplist) outcome \<Rightarrow> bool" where
  "loads_to env x h res \<longleftrightarrow> (case res of
       Ok s \<Rightarrow> (alone env)\<^sup>*\<^sup>* x (At_loaded, h\<lparr>store := Some (s\<lparr>reader_open := False\<rparr>)\<rparr>)
     | Throw (e, s) \<Rightarrow> (\<forall>rh. internal_error env (e, h\<lparr>store := Some s\<rparr>) = Ok rh \<longrightarrow> reaches env x rh)
     | Fault d \<Rightarrow> True)"

lemma loads_to_store [simp]: "loads_to env x (h\<lparr>store := t\<rparr>) res = loads_to env x h res"
  by (simp add: loads_to_def split: outcome.split prod.split)

lemma loads_to_step:
  assumes "command_step env pc h = Ok (pc', h')" "\<forall>r. pc \<noteq> At_answer r" "loads_to env (pc', h') g res"
  shows "loads_to env (pc, h) g res"
  using assms(3) alone_step[OF assms(1,2)]
  by (simp add: loads_to_def reaches_def split: outcome.splits prod.splits)

lemma load_lines_alone:
  "store h = Some s \<Longrightarrow> loads_to env (At_load ls kv, h) h (load_lines (env_rand env) ls kv s)"
proof (induction ls arbitrary: kv s h)
  case Nil
  then have "(alone env)\<^sup>*\<^sup>* (At_load [] kv, h) (At_loaded, h\<lparr>store := Some (s\<lparr>reader_open := False\<rparr>)\<rparr>)"
    by - (rule alone_step, auto simp: on_store_def)
  then show ?case by (simp add: loads_to_def)
next
  case (Cons l ls)
  let ?kv = "get_key_value_from_string l kv"
  have stop: "loads_to env (At_load (l # ls) kv, h) h (Throw (e, s))"
    if "load_step (env_rand env) (l # ls) kv h = Throw (e, h)" for e
  proof -
    have "(alone env)\<^sup>*\<^sup>* (At_load (l # ls) kv, h) (At_answer (fst rh), snd rh)"
      if "internal_error env (e, h) = Ok rh" for rh
      using that \<open>load_step (env_rand env) (l # ls) kv h = Throw (e, h)\<close>
      by (cases rh) (rule alone_step[of env _ _ "At_answer (fst rh)" "snd rh"], simp_all del: load_step.simps)
    then show ?thesis using store_same[OF Cons.prems] by (fastforce simp: loads_to_def reaches_def)
  qed
  show ?case
  proof (cases "fst ?kv = [] \<or> snd ?kv = []")
    case True
    with Cons show ?thesis by - (rule loads_to_step[of env _ _ "At_load ls ?kv" h], auto simp: Let_def)
  next
    case False
    show ?thesis
    proof (cases "stoi (fst ?kv)")
      case (Ok k)
      show ?thesis
      proof (cases "insert_element (env_rand env) k (snd ?kv) s")
        case ins: (Ok rs)
        obtain r s1 where rs: "rs = (r, s1)" by (cases rs)
        have "loads_to env (At_load ls ?kv, h\<lparr>store := Some s1\<rparr>) h (load_lines (env_rand env) ls ?kv s1)"
          using Cons.IH[of "h\<lparr>store := Some s1\<rparr>" s1 ?kv] by simp
        with False Ok ins rs Cons.prems show ?thesis
          by - (rule loads_to_step[of env _ _ "At_load ls ?kv" "h\<lparr>store := Some s1\<rparr>"], auto simp: Let_def on_store_def)
      qed (use stop False Ok Cons.prems in \<open>auto simp: Let_def on_store_def loads_to_def\<close>)
    qed (use stop False in \<open>auto simp: Let_def loads_to_def\<close>)
  qed
qed

lemma loaded_alone:
  assumes "log_at env INFO ''Data loaded from file'' h = Ok ((), h1)"
  shows "(alone env)\<^sup>*\<^sup>* (At_loaded, h) (At_answer OK_reply, with_stats (count_command ''LOAD'') h1)"
  using assms by - (rule alone_step[OF _ _ alone_reply], auto)

lemma load_reaches:
  assumes "handler_ok env h"
  shows "step_reaches env (load_open h) (handleLoad env args h)"
proof -
  obtain s where s: "store h = Some s" "store_ok (env_rand env) s" using assms by (auto simp: handler_ok_def)
  have ending: "step_reaches env (Ok x) (obind (log_at env INFO ''Data loaded from file'' h2) (\<lambda>(u, h3).
      Ok (OK_reply, with_stats (count_command ''LOAD'') h3)))"
    if x: "(alone env)\<^sup>*\<^sup>* x (At_loaded, h2)" and ok: "handler_ok env h2" for x h2
  proof -
    obtain h3 where h3: "log_at env INFO ''Data loaded from file'' h2 = Ok ((), h3)"
      using log_at_Ok[OF ok, of INFO "''Data loaded from file''"] by blast
    with rtranclp_trans[OF x loaded_alone[OF h3]] show ?thesis by (simp add: step_reaches_def reaches_def)
  qed
  have ok: "handler_ok env (h\<lparr>store := Some t\<rparr>)" if "store_ok (env_rand env) t" for t
    using assms that by (simp add: handler_ok_def)
  have hl: "handleLoad env args h = obind (loadData env h) (\<lambda>(u, h1). Ok (OK_reply, with_stats (count_command ''LOAD'') h1))"
    by (simp add: handleLoad_def OK_reply_def)
  show ?thesis
  proof (cases "reader_open s \<or> content (store_disk h) = None")
    case True
    with s(1) ending[OF rtranclp.rtrancl_refl ok[of "s\<lparr>reader_open := False\<rparr>"]]
      ending[OF rtranclp.rtrancl_refl ok[of s]] s(2)
    show ?thesis
      by (cases "reader_open s") (auto simp: hl load_open_def loadData_def load_file_def store_same)
  next
    case False
    then obtain t where t: "content (store_disk h) = Some t" "\<not> reader_open s" by auto
    let ?s = "s\<lparr>reader_open := True\<rparr>"
    let ?h = "h\<lparr>store := Some ?s\<rparr>" and ?res = "load_lines (env_rand env) (getlines LF t) ('''', '''') ?s"
    have start: "load_open h = Ok (At_load (getlines LF t) ('''', ''''), ?h)" using s(1) t by (simp add: load_open_def)
    have run: "loads_to env (At_load (getlines LF t) ('''', ''''), ?h) h ?res"
      using load_lines_alone[of ?h ?s] by simp
    show ?thesis
    proof (cases ?res)
      case (Ok s')
      then have "load_file (env_rand env) (store_disk h) s = Ok (s'\<lparr>reader_open := False\<rparr>)"
        using t by (simp add: load_file_def)
      moreover have "store_ok (env_rand env) s'"
        using load_lines_safe[of "env_rand env" ?s "getlines LF t" "('''', '''')"] Ok s(2) by auto
      ultimately show ?thesis
        using ending[OF _ ok[of "s'\<lparr>reader_open := False\<rparr>"]] run Ok s(1)
        by (simp add: start hl loadData_def loads_to_def)
    next
      case (Throw es)
      obtain e s' where es: "es = (e, s')" by (cases es)
      with Throw t have "load_file (env_rand env) (store_disk h) s = Throw (e, s')" by (simp add: load_file_def)
      with run Throw es s(1) show ?thesis
        by (simp add: start hl loadData_def loads_to_def step_reaches_def)
    next
      case (Fault d)
      then show ?thesis using load_lines_safe[of "env_rand env" ?s "getlines LF t" "('''', '''')"] s(2) by auto
    qed
  qed
qed

lemma dispatch_reaches:
  assumes "handler_ok env h"
  shows "step_reaches env (dispatch_step env c args h) (find_handler c h env args h)"
proof -
  have reg: "registered h" using assms by (simp add: handler_ok_def)
  note t = table_handlers[OF reg]
  have flush: "step_reaches env (Ok (At_count ''FLUSH'' (Then_log ''FLUSH'' OK_reply), h)) (handleFlush env args h)"
    by (auto simp: handleFlush_def Let_def OK_reply_def  intro!: step_reaches_log)
  show ?thesis
    unfolding dispatch_step_def Let_def
    by (intro step_reaches_if)
      (simp_all only: t set_step_reaches del_step_reaches get_step_reaches[OF assms] exists_step_reaches[OF assms]
        info_step_reaches flush save_reaches[OF assms] load_reaches[OF assms] step_reaches_whole)
qed

lemma command_steps_alone:
  assumes "handler_ok env h"
  shows "(alone env)\<^sup>*\<^sup>* (At_entry request, h) (At_answer r, h') \<longleftrightarrow> handleCommand env request h = Ok (r, h')"
proof -
  have run: "(alone env)\<^sup>*\<^sup>* (At_entry request, h) (At_answer r, h')" if cmd: "handleCommand env request h = Ok (r, h')" for r h'
  proof (cases "command (parseCommand request) = ''''")
    case True
    with cmd show ?thesis by - (rule alone_step[of env "At_entry request" h], auto simp: handleCommand_def)
  next
    case False
    let ?c = "command (parseCommand request)" and ?args = "arguments (parseCommand request)"
    let ?h = "with_stats (\<lambda>s. s\<lparr>total_commands := total_commands s + 1\<rparr>) h"
    have *: "step_reaches env (dispatch_step env ?c ?args ?h) (find_handler ?c ?h env ?args ?h)"
      by (rule dispatch_reaches[OF handler_ok_steps(3)[OF assms]])
    have "(alone env)\<^sup>*\<^sup>* (At_dispatch ?c ?args, ?h) (At_answer r, h')"
    proof (cases "find_handler ?c ?h env ?args ?h")
      case (Ok rh)
      then have "rh = (r, h')" using cmd False by (simp add: handleCommand_def Let_def)
      with * Ok have "step_reaches env (dispatch_step env ?c ?args ?h) (Ok (r, h'))" by metis
      then obtain pc h1 where "dispatch_step env ?c ?args ?h = Ok (pc, h1)"
        "(alone env)\<^sup>*\<^sup>* (pc, h1) (At_answer r, h')" by (rule step_reaches_OkE)
      then show ?thesis by - (rule alone_step[of env "At_dispatch ?c ?args" ?h], auto)
    next
      case (Throw eh)
      with cmd False have err: "internal_error env eh = Ok (r, h')"
        by (cases eh) (simp add: handleCommand_def internal_error_def Let_def)
      from * Throw have "dispatch_step env ?c ?args ?h = Throw eh \<or>
          (\<exists>x. dispatch_step env ?c ?args ?h = Ok x \<and> reaches env x (r, h'))"
        using err by (auto simp: step_reaches_def)
      then show ?thesis
      proof
        assume "dispatch_step env ?c ?args ?h = Throw eh"
        then have "command_step env (At_dispatch ?c ?args) ?h = Ok (At_answer r, h')" using err by simp
        then show ?thesis by - (rule alone_step, auto)
      next
        assume "\<exists>x. dispatch_step env ?c ?args ?h = Ok x \<and> reaches env x (r, h')"
        then obtain pc h1 where "dispatch_step env ?c ?args ?h = Ok (pc, h1)"
          "(alone env)\<^sup>*\<^sup>* (pc, h1) (At_answer r, h')" by (auto simp: reaches_def)
        then show ?thesis by - (rule alone_step[of env "At_dispatch ?c ?args" ?h], auto)
      qed
    next
      case (Fault d)
      then show ?thesis using cmd False by (simp add: handleCommand_def Let_def)
    qed
    with False show ?thesis by - (rule alone_step[of env "At_entry request" h], auto simp: Let_def)
  qed
  obtain r0 h0 where cmd: "handleCommand env request h = Ok (r0, h0)"
    using handleCommand_safe[OF assms] by blast
  show ?thesis
  proof
    assume "(alone env)\<^sup>*\<^sup>* (At_entry request, h) (At_answer r, h')"
    then have "(alone env)\<^sup>*\<^sup>* (At_answer r, h') (At_answer r0, h0) \<or>
        (alone env)\<^sup>*\<^sup>* (At_answer r0, h0) (At_answer r, h')"
      using run[OF cmd] deterministic_runs[of "alone env"] alone_det by blast
    then have "(At_answer r, h') = (At_answer r0, h0)" using alone_answer by metis
    with cmd show "handleCommand env request h = Ok (r, h')" by simp
  qed (rule run)
qed

text \<open>
  C19. A command that no other thread interferes with comes, step by step, to the reply and the state
  of \<^verbatim>\<open>handleCommand\<close>, and to no other.
\<close>
theorem command_steps_are_handleCommand:
  assumes "handler_ok env h"
  shows "(alone env)\<^sup>*\<^sup>* (At_entry request, h) (At_answer r, h') \<longleftrightarrow> handleCommand env request h = Ok (r, h')"
  by (rule command_steps_alone[OF assms])

theorem command_steps_are_handleCommand_witness:
  "\<exists>s r h'. SkipList_init 4 0 = Ok s \<and>
    (alone quiet_env)\<^sup>*\<^sup>* (At_entry ''hello'', with_list s) (At_answer r, h') \<and>
    handleCommand quiet_env ''hello'' (with_list s) = Ok (r, h')"
proof -
  obtain s where s: "SkipList_init 4 0 = Ok s" "store_ok (\<lambda>_. 0) s" by (rule empty_list_exists)
  note ok = handler_ok_with_list[OF s(2)]
  obtain r h' where "handleCommand quiet_env ''hello'' (with_list s) = Ok (r, h')"
    using handleCommand_safe[OF ok] by blast
  with s(1) show ?thesis using command_steps_are_handleCommand[OF ok] by blast
qed

end
