(* ===== verification/HandlerThreadsProps.thy ===== *)
theory HandlerThreadsProps
  imports HandlerThreads
begin

section \<open>What clients at once can rely on\<close>

subsection \<open>Lists that only grow\<close>

text \<open>
  What an insertion, and so a line of a LOAD, leaves to the threads beside it: the head node, the
  pairs that are in the list, and every cell a search or a dump stands at.
\<close>

definition grows :: "skiplist \<Rightarrow> skiplist \<Rightarrow> bool" where
  "grows s s' \<longleftrightarrow> head s' = head s \<and> contents_of s \<subseteq>\<^sub>m contents_of s' \<and>
     (\<forall>L. cells_ok L s \<longrightarrow> cells_ok L s' \<and> (\<forall>key pc. pc_ok key L s pc \<longrightarrow> pc_ok key L s' pc))"

lemma grows_refl [simp]: "grows s s"
  by (simp add: grows_def)

lemma grows_trans: "grows s t \<Longrightarrow> grows t u \<Longrightarrow> grows s u"
  by (auto simp: grows_def intro: map_le_trans)

lemma pc_ok_reader [simp]: "pc_ok key L (s\<lparr>reader_open := b\<rparr>) pc = pc_ok key L s pc"
  by (cases pc) auto

lemma grows_reader [simp]:
  "grows s (t\<lparr>reader_open := b\<rparr>) = grows s t" "grows (s\<lparr>reader_open := b\<rparr>) t = grows s t"
  by (simp_all add: grows_def cells_ok_def)

lemma put_grows:
  assumes "store_ok rnd s" "insert_element rnd k v s = Ok (r, s')"
  shows "grows s s'"
proof (cases "s' = s")
  case False
  with put_links[OF assms] have l: "links_to_new s s'" "next_addr s \<notin> dom (mem s)" "next_addr s \<noteq> head s"
    by auto
  obtain r1 s1 where "insert_element rnd k v s = Ok (r1, s1)" "contents_of s1 = map_op (Put k v) (contents_of s)"
    using sl.ins_total[OF assms(1)] by blast
  with assms(2) have "contents_of s \<subseteq>\<^sub>m contents_of s'" by (auto simp: map_le_def split: option.splits)
  moreover have "head s' = head s" using l(1) by (simp add: links_to_new_def)
  ultimately show ?thesis
    using links_cells_ok[OF l] links_pc_ok[OF l(1,2) put_keys(2)[OF assms]] by (simp add: grows_def)
qed simp

subsection \<open>What one step does to the handler\<close>

definition threads_ok :: "(nat \<Rightarrow> nat) \<Rightarrow> handler \<Rightarrow> bool" where
  "threads_ok rnd h \<longleftrightarrow>
     (\<exists>s. store h = Some s \<and> store_ok rnd s) \<and> registered h \<and> log_quiet (lgr h)"

lemma threads_handler_ok: "env_rand env = rnd \<Longrightarrow> handler_ok env h \<longleftrightarrow> threads_ok rnd h"
  by (simp add: handler_ok_def threads_ok_def)

definition list_of :: "handler \<Rightarrow> skiplist" where
  "list_of h = the (store h)"

lemma contents_list_of: "threads_ok rnd h \<Longrightarrow> contents h = contents_of (list_of h)"
  by (auto simp: threads_ok_def list_of_def contents_def)

lemma list_of_frame [simp]:
  "list_of (appendAOF env l h) = list_of h" "list_of (replicate env l h) = list_of h"
  "list_of (with_stats f h) = list_of h" "list_of (h\<lparr>lgr := x\<rparr>) = list_of h"
  "list_of (h\<lparr>store := Some s\<rparr>) = s" "contents (h\<lparr>store_disk := d\<rparr>) = contents h" "list_of (h\<lparr>store_disk := d\<rparr>) = list_of h"
  by (simp_all add: list_of_def contents_def)

text \<open>The commands of one step that are not counted: they leave the list alone and answer.\<close>

definition phased :: "string set" where
  "phased = {''SET'', ''GET'', ''EXISTS'', ''DEL'', ''FLUSH'', ''SAVE'', ''LOAD'', ''INFO''}"

lemma whole_command:
  assumes "c \<notin> phased"
  shows "\<exists>r h'. find_handler c h env args h = Ok (r, h') \<and> store h' = store h \<and> store_disk h' = store_disk h"
proof -
  have *: "\<exists>r h'. f env args h = Ok (r, h') \<and> store h' = store h \<and> store_disk h' = store_disk h"
    if "f \<in> {handlePing, handleEcho, handleKeys, handleConfig, handleSelect, handleAuth, handleQuit, handleUnknown}" for f
    using that
    by (auto simp: handlePing_def handleEcho_def handleKeys_def handleConfig_def handleSelect_def handleAuth_def
        handleQuit_def handleUnknown_def with_stats_def Let_def split: option.split)
  show ?thesis
  proof (cases "registered h \<and> map_of command_table c \<noteq> None")
    case True
    then obtain f where f: "map_of command_table c = Some f" "find_handler c h = f" by (auto simp: find_handler_def)
    then have "(c, f) \<in> set command_table" by (intro map_of_SomeD)
    then have "f \<in> {handlePing, handleEcho, handleKeys, handleConfig, handleSelect, handleAuth, handleQuit}"
      using assms by (auto simp: command_table_def phased_def)
    with *[of f] f(2) show ?thesis by blast
  next
    case False
    then have "find_handler c h = handleUnknown" by (auto simp: find_handler_def)
    with *[of handleUnknown] show ?thesis by simp
  qed
qed

lemma dispatch_whole:
  "c \<notin> phased \<Longrightarrow> dispatch_step env c args h = obind (find_handler c h env args h) (\<lambda>(r, h1). Ok (At_answer r, h1))"
  by (simp add: dispatch_step_def phased_def Let_def)

subsection \<open>The specification: commands that happen at one moment\<close>

text \<open>
  A request in terms of the map: SET and DEL are what they are on the map; a lookup answers as the
  map would or as an empty map would (it may miss a key that is there, it never reports one that
  is not); everything else leaves the map and answers something that is RESP.  LOAD is not one
  moment: between its call and its reply it inserts pairs, each at a moment of its own, and never
  overwrites a key.
\<close>

definition key_request :: "string \<Rightarrow> string list \<Rightarrow> store_req option" where
  "key_request c args =
     (if args = [] \<or> stringToInt (args ! 0) = None then None
      else if c = ''SET'' \<and> 2 \<le> length args then Some (Req_set (args ! 0) (args ! 1))
      else if c = ''GET'' \<and> length args = 1 then Some (Req_get (args ! 0))
      else if c = ''EXISTS'' \<and> length args = 1 then Some (Req_exists (args ! 0))
      else if c = ''DEL'' \<and> length args = 1 then Some (Req_del (args ! 0))
      else None)"

definition answer_of :: "string \<Rightarrow> string list \<Rightarrow> (int \<rightharpoonup> string) \<Rightarrow> string \<Rightarrow> (int \<rightharpoonup> string) \<Rightarrow> bool" where
  "answer_of c args m r m' \<longleftrightarrow>
     (case key_request c args of
        Some q \<Rightarrow>
          if c = ''SET'' \<or> c = ''DEL'' then (r, m') = req_spec q (key_of q) m
          else m' = m \<and> (r = fst (req_spec q (key_of q) m) \<or> r = fst (req_spec q (key_of q) Map.empty))
      | None \<Rightarrow> isValidRESP r \<and> m' = m)"

definition answers :: "string \<Rightarrow> (int \<rightharpoonup> string) \<Rightarrow> string \<Rightarrow> (int \<rightharpoonup> string) \<Rightarrow> bool" where
  "answers request = (let cmd = parseCommand request in answer_of (command cmd) (arguments cmd))"

datatype atomic_pc = A_idle | A_called string | A_done string

inductive atomic_step :: "(int \<rightharpoonup> string) \<times> (nat \<Rightarrow> atomic_pc) \<Rightarrow> client_event option \<Rightarrow>
    (int \<rightharpoonup> string) \<times> (nat \<Rightarrow> atomic_pc) \<Rightarrow> bool" where
  atomic_call: "as i = A_idle \<Longrightarrow> atomic_step (m, as) (Some (Called i q)) (m, as(i := A_called q))"
| atomic_act: "as i = A_called q \<Longrightarrow> answers q m r m' \<Longrightarrow> atomic_step (m, as) None (m', as(i := A_done r))"
| atomic_load: "as i = A_called q \<Longrightarrow> command (parseCommand q) = ''LOAD'' \<Longrightarrow>
    atomic_step (m, as) None (map_op (Put k v) m, as)"
| atomic_answer: "as i = A_done r \<Longrightarrow> atomic_step (m, as) (Some (Returned i r)) (m, as(i := A_idle))"

subsection \<open>Commands take effect when they are dispatched\<close>

text \<open>The reply of a command that has taken effect.\<close>

fun settled :: "client_pc \<Rightarrow> string option" where
  "settled (At_count c (Then_reply r)) = Some r"
| "settled (At_count c (Then_log l r)) = Some r"
| "settled (At_append l r) = Some r"
| "settled (At_replicate l r) = Some r"
| "settled (At_answer r) = Some r"
| "settled _ = None"

definition still_open :: "string \<Rightarrow> string list \<Rightarrow> handler \<Rightarrow> client_pc \<Rightarrow> bool" where
  "still_open c args h pc \<longleftrightarrow>
     (\<exists>a k. c \<in> {''GET'', ''EXISTS''} \<and> args = [a] \<and> stringToInt a = Some k \<and>
        pc = At_search c a k (search_start (list_of h))) \<or>
     c = ''INFO'' \<and> pc = At_count c Then_info \<or>
     c = ''SAVE'' \<and> pc = At_save True (D_first, []) \<or>
     c = ''LOAD'' \<and> (pc = At_loaded \<or> (\<exists>ls kv. pc = At_load ls kv))"

definition effect :: "(nat \<Rightarrow> nat) \<Rightarrow> string \<Rightarrow> string list \<Rightarrow> handler \<Rightarrow>
    (exn \<times> handler, client_pc \<times> handler) outcome \<Rightarrow> bool" where
  "effect rnd c args h x \<longleftrightarrow> (\<exists>pc h'. x = Ok (pc, h') \<and> threads_ok rnd h' \<and>
     head (list_of h') = head (list_of h) \<and> (c \<noteq> ''DEL'' \<longrightarrow> grows (list_of h) (list_of h')) \<and>
     ((\<exists>r. settled pc = Some r \<and> answer_of c args (contents h) r (contents h')) \<or>
      contents h' = contents h \<and> still_open c args h' pc))"

lemma key_of_Int: "stringToInt (req_key q) = Some k \<Longrightarrow> key_of q = k"
  by (cases "stoi (req_key q)") (auto simp: stringToInt_def key_of_def)

lemma effect_answer:
  assumes "threads_ok rnd h" "isValidRESP r" "key_request c args = None"
  shows "effect rnd c args h (Ok (At_answer r, h))"
  using assms by (simp add: effect_def answer_of_def)

lemma effect_set:
  assumes "threads_ok rnd h" "env_rand env = rnd"
  shows "effect rnd ''SET'' args h (set_step env args h)"
proof (cases "length args < 2 \<or> stringToInt (args ! 0) = None")
  case True
  then have "key_request ''SET'' args = None" by (auto simp: key_request_def)
  with assms True effect_answer show ?thesis by (auto simp: set_step_def)
next
  case False
  then obtain k where k: "stringToInt (args ! 0) = Some k" "\<not> length args < 2" by auto
  obtain s where s: "store h = Some s" "store_ok rnd s" using assms(1) by (auto simp: threads_ok_def)
  obtain r s' where ins: "insert_element rnd k (args ! 1) s = Ok (r, s')" "store_ok rnd s'"
    "contents_of s' = map_op (Put k (args ! 1)) (contents_of s)" "r = 0 \<longleftrightarrow> contents_of s k = None"
    using sl.ins_total[OF s(2)] by blast
  have "key_request ''SET'' args = Some (Req_set (args ! 0) (args ! 1))" using k by (auto simp: key_request_def)
  moreover have "key_of (Req_set (args ! 0) (args ! 1)) = k" using k(1) by (intro key_of_Int) simp
  moreover have "threads_ok rnd (h\<lparr>store := Some s'\<rparr>)" using assms(1) ins(2) by (simp add: threads_ok_def)
  moreover note g = put_grows[OF s(2) ins(1)]
  moreover have "head s' = head s" using g by (simp add: grows_def)
  ultimately show ?thesis
    using k ins assms(2) s(1) unfolding effect_def
    by (auto simp: set_step_def on_store_def list_of_def contents_def answer_of_def OK_reply_def)
qed

lemma effect_lookup:
  assumes "threads_ok rnd h" "c = ''GET'' \<or> c = ''EXISTS''"
  shows "effect rnd c args h (lookup_step c name args h)"
proof (cases "length args \<noteq> 1 \<or> stringToInt (args ! 0) = None")
  case True
  then have "key_request c args = None" using assms(2) by (auto simp: key_request_def)
  with assms True effect_answer show ?thesis by (auto simp: lookup_step_def)
next
  case False
  then obtain a k where k: "args = [a]" "stringToInt a = Some k"
    by (cases args) auto
  obtain s where s: "store h = Some s" using assms(1) by (auto simp: threads_ok_def)
  then have "lookup_step c name args h = Ok (At_search c a k (search_start (list_of h)), h)"
    using k by (simp add: lookup_step_def list_of_def)
  moreover have "still_open c args h (At_search c a k (search_start (list_of h)))"
    using k assms(2) by (simp add: still_open_def)
  ultimately show ?thesis using assms(1) by (simp add: effect_def)
qed

lemma delete_head: "delete_element k s = Ok s' \<Longrightarrow> head s' = head s"
  by (auto simp: delete_element_def remove_node_def outcome_simps split: if_splits option.splits)

lemma effect_del:
  assumes "threads_ok rnd h"
  shows "effect rnd ''DEL'' args h (del_step args h)"
proof (cases "length args \<noteq> 1 \<or> stringToInt (args ! 0) = None")
  case True
  then have "key_request ''DEL'' args = None" by (auto simp: key_request_def)
  with assms True effect_answer show ?thesis by (auto simp: del_step_def)
next
  case False
  then obtain a k where k: "args = [a]" "stringToInt a = Some k"
    by (cases args) auto
  obtain s where s: "store h = Some s" "store_ok rnd s" using assms(1) by (auto simp: threads_ok_def)
  obtain s' where del: "delete_element k s = Ok s'" "store_ok rnd s'"
    "contents_of s' = (contents_of s)(k := None)" using sl.del_law[OF s(2)] by blast
  have "key_request ''DEL'' args = Some (Req_del a)" using k by (auto simp: key_request_def)
  moreover have "key_of (Req_del a) = k" using k(2) by (intro key_of_Int) simp
  moreover have "threads_ok rnd (h\<lparr>store := Some s'\<rparr>)" using assms(1) del(2) by (simp add: threads_ok_def)
  ultimately show ?thesis
    using k del s(1) delete_head[OF del(1)] unfolding effect_def
    by (simp add: del_step_def on_store_def list_of_def contents_def answer_of_def)
qed

lemma log_frame:
  assumes "threads_ok rnd h"
  obtains h' where "log_at env lv m h = Ok ((), h')" "threads_ok rnd h'" "store h' = store h"
proof -
  have "log_quiet (lgr h)" using assms by (simp add: threads_ok_def)
  from log_quiet_Ok[OF this, of "lenv env" lv m] obtain l where
    "log_message (lenv env) lv m (lgr h) = Ok l" "log_quiet l" by blast
  then have "log_at env lv m h = Ok ((), h\<lparr>lgr := l\<rparr>)" "threads_ok rnd (h\<lparr>lgr := l\<rparr>)"
    using assms by (simp_all add: log_at_def threads_ok_def)
  then show thesis by (rule that) simp
qed

lemma reader_frame:
  assumes "threads_ok rnd h" "store h = Some s"
  shows "threads_ok rnd (h\<lparr>store := Some (s\<lparr>reader_open := b\<rparr>)\<rparr>)"
    "contents (h\<lparr>store := Some (s\<lparr>reader_open := b\<rparr>)\<rparr>) = contents h"
    "grows (list_of h) (s\<lparr>reader_open := b\<rparr>)"
  using assms by (auto simp: threads_ok_def contents_def contents_of_def list_of_def)

lemma effect_save:
  assumes "threads_ok rnd h"
  shows "effect rnd ''SAVE'' args h (save_open h)"
proof -
  obtain s where "store h = Some s" using assms by (auto simp: threads_ok_def)
  then have "save_open h = Ok (At_save True (D_first, []), h)" by (simp add: save_open_def)
  with assms show ?thesis by (simp add: effect_def still_open_def)
qed

lemma effect_load:
  assumes "threads_ok rnd h"
  shows "effect rnd ''LOAD'' args h (load_open h)"
proof -
  obtain s where s: "store h = Some s" using assms by (auto simp: threads_ok_def)
  note frame = reader_frame[OF assms s]
  have open_load: "still_open ''LOAD'' args h' At_loaded" "still_open ''LOAD'' args h' (At_load ls kv)" for h' ls kv
    by (simp_all add: still_open_def)
  have go: "effect rnd ''LOAD'' args h (Ok (pc, h\<lparr>store := Some (s\<lparr>reader_open := b\<rparr>)\<rparr>))"
    if "\<And>h'. still_open ''LOAD'' args h' pc" for pc b
    using frame[of b] that s by (simp add: effect_def list_of_def)
  show ?thesis
  proof (cases "reader_open s")
    case True
    with go[of At_loaded False] open_load s show ?thesis by (simp add: load_open_def)
  next
    case False
    show ?thesis
    proof (cases "content (store_disk h)")
      case None
      with assms False s open_load show ?thesis by (simp add: load_open_def effect_def)
    next
      case (Some t)
      with go[of "At_load (getlines LF t) ('''', '''')" True] open_load False s show ?thesis
        by (simp add: load_open_def)
    qed
  qed
qed

lemma effect_whole:
  assumes "threads_ok rnd h" "env_rand env = rnd" "c \<notin> phased"
  shows "effect rnd c args h (dispatch_step env c args h)"
proof -
  obtain r h' where r: "find_handler c h env args h = Ok (r, h')" "store h' = store h"
    using whole_command[OF assms(3)] by blast
  have ok: "handler_ok env h" using threads_handler_ok[OF assms(2)] assms(1) by simp
  then have "threads_ok rnd h'" "isValidRESP r"
    using safe_find_handler[OF ok, of c args] r(1) threads_handler_ok[OF assms(2)] by simp_all
  moreover have "key_request c args = None" "c \<noteq> ''LOAD''"
    using assms(3) by (auto simp: key_request_def phased_def)
  ultimately show ?thesis
    using r dispatch_whole[OF assms(3)] by (simp add: effect_def answer_of_def list_of_def contents_def)
qed

lemma effect_Ok_step: "effect rnd c args h (dispatch_step env c args h) \<Longrightarrow>
    effect rnd c args h (command_step env (At_dispatch c args) h)"
  by (auto simp: effect_def)

lemma dispatch_eqs:
  assumes "registered h"
  shows "dispatch_step env ''SET'' args h = set_step env args h"
    "dispatch_step env ''GET'' args h = lookup_step ''GET'' ''get'' args h"
    "dispatch_step env ''EXISTS'' args h = lookup_step ''EXISTS'' ''exists'' args h"
    "dispatch_step env ''DEL'' args h = del_step args h"
    "dispatch_step env ''FLUSH'' args h = Ok (At_count ''FLUSH'' (Then_log ''FLUSH'' OK_reply), h)"
    "dispatch_step env ''SAVE'' args h = save_open h"
    "dispatch_step env ''LOAD'' args h = load_open h"
    "dispatch_step env ''INFO'' args h = Ok (At_count ''INFO'' Then_info, h)"
  using assms by (simp_all add: dispatch_step_def Let_def)

lemma dispatch_named:
  assumes "threads_ok rnd h" "env_rand env = rnd"
  shows "effect rnd ''SET'' args h (dispatch_step env ''SET'' args h)"
    "effect rnd ''GET'' args h (dispatch_step env ''GET'' args h)"
    "effect rnd ''EXISTS'' args h (dispatch_step env ''EXISTS'' args h)"
    "effect rnd ''DEL'' args h (dispatch_step env ''DEL'' args h)"
    "effect rnd ''FLUSH'' args h (dispatch_step env ''FLUSH'' args h)"
    "effect rnd ''SAVE'' args h (dispatch_step env ''SAVE'' args h)"
    "effect rnd ''LOAD'' args h (dispatch_step env ''LOAD'' args h)"
    "effect rnd ''INFO'' args h (dispatch_step env ''INFO'' args h)"
proof -
  have reg: "registered h" using assms(1) by (simp add: threads_ok_def)
  have open_info: "effect rnd ''INFO'' args h (Ok (At_count ''INFO'' Then_info, h))"
    using assms(1) by (simp add: effect_def still_open_def)
  have flush: "effect rnd ''FLUSH'' args h (Ok (At_count ''FLUSH'' (Then_log ''FLUSH'' OK_reply), h))"
    using assms(1) by (simp add: effect_def answer_of_def key_request_def OK_reply_def)
  show "effect rnd ''SET'' args h (dispatch_step env ''SET'' args h)"
    "effect rnd ''GET'' args h (dispatch_step env ''GET'' args h)"
    "effect rnd ''EXISTS'' args h (dispatch_step env ''EXISTS'' args h)"
    "effect rnd ''DEL'' args h (dispatch_step env ''DEL'' args h)"
    "effect rnd ''FLUSH'' args h (dispatch_step env ''FLUSH'' args h)"
    "effect rnd ''SAVE'' args h (dispatch_step env ''SAVE'' args h)"
    "effect rnd ''LOAD'' args h (dispatch_step env ''LOAD'' args h)"
    "effect rnd ''INFO'' args h (dispatch_step env ''INFO'' args h)"
    unfolding dispatch_eqs[OF reg]
    using effect_set[OF assms] effect_lookup[OF assms(1)] effect_del[OF assms(1)] effect_save[OF assms(1)]
      effect_load[OF assms(1)] open_info flush by blast+
qed

lemma dispatch_effect:
  assumes "threads_ok rnd h" "env_rand env = rnd"
  shows "effect rnd c args h (command_step env (At_dispatch c args) h)"
proof (cases "c \<in> phased")
  case False
  show ?thesis by (rule effect_Ok_step[OF effect_whole[OF assms False]])
next
  case True
  then show ?thesis
    unfolding phased_def insert_iff empty_iff
    by (elim disjE) (simp_all only: dispatch_named[OF assms, THEN effect_Ok_step] simp_thms)
qed

subsection \<open>The steps of a search\<close>

text \<open>The search is not over, and the cell it is about to compare is not the head.\<close>

definition cursor_ok :: "skiplist \<Rightarrow> search_pc \<Rightarrow> bool" where
  "cursor_ok s p \<longleftrightarrow> (\<forall>b. p \<noteq> P_done b) \<and> (\<forall>x. p = P_cmp x \<longrightarrow> x \<noteq> head s)"

lemma cursor_start: "cursor_ok s (search_start s)"
  by (simp add: cursor_ok_def search_start_def)

lemma wf_cells_ok: "store_ok rnd s \<Longrightarrow> cells_ok (nat (max_level s)) s"
  using race_ok_start[of rnd s 0] by (simp add: race_ok_def)

lemma live_node_key:
  assumes "wf_skiplist s" "deref (mem s) a = Ok n" "a \<noteq> head s"
  shows "contents_of s (get_key n) \<noteq> None"
proof -
  obtain xs where inv: "nodes_inv s xs" using assms(1) by (auto simp: wf_skiplist_def)
  have n: "mem s a = Some n" using assms(2) by (auto simp: deref_def split: option.splits)
  then have "a \<in> dom (mem s)" by blast
  with inv assms(3) have "a \<in> set xs" by (simp add: nodes_inv_def)
  moreover have "key_at (mem s) a = get_key n" using n by (simp add: key_at_def get_key_def)
  ultimately have "get_key n \<in> fst ` set (items s)" by (metis image_eqI keys_inv[OF inv])
  then show ?thesis using contents_None by metis
qed

lemma search_step_cases:
  assumes "store_ok rnd s" "cursor_ok s p" "search_step key (mem s) p = Ok p'"
  shows "cursor_ok s p' \<or> (\<exists>b. p' = P_done b \<and> (b \<longrightarrow> contents_of s key \<noteq> None))"
proof (cases p)
  case (P_test c i)
  with assms(3) show ?thesis
    by (auto simp: outcome_simps cursor_ok_def level_down_def split: nat.splits if_splits)
next
  case (P_ptr c i)
  with assms(3) show ?thesis by (auto simp: outcome_simps cursor_ok_def split: option.splits)
next
  case (P_key c i a)
  with assms(3) show ?thesis
    by (auto simp: outcome_simps cursor_ok_def level_down_def split: nat.splits if_splits)
next
  case (P_move c i)
  with assms(3) show ?thesis by (auto simp: outcome_simps cursor_ok_def split: option.splits)
next
  case (P_last c)
  with assms(3) obtain q where q: "get_forward (mem s) c 0 = Ok q"
    "p' = (case q of None \<Rightarrow> P_done False | Some a \<Rightarrow> P_cmp a)" by (auto simp: outcome_simps)
  have "a \<noteq> head s" if "q = Some a" for a
    using that q(1) wf_cells_ok[OF assms(1)] by (fastforce simp: cells_ok_def get_forward_Ok)
  with q(2) show ?thesis by (auto simp: cursor_ok_def split: option.split)
next
  case (P_cmp a)
  with assms(3) obtain n where "deref (mem s) a = Ok n" "p' = P_done (get_key n = key)"
    by (auto simp: outcome_simps)
  moreover have "a \<noteq> head s" using P_cmp assms(2) by (simp add: cursor_ok_def)
  ultimately show ?thesis using live_node_key[of s a n] assms(1) by (auto simp: store_ok_def)
qed (use assms in \<open>auto simp: cursor_ok_def\<close>)

lemma search_move_cases:
  assumes "threads_ok rnd h" "cursor_ok (list_of h) p" "search_move c a k p h = Ok (pc', h')"
  shows "h' = h \<and> ((\<exists>p'. pc' = At_search c a k p' \<and> cursor_ok (list_of h) p') \<or>
    (\<exists>b. pc' = At_count c (Then_reply (lookup_reply c a b)) \<and> (b \<longrightarrow> contents h k \<noteq> None)))"
proof -
  obtain s where s: "store h = Some s" "store_ok rnd s" using assms(1) by (auto simp: threads_ok_def)
  then have l: "list_of h = s" "contents h = contents_of s" by (simp_all add: list_of_def contents_def)
  from assms(3) s(1) obtain p' where p': "search_step k (mem s) p = Ok p'"
    by (auto simp: search_move_def split: outcome.splits)
  with search_step_cases[OF s(2) _ p'] assms(2,3) s(1) l show ?thesis
    by (auto simp: search_move_def cursor_ok_def split: search_pc.splits)
qed

subsection \<open>The clients are a system of commands that happen at one moment\<close>

definition called :: "string \<Rightarrow> atomic_pc \<Rightarrow> bool" where
  "called c a \<longleftrightarrow> (\<exists>q. a = A_called q \<and> command (parseCommand q) = c)"

definition stands :: "skiplist \<Rightarrow> client_pc \<Rightarrow> atomic_pc \<Rightarrow> bool" where
  "stands s pc a \<longleftrightarrow> (case settled pc of
       Some r \<Rightarrow> a = A_done r
     | None \<Rightarrow> (case pc of
         At_idle \<Rightarrow> a = A_idle
       | At_entry q \<Rightarrow> a = A_called q
       | At_dispatch c args \<Rightarrow> (\<exists>q. a = A_called q \<and> command (parseCommand q) = c \<and> arguments (parseCommand q) = args)
       | At_search c x k p \<Rightarrow> (\<exists>q. a = A_called q \<and> command (parseCommand q) = c \<and> arguments (parseCommand q) = [x] \<and>
           c \<in> {''GET'', ''EXISTS''} \<and> stringToInt x = Some k) \<and> cursor_ok s p
       | At_save client d \<Rightarrow> (if client then called ''SAVE'' a else a = A_idle)
       | At_saved client \<Rightarrow> (if client then called ''SAVE'' a else a = A_idle)
       | At_persisted \<Rightarrow> a = A_idle
       | At_load ls kv \<Rightarrow> called ''LOAD'' a
       | At_loaded \<Rightarrow> called ''LOAD'' a
       | _ \<Rightarrow> called ''INFO'' a))"

definition step_matches :: "(nat \<Rightarrow> nat) \<Rightarrow> handler \<Rightarrow> atomic_pc \<Rightarrow> client_pc \<Rightarrow> handler \<Rightarrow> bool" where
  "step_matches rnd h a pc h' \<longleftrightarrow> threads_ok rnd h' \<and> head (list_of h') = head (list_of h) \<and>
     (contents h' = contents h \<and> stands (list_of h) pc a \<or>
      called ''LOAD'' a \<and> (\<exists>k v. contents h' = map_op (Put k v) (contents h)) \<and> stands (list_of h) pc a \<or>
      (\<exists>q r. a = A_called q \<and> answers q (contents h) r (contents h') \<and> settled pc = Some r))"

lemma threads_ok_steps:
  "threads_ok rnd h \<Longrightarrow> threads_ok rnd (appendAOF env l h)"
  "threads_ok rnd h \<Longrightarrow> threads_ok rnd (replicate env l h)"
  "threads_ok rnd h \<Longrightarrow> threads_ok rnd (with_stats f h)"
  by (simp_all add: threads_ok_def)

lemma lookup_answer:
  assumes "c \<in> {''GET'', ''EXISTS''}" "stringToInt x = Some k" "b \<longrightarrow> m k \<noteq> None"
  shows "answer_of c [x] m (lookup_reply c x b) m"
proof -
  have key: "key_of (Req_get x) = k" "key_of (Req_exists x) = k" using assms(2) by (auto intro: key_of_Int)
  have "key_request ''GET'' [x] = Some (Req_get x)" "key_request ''EXISTS'' [x] = Some (Req_exists x)"
    using assms(2) by (simp_all add: key_request_def)
  then have "answer_of ''GET'' [x] m (lookup_reply ''GET'' x b) m"
    "answer_of ''EXISTS'' [x] m (lookup_reply ''EXISTS'' x b) m"
    using assms(3) key by (cases "m k"; cases b; simp add: answer_of_def lookup_reply_def)+
  with assms(1) show ?thesis by blast
qed

lemma other_answer:
  "isValidRESP r \<Longrightarrow> key_request c args = None \<Longrightarrow> answer_of c args m r m"
  by (simp add: answer_of_def)

lemma step_matches_dispatch:
  assumes "threads_ok rnd h" "env_rand env = rnd" "command_step env (At_dispatch c args) h = Ok (pc', h')"
    and "stands (list_of h) (At_dispatch c args) a"
  shows "step_matches rnd h a pc' h'"
proof -
  from assms(4) obtain q where q: "a = A_called q" "command (parseCommand q) = c" "arguments (parseCommand q) = args"
    by (auto simp: stands_def)
  have "effect rnd c args h (Ok (pc', h'))" using dispatch_effect[OF assms(1,2)] assms(3) by metis
  then have e: "threads_ok rnd h'" "head (list_of h') = head (list_of h)"
    and "(\<exists>r. settled pc' = Some r \<and> answer_of c args (contents h) r (contents h')) \<or>
      contents h' = contents h \<and> still_open c args h' pc'" by (simp_all add: effect_def)
  from this(3) show ?thesis
  proof
    assume "\<exists>r. settled pc' = Some r \<and> answer_of c args (contents h) r (contents h')"
    with e q show ?thesis by (auto simp: step_matches_def answers_def)
  next
    assume "contents h' = contents h \<and> still_open c args h' pc'"
    with e q cursor_start[of "list_of h'"] show ?thesis
      by (auto simp: step_matches_def stands_def still_open_def called_def cursor_ok_def)
  qed
qed

lemma step_matches_search:
  assumes "threads_ok rnd h" "search_move c x k p h = Ok (pc', h')"
    and "stands (list_of h) (At_search c x k p) a"
  shows "step_matches rnd h a pc' h'"
proof -
  from assms(3) obtain q where q: "a = A_called q" "command (parseCommand q) = c" "arguments (parseCommand q) = [x]"
    "c \<in> {''GET'', ''EXISTS''}" "stringToInt x = Some k" "cursor_ok (list_of h) p" by (auto simp: stands_def)
  from search_move_cases[OF assms(1) q(6) assms(2)] consider
      p' where "h' = h" "pc' = At_search c x k p'" "cursor_ok (list_of h) p'"
    | b where "h' = h" "pc' = At_count c (Then_reply (lookup_reply c x b))" "b \<longrightarrow> contents h k \<noteq> None"
    by blast
  then show ?thesis
  proof cases
    case 1
    with assms(1) q show ?thesis by (auto simp: step_matches_def stands_def)
  next
    case 2
    with assms(1) q lookup_answer[OF q(4,5), of b "contents h"] show ?thesis by (simp add: step_matches_def answers_def)
  qed
qed

text \<open>A SAVE leaves the list as it is, a LOAD inserts.\<close>

lemma save_walk_cases:
  assumes "threads_ok rnd h" "save_walk client d h = Ok (pc, h')"
  shows "threads_ok rnd h' \<and> list_of h' = list_of h \<and> contents h' = contents h \<and>
    (pc = At_saved client \<or> (\<exists>d'. pc = At_save client d'))"
  using assms by (auto simp: save_walk_def threads_ok_def split: option.splits if_splits outcome.splits)

lemma load_step_cases:
  assumes "threads_ok rnd h"
  shows "(\<exists>e. load_step rnd ls kv h = Throw (e, h)) \<or>
    (\<exists>pc h'. load_step rnd ls kv h = Ok (pc, h') \<and> threads_ok rnd h' \<and> grows (list_of h) (list_of h') \<and>
      (contents h' = contents h \<or> (\<exists>k v. contents h' = map_op (Put k v) (contents h))) \<and>
      (pc = At_loaded \<or> (\<exists>ls' kv'. pc = At_load ls' kv')))"
proof (cases ls)
  case Nil
  obtain s where s: "store h = Some s" using assms by (auto simp: threads_ok_def)
  with Nil have "load_step rnd ls kv h = Ok (At_loaded, h\<lparr>store := Some (s\<lparr>reader_open := False\<rparr>)\<rparr>)"
    by (simp add: on_store_def)
  with reader_frame[OF assms s, of False] show ?thesis by simp
next
  case (Cons l ls')
  let ?kv = "get_key_value_from_string l kv"
  show ?thesis
  proof (cases "fst ?kv = [] \<or> snd ?kv = []")
    case True
    with Cons assms show ?thesis by (simp add: Let_def)
  next
    case False
    show ?thesis
    proof (cases "stoi (fst ?kv)")
      case (Ok k)
      obtain s where s: "store h = Some s" "store_ok rnd s" using assms by (auto simp: threads_ok_def)
      obtain r s' where ins: "insert_element rnd k (snd ?kv) s = Ok (r, s')" "store_ok rnd s'"
        "contents_of s' = map_op (Put k (snd ?kv)) (contents_of s)" using sl.ins_total[OF s(2)] by blast
      let ?h = "h\<lparr>store := Some s'\<rparr>"
      have "load_step rnd ls kv h = Ok (At_load ls' ?kv, ?h)"
        using Cons False Ok ins(1) s(1) by (simp add: Let_def on_store_def)
      moreover have "threads_ok rnd ?h" using assms ins(2) by (simp add: threads_ok_def)
      moreover have "grows (list_of h) (list_of ?h)" using put_grows[OF s(2) ins(1)] s(1) by (simp add: list_of_def)
      moreover have "contents ?h = map_op (Put k (snd ?kv)) (contents h)"
        using ins(3) s(1) by (simp add: contents_def del: map_op.simps)
      ultimately show ?thesis by blast
    qed (use Cons False in \<open>simp_all add: Let_def\<close>)
  qed
qed

text \<open>Messages, and the reply to an exception, need no more than the mutex of the logger.\<close>

lemma logging_step:
  assumes "threads_ok rnd h"
  obtains h' where "log_at env lv m h = Ok ((), h')" "threads_ok rnd h'" "list_of h' = list_of h" "contents h' = contents h"
  using log_frame[OF assms, of env lv m thesis] that by (simp add: list_of_def contents_def)

lemma caught_throw:
  assumes "threads_ok rnd h"
  obtains h' where "caught env (Throw (e, h)) = Ok (At_answer (err ''internal error''), h')"
    "threads_ok rnd h'" "list_of h' = list_of h" "contents h' = contents h"
proof -
  obtain h' where "log_at env LOG_ERROR (''Error handling command: '' @ what e) h = Ok ((), h')"
    "threads_ok rnd h'" "list_of h' = list_of h" "contents h' = contents h" by (rule logging_step[OF assms])
  then show thesis by (intro that[of h']) (simp_all add: internal_error_def)
qed

lemma step_matches_answer:
  assumes "threads_ok rnd h'" "list_of h' = list_of h" "contents h' = contents h"
    and "called c a" "c \<in> {''SAVE'', ''LOAD'', ''INFO''}" "isValidRESP r" "settled pc = Some r"
  shows "step_matches rnd h a pc h'"
proof -
  from assms(4) obtain q where q: "a = A_called q" "command (parseCommand q) = c" by (auto simp: called_def)
  have "key_request c (arguments (parseCommand q)) = None" using assms(5) by (auto simp: key_request_def)
  with q assms show ?thesis by (simp add: step_matches_def answers_def other_answer)
qed

lemma step_matches_save:
  assumes "threads_ok rnd h" "command_step env (At_save client d) h = Ok (pc', h')"
    and "stands (list_of h) (At_save client d) a"
  shows "step_matches rnd h a pc' h'"
proof (cases "save_walk client d h")
  case (Ok x)
  with assms(2) have "save_walk client d h = Ok (pc', h')" by (cases client) simp_all
  from save_walk_cases[OF assms(1) this] assms(3) show ?thesis by (auto simp: step_matches_def stands_def)
next
  case (Throw x)
  then have x: "\<exists>e. x = (e, h)" by (auto simp: save_walk_def split: option.splits if_splits outcome.splits)
  then obtain e where e: "x = (e, h)" by blast
  show ?thesis
  proof (cases client)
    case True
    obtain h1 where "caught env (Throw (e, h)) = Ok (At_answer (err ''internal error''), h1)"
      "threads_ok rnd h1" "list_of h1 = list_of h" "contents h1 = contents h" by (rule caught_throw[OF assms(1)])
    with Throw e True assms(2,3) show ?thesis
      by (intro step_matches_answer[of rnd h' h "''SAVE''" a]) (auto simp: stands_def)
  next
    case False
    obtain h1 where "log_at env LOG_ERROR (''Error during persistence: '' @ what e) h = Ok ((), h1)"
      "threads_ok rnd h1" "list_of h1 = list_of h" "contents h1 = contents h" by (rule logging_step[OF assms(1)])
    with Throw e False assms(2,3) show ?thesis by (auto simp: persist_caught_def step_matches_def stands_def)
  qed
qed (use assms(2) in \<open>cases client; simp\<close>)

lemma step_matches_load:
  assumes "threads_ok rnd h" "env_rand env = rnd" "command_step env (At_load ls kv) h = Ok (pc', h')"
    and "stands (list_of h) (At_load ls kv) a"
  shows "step_matches rnd h a pc' h'"
proof -
  have a: "called ''LOAD'' a" using assms(4) by (simp add: stands_def)
  from load_step_cases[OF assms(1), of ls kv] show ?thesis
  proof
    assume "\<exists>e. load_step rnd ls kv h = Throw (e, h)"
    then obtain e where e: "load_step rnd ls kv h = Throw (e, h)" by blast
    obtain h1 where "caught env (Throw (e, h)) = Ok (At_answer (err ''internal error''), h1)"
      "threads_ok rnd h1" "list_of h1 = list_of h" "contents h1 = contents h" by (rule caught_throw[OF assms(1)])
    with e a assms(2,3) show ?thesis by (intro step_matches_answer[of rnd h' h "''LOAD''" a]) auto
  next
    assume "\<exists>pc h'. load_step rnd ls kv h = Ok (pc, h') \<and> threads_ok rnd h' \<and> grows (list_of h) (list_of h') \<and>
      (contents h' = contents h \<or> (\<exists>k v. contents h' = map_op (Put k v) (contents h))) \<and>
      (pc = At_loaded \<or> (\<exists>ls' kv'. pc = At_load ls' kv'))"
    then obtain pc h1 where "load_step rnd ls kv h = Ok (pc, h1)" "threads_ok rnd h1" "grows (list_of h) (list_of h1)"
      "contents h1 = contents h \<or> (\<exists>k v. contents h1 = map_op (Put k v) (contents h))"
      "pc = At_loaded \<or> (\<exists>ls' kv'. pc = At_load ls' kv')" by blast
    moreover from this(1) have "pc' = pc" "h' = h1" using assms(2,3) by simp_all
    moreover have "stands (list_of h) pc a" using a calculation(5) by (auto simp: stands_def)
    ultimately show ?thesis using a by (auto simp: step_matches_def grows_def simp del: map_op.simps)
  qed
qed

lemma step_matches_message:
  assumes "threads_ok rnd h" "command_step env pc h = Ok (pc', h')" "stands (list_of h) pc a"
    and "pc = At_saved client \<or> pc = At_persisted \<or> pc = At_loaded"
  shows "step_matches rnd h a pc' h'"
  using assms(4)
proof (elim disjE)
  assume pc: "pc = At_saved client"
  obtain h1 where log: "log_at env INFO ''Data saved to file'' h = Ok ((), h1)"
    "threads_ok rnd h1" "list_of h1 = list_of h" "contents h1 = contents h" by (rule logging_step[OF assms(1)])
  show ?thesis
  proof (cases client)
    case True
    with pc assms(2,3) log show ?thesis
      by (intro step_matches_answer[of rnd h' h "''SAVE''" a]) (auto simp: stands_def OK_reply_def)
  next
    case False
    with pc assms(2,3) log show ?thesis by (auto simp: stands_def step_matches_def)
  qed
next
  assume pc: "pc = At_persisted"
  obtain h1 where "log_at env DEBUG ''Data persisted successfully'' h = Ok ((), h1)"
    "threads_ok rnd h1" "list_of h1 = list_of h" "contents h1 = contents h" by (rule logging_step[OF assms(1)])
  with pc assms(2,3) show ?thesis by (auto simp: stands_def step_matches_def)
next
  assume pc: "pc = At_loaded"
  obtain h1 where "log_at env INFO ''Data loaded from file'' h = Ok ((), h1)"
    "threads_ok rnd h1" "list_of h1 = list_of h" "contents h1 = contents h" by (rule logging_step[OF assms(1)])
  with pc assms(2,3) show ?thesis
    by (intro step_matches_answer[of rnd h' h "''LOAD''" a]) (auto simp: stands_def OK_reply_def)
qed

lemma thread_matches:
  assumes "threads_ok rnd h" "env_rand env = rnd" "command_step env pc h = Ok (pc', h')"
    and "stands (list_of h) pc a"
  shows "step_matches rnd h a pc' h'"
proof (cases pc)
  case (At_entry q)
  show ?thesis
  proof (cases "command (parseCommand q) = ''''")
    case True
    then have "answers q (contents h) (err ''unknown command'') (contents h)"
      by (simp add: answers_def other_answer key_request_def)
    with True At_entry assms show ?thesis by (auto simp: step_matches_def stands_def)
  next
    case False
    with At_entry assms threads_ok_steps(3) show ?thesis by (auto simp: step_matches_def stands_def Let_def)
  qed
next
  case (At_dispatch c args)
  with assms step_matches_dispatch show ?thesis by blast
next
  case (At_search c x k p)
  with assms step_matches_search[OF assms(1)] show ?thesis by simp
next
  case (At_count c k)
  with assms threads_ok_steps(3) show ?thesis
    by (cases k) (auto simp: step_matches_def stands_def Let_def)
next
  case At_info
  with assms show ?thesis by (intro step_matches_answer[of rnd h' h "''INFO''" a]) (auto simp: stands_def)
next
  case (At_save client d)
  with assms step_matches_save[OF assms(1)] show ?thesis by blast
next
  case (At_saved client)
  with assms step_matches_message[OF assms(1)] show ?thesis by blast
next
  case At_persisted
  with assms step_matches_message[OF assms(1)] show ?thesis by blast
next
  case (At_load ls kv)
  with assms step_matches_load[OF assms(1,2)] show ?thesis by blast
next
  case At_loaded
  with assms step_matches_message[OF assms(1)] show ?thesis by blast
qed (use assms threads_ok_steps in \<open>auto simp: step_matches_def stands_def\<close>)

lemma stands_frame: "head s' = head s \<Longrightarrow> stands s' pc a = stands s pc a"
  by (simp add: stands_def cursor_ok_def split: option.split client_pc.split)

definition client_rel :: "(nat \<Rightarrow> nat) \<Rightarrow> clients \<Rightarrow> (int \<rightharpoonup> string) \<times> (nat \<Rightarrow> atomic_pc) \<Rightarrow> bool" where
  "client_rel rnd c a \<longleftrightarrow> threads_ok rnd (fst c) \<and> fst a = contents (fst c) \<and>
     (\<forall>i. stands (list_of (fst c)) (snd c i) (snd a i))"

interpretation clients: forward_simulation "clients_step rnd Q" atomic_step "client_rel rnd" for rnd Q
proof
  fix c a e c' assume rel: "client_rel rnd c a" and step: "clients_step rnd Q c e c'"
  obtain m as where a: "a = (m, as)" by (cases a)
  from step show "\<exists>a'. client_rel rnd c' a' \<and> (atomic_step a e a' \<or> e = None \<and> a' = a)"
  proof cases
    case (call cs i request h)
    then have "as i = A_idle" using rel a by (auto simp: client_rel_def stands_def dest: spec[of _ i])
    then have "atomic_step a e (m, as(i := A_called request))" using call a by (auto intro: atomic_call)
    moreover have "client_rel rnd c' (m, as(i := A_called request))"
      using rel call a by (auto simp: client_rel_def stands_def)
    ultimately show ?thesis by blast
  next
    case (move env cs i h pc h')
    have old: "stands (list_of h) (cs j) (as j)" for j using rel move(1) a by (simp add: client_rel_def)
    from thread_matches[OF _ move(4,5) old] have sm: "step_matches rnd h (as i) pc h'"
      using rel move(1) by (simp add: client_rel_def)
    then have h': "threads_ok rnd h'" "head (list_of h') = head (list_of h)" by (simp_all add: step_matches_def)
    from sm consider "contents h' = contents h" "stands (list_of h) pc (as i)"
      | k v where "called ''LOAD'' (as i)" "contents h' = map_op (Put k v) (contents h)" "stands (list_of h) pc (as i)"
      | q r where "as i = A_called q" "answers q (contents h) r (contents h')" "settled pc = Some r"
      by (auto simp: step_matches_def simp del: map_op.simps)
    then show ?thesis
    proof cases
      case 1
      then have "stands (list_of h') ((cs(i := pc)) j) (as j)" for j
        using old by (simp add: stands_frame[OF h'(2)])
      then have "client_rel rnd c' a" using rel move(1,3) a h'(1) 1(1) by (simp add: client_rel_def)
      with move(2) show ?thesis by blast
    next
      case 2
      from 2(1) obtain q where "as i = A_called q" "command (parseCommand q) = ''LOAD''" by (auto simp: called_def)
      from atomic_load[of as i, OF this] have "atomic_step a e (contents h', as)"
        using 2(2) move(1,2) a rel by (simp add: client_rel_def del: map_op.simps)
      moreover have "stands (list_of h') ((cs(i := pc)) j) (as j)" for j
        using old 2(3) by (simp add: stands_frame[OF h'(2)])
      then have "client_rel rnd c' (contents h', as)" using move(3) h'(1) by (simp add: client_rel_def)
      ultimately show ?thesis by blast
    next
      case 3
      then have "atomic_step a e (contents h', as(i := A_done r))"
        using atomic_act[of as i, OF 3(1,2)] move(1,2) a rel by (simp add: client_rel_def)
      moreover have "stands (list_of h) pc (A_done r)" using 3(3) by (simp add: stands_def)
      then have "stands (list_of h') ((cs(i := pc)) j) ((as(i := A_done r)) j)" for j
        using old by (simp add: stands_frame[OF h'(2)])
      then have "client_rel rnd c' (contents h', as(i := A_done r))"
        using move(3) h'(1) by (simp add: client_rel_def)
      ultimately show ?thesis by blast
    qed
  next
    case (answer cs i r h)
    then have "as i = A_done r" using rel a by (auto simp: client_rel_def stands_def dest: spec[of _ i])
    then have "atomic_step a e (m, as(i := A_idle))" using answer a by (auto intro: atomic_answer)
    moreover have "client_rel rnd c' (m, as(i := A_idle))"
      using rel answer a by (auto simp: client_rel_def stands_def)
    ultimately show ?thesis by blast
  next
    case (begin_save cs i h)
    then have "as i = A_idle" using rel a by (auto simp: client_rel_def stands_def dest: spec[of _ i])
    then have "client_rel rnd c' a" using rel begin_save a by (auto simp: client_rel_def stands_def)
    with begin_save show ?thesis by blast
  next
    case (disk_change h t cs)
    then have "client_rel rnd c' a" using rel by (simp add: client_rel_def threads_ok_def)
    with disk_change show ?thesis by blast
  next
    case (lines_change cs i ls kv h ls')
    have "stands (list_of h) (cs i) (as i)" using rel a lines_change(1) by (simp add: client_rel_def)
    then have "called ''LOAD'' (as i)" using lines_change(4) by (simp add: stands_def)
    then have "client_rel rnd c' a" using rel lines_change a by (auto simp: client_rel_def stands_def)
    with lines_change show ?thesis by blast
  qed
qed

subsection \<open>Without DEL no step faults\<close>

text \<open>A search stands at cells that exist, up to the level it began at.\<close>

definition live :: "skiplist \<Rightarrow> client_pc \<Rightarrow> bool" where
  "live s pc \<longleftrightarrow> (case pc of
       At_entry q \<Rightarrow> command (parseCommand q) \<noteq> ''DEL''
     | At_dispatch c args \<Rightarrow> c \<noteq> ''DEL''
     | At_search c x k p \<Rightarrow> (\<exists>L. cells_ok L s \<and> pc_ok k L s p)
     | At_save client d \<Rightarrow> cells_ok 0 s \<and> (\<forall>a. fst d = D_node (Some a) \<or> fst d = D_next a \<longrightarrow> pc_ok 0 0 s (P_last a))
     | _ \<Rightarrow> True)"

lemma live_simps [simp]:
  "live s At_idle" "live s (At_count c after)" "live s At_info" "live s (At_append l r)"
  "live s (At_replicate l r)" "live s (At_answer r)" "live s (At_saved client)" "live s At_persisted"
  "live s (At_load ls kv)" "live s At_loaded"
  "live s (At_entry q) \<longleftrightarrow> command (parseCommand q) \<noteq> ''DEL''" "live s (At_dispatch c args) \<longleftrightarrow> c \<noteq> ''DEL''"
  "live s (At_search c x k p) \<longleftrightarrow> (\<exists>L. cells_ok L s \<and> pc_ok k L s p)"
  "live s (At_save client d) \<longleftrightarrow>
     cells_ok 0 s \<and> (\<forall>a. fst d = D_node (Some a) \<or> fst d = D_next a \<longrightarrow> pc_ok 0 0 s (P_last a))"
  by (simp_all add: live_def)

lemma live_grows: "grows s s' \<Longrightarrow> live s pc \<Longrightarrow> live s' pc"
  by (cases pc) (fastforce simp: grows_def simp del: pc_ok.simps)+

lemma live_settled: "settled pc = Some r \<Longrightarrow> live s pc"
  by (cases pc) simp_all

definition keeps_going :: "(nat \<Rightarrow> nat) \<Rightarrow> handler \<Rightarrow> (exn \<times> handler, client_pc \<times> handler) outcome \<Rightarrow> bool" where
  "keeps_going rnd h x \<longleftrightarrow> (\<exists>pc h'. x = Ok (pc, h') \<and> threads_ok rnd h' \<and>
     grows (list_of h) (list_of h') \<and> live (list_of h') pc)"

lemma keeps_going_same [simp]:
  "keeps_going rnd h (Ok (pc, h')) \<longleftrightarrow>
     threads_ok rnd h' \<and> grows (list_of h) (list_of h') \<and> live (list_of h') pc"
  by (simp add: keeps_going_def)

lemma search_keeps_going:
  assumes "threads_ok rnd h" "live (list_of h) (At_search c x k p)"
  shows "keeps_going rnd h (search_move c x k p h)"
proof -
  obtain s where s: "store h = Some s" "store_ok rnd s" using assms(1) by (auto simp: threads_ok_def)
  then have l: "list_of h = s" by (simp add: list_of_def)
  with assms(2) obtain L where L: "cells_ok L s" "pc_ok k L s p" by auto
  obtain p' where p': "search_step k (mem s) p = Ok p'" "pc_ok k L s p'"
    using search_step_ok[of s L k p] L s(2) by (auto simp: store_ok_def)
  show ?thesis
  proof (cases "\<exists>b. p' = P_done b")
    case True
    then show ?thesis using s p' assms(1) by (auto simp: search_move_def)
  next
    case False
    then have "search_move c x k p h = Ok (At_search c x k p', h)"
      using s(1) p'(1) by (simp add: search_move_def split: search_pc.split)
    then show ?thesis using assms(1) L(1) p'(2) l by auto
  qed
qed

lemma cells_ok_0: "store_ok rnd s \<Longrightarrow> cells_ok 0 s"
  using wf_cells_ok[of rnd s] by (auto simp: cells_ok_def)

lemma save_keeps_going:
  assumes "threads_ok rnd h" "live (list_of h) (At_save client d)"
  shows "keeps_going rnd h (save_walk client d h)"
proof -
  obtain s where s: "store h = Some s" "store_ok rnd s" using assms(1) by (auto simp: threads_ok_def)
  then have l: "list_of h = s" by (simp add: list_of_def)
  obtain xs where inv: "nodes_inv s xs" using s(2) by (auto simp: store_ok_def wf_skiplist_def)
  have cells: "cells_ok 0 s" and at: "fst d = D_node (Some a) \<or> fst d = D_next a \<Longrightarrow> fwd (mem s) 0 a \<noteq> None" for a
    using assms(2) l by auto
  obtain pc out where d: "d = (pc, out)" by (cases d)
  have go: ?thesis if "dump_step (mem s) (head s) d = Ok (pc', out')" "pc \<noteq> D_done"
    "\<And>a. pc' = D_node (Some a) \<or> pc' = D_next a \<Longrightarrow> fwd (mem s) 0 a \<noteq> None" for pc' out'
    using that s(1) assms(1) l cells d by (auto simp: save_walk_def)
  have next_ok: "\<exists>q. fwd (mem s) 0 a = Some q \<and> (\<forall>b. q = Some b \<longrightarrow> fwd (mem s) 0 b \<noteq> None)"
    if "fwd (mem s) 0 a \<noteq> None" for a
    using that cells by (force simp: cells_ok_def)
  show ?thesis
  proof (cases pc)
    case D_first
    have "fwd (mem s) 0 (head s) \<noteq> None" using nodes_inv_path0[OF inv] by auto
    from next_ok[OF this] obtain q where "fwd (mem s) 0 (head s) = Some q"
      "\<forall>b. q = Some b \<longrightarrow> fwd (mem s) 0 b \<noteq> None" by blast
    with D_first d go[of "D_node q" out] show ?thesis by simp
  next
    case (D_node q)
    show ?thesis
    proof (cases q)
      case None
      with D_node d go[of D_done out] show ?thesis by simp
    next
      case (Some a)
      with D_node d at[of a] have a: "fwd (mem s) 0 a \<noteq> None" by simp
      then obtain n where "deref (mem s) a = Ok n" using deref_fwd_Ok by blast
      with D_node Some d a go[of "D_next a" "out @ [(get_key n, get_value n)]"] show ?thesis by simp
    qed
  next
    case (D_next a)
    with d at[of a] next_ok[of a] obtain q where "fwd (mem s) 0 a = Some q"
      "\<forall>b. q = Some b \<longrightarrow> fwd (mem s) 0 b \<noteq> None" by auto
    with D_next d go[of "D_node q" out] show ?thesis by simp
  next
    case D_done
    with d s assms(1) l show ?thesis by (simp add: save_walk_def threads_ok_def)
  qed
qed

lemma logging_keeps_going:
  assumes "threads_ok rnd h" "pc = At_saved client \<or> pc = At_persisted \<or> pc = At_loaded"
  shows "keeps_going rnd h (command_step env pc h)"
proof -
  have *: "\<exists>h'. log_at env lv m h = Ok ((), h') \<and> threads_ok rnd h' \<and> list_of h' = list_of h" for lv m
    using logging_step[OF assms(1), of env lv m] by metis
  from assms(2) show ?thesis
    using *[of INFO "''Data saved to file''"] *[of DEBUG "''Data persisted successfully''"]
      *[of INFO "''Data loaded from file''"] by (auto simp: Let_def)
qed

lemma thread_keeps_going:
  assumes "threads_ok rnd h" "env_rand env = rnd" "live (list_of h) pc"
  shows "keeps_going rnd h (command_step env pc h)"
proof (cases pc)
  case (At_dispatch c args)
  have "effect rnd c args h (command_step env pc h)" using dispatch_effect[OF assms(1,2)] At_dispatch by simp
  then obtain pc' h' where pc': "command_step env pc h = Ok (pc', h')" "threads_ok rnd h'"
    "c \<noteq> ''DEL'' \<longrightarrow> grows (list_of h) (list_of h')"
    "(\<exists>r. settled pc' = Some r) \<or> contents h' = contents h \<and> still_open c args h' pc'" unfolding effect_def by blast
  moreover have "live (list_of h') pc'"
    using pc'(4)
  proof
    assume "contents h' = contents h \<and> still_open c args h' pc'"
    moreover have s: "store_ok rnd (list_of h')" using pc'(2) by (auto simp: threads_ok_def list_of_def)
    moreover have "live (list_of h') (At_search c x k (search_start (list_of h')))" for c x k
      using race_ok_start[OF s] by (auto simp: race_ok_def)
    moreover have "live (list_of h') (At_save True (D_first, []))" using cells_ok_0[OF s] by simp
    ultimately show ?thesis by (auto simp: still_open_def simp del: live_simps(13))
  qed (auto intro: live_settled)
  ultimately show ?thesis using assms(3) At_dispatch by simp
next
  case (At_search c x k p)
  with assms search_keeps_going show ?thesis by simp
next
  case (At_count c k)
  with assms threads_ok_steps(3) show ?thesis by (cases k) (simp_all add: Let_def)
next
  case (At_save client d)
  have "keeps_going rnd h (save_walk client d h)" using save_keeps_going[OF assms(1)] assms(3) At_save by blast
  then show ?thesis using At_save by (cases client) (auto simp: keeps_going_def)
next
  case (At_saved client)
  with logging_keeps_going[OF assms(1)] show ?thesis by blast
next
  case At_persisted
  with logging_keeps_going[OF assms(1)] show ?thesis by blast
next
  case At_loaded
  with logging_keeps_going[OF assms(1)] show ?thesis by blast
next
  case (At_load ls kv)
  from load_step_cases[OF assms(1), of ls kv] show ?thesis
  proof
    assume "\<exists>e. load_step rnd ls kv h = Throw (e, h)"
    then obtain e where e: "load_step rnd ls kv h = Throw (e, h)" by blast
    obtain h1 where "caught env (Throw (e, h)) = Ok (At_answer (err ''internal error''), h1)"
      "threads_ok rnd h1" "list_of h1 = list_of h" "contents h1 = contents h" by (rule caught_throw[OF assms(1)])
    with e At_load assms(2) show ?thesis by simp
  qed (use At_load assms(2) in auto)
qed (use assms threads_ok_steps in \<open>auto simp: Let_def\<close>)

definition clients_live :: "(nat \<Rightarrow> nat) \<Rightarrow> clients \<Rightarrow> bool" where
  "clients_live rnd c \<longleftrightarrow> threads_ok rnd (fst c) \<and> (\<forall>i. live (list_of (fst c)) (snd c i))"

lemma clients_live_step:
  assumes "clients_live rnd c" "clients_step rnd Q c e c'" "\<forall>q\<in>Q. command (parseCommand q) \<noteq> ''DEL''"
  shows "clients_live rnd c'"
  using assms(2)
proof cases
  case (move env cs i h pc h')
  have all: "live (list_of h) (cs j)" for j using assms(1) move(1) by (simp add: clients_live_def)
  have "keeps_going rnd h (command_step env (cs i) h)"
    using assms(1) move(1) by (intro thread_keeps_going[OF _ move(4) all]) (simp add: clients_live_def)
  then have h': "threads_ok rnd h'" "grows (list_of h) (list_of h')" "live (list_of h') pc"
    using move(5) by simp_all
  then have "live (list_of h') ((cs(i := pc)) j)" for j using live_grows[OF _ all] by simp
  with h'(1) move(3) show ?thesis by (simp add: clients_live_def)
next
  case (begin_save cs i h)
  have "store_ok rnd (list_of h)" using assms(1) begin_save(1) by (auto simp: clients_live_def threads_ok_def list_of_def)
  then have "live (list_of h) (At_save False (D_first, []))" using cells_ok_0 by simp
  with begin_save assms(1) show ?thesis by (simp add: clients_live_def)
next
  case (disk_change h t cs)
  with assms(1) show ?thesis by (simp add: clients_live_def threads_ok_def)
qed (use assms(1,3) in \<open>auto simp: clients_live_def\<close>)

lemma clients_live_run:
  assumes "threads_ok rnd h" "\<forall>q\<in>Q. command (parseCommand q) \<noteq> ''DEL''"
    and "exec (clients_step rnd Q) (h, \<lambda>_. At_idle) tr c"
  shows "clients_live rnd c"
proof (rule exec_invariant[OF assms(3), where I = "clients_live rnd"])
  show "clients_live rnd (h, \<lambda>_. At_idle)" using assms(1) by (simp add: clients_live_def)
qed (rule clients_live_step[OF _ _ assms(2)])

subsection \<open>Runs for the examples\<close>

lemma exec_move:
  "command_step env (cs i) h = Ok (pc, h') \<Longrightarrow> exec (clients_step (env_rand env) Q) (h', cs(i := pc)) tr c \<Longrightarrow>
     exec (clients_step (env_rand env) Q) (h, cs) tr c"
  using exec_silent[of "clients_step (env_rand env) Q"] move[of env "env_rand env" cs i h pc h' Q] by blast

lemma exec_call:
  "cs i = At_idle \<Longrightarrow> q \<in> Q \<Longrightarrow> exec (clients_step rnd Q) (h, cs(i := At_entry q)) tr c \<Longrightarrow>
     exec (clients_step rnd Q) (h, cs) (Called i q # tr) c"
  using exec_event[of "clients_step rnd Q"] call[of cs i q Q rnd h] by blast

lemma exec_answer:
  "cs i = At_answer r \<Longrightarrow> exec (clients_step rnd Q) (h, cs(i := At_idle)) tr c \<Longrightarrow>
     exec (clients_step rnd Q) (h, cs) (Returned i r # tr) c"
  using exec_event[of "clients_step rnd Q"] answer[of cs i r rnd Q h] by blast

lemma alone_exec:
  assumes "(alone env)\<^sup>*\<^sup>* x y"
  shows "cs i = fst x \<Longrightarrow> exec (clients_step (env_rand env) Q) (snd y, cs(i := fst y)) tr c \<Longrightarrow>
    exec (clients_step (env_rand env) Q) (snd x, cs) tr c"
  using assms
proof (induction arbitrary: cs rule: converse_rtranclp_induct)
  case base
  have "cs(i := fst y) = cs" using base(1) by (simp add: fun_upd_idem)
  with base(2) show ?case by simp
next
  case (step x z)
  from step(1) have "command_step env (fst x) (snd x) = Ok (fst z, snd z)" by (auto elim: alone.cases)
  moreover have "exec (clients_step (env_rand env) Q) (snd z, cs(i := fst z)) tr c"
    by (rule step(3)) (use step.prems(2) in \<open>simp_all only: fun_upd_upd fun_upd_same\<close>)
  ultimately show ?case
    using exec_move[of env cs i "snd x" "fst z" "snd z" Q tr c] step.prems(1) by simp
qed

text \<open>A command of one client while the others stand still.\<close>

lemma whole_command_exec:
  assumes "handler_ok env h" "handleCommand env q h = Ok (r, h')" "cs i = At_idle" "q \<in> Q"
  shows "exec (clients_step (env_rand env) Q) (h, cs) [Called i q, Returned i r] (h', cs)"
proof -
  have run: "(alone env)\<^sup>*\<^sup>* (At_entry q, h) (At_answer r, h')"
    using assms(1,2) by (simp add: command_steps_alone)
  have "cs(i := At_idle) = cs" using assms(3) by (simp add: fun_upd_idem)
  then have "exec (clients_step (env_rand env) Q) (h', cs(i := At_answer r)) [Returned i r] (h', cs)"
    by (intro exec_answer) (simp_all add: exec_Nil)
  then have "exec (clients_step (env_rand env) Q) (h, cs(i := At_entry q)) [Returned i r] (h', cs)"
    using alone_exec[OF run, of "cs(i := At_entry q)" i Q "[Returned i r]" "(h', cs)"] by simp
  with assms(3,4) show ?thesis by (intro exec_call)
qed

text \<open>Two clients.\<close>

definition two :: "client_pc \<Rightarrow> client_pc \<Rightarrow> nat \<Rightarrow> client_pc" where
  "two x y i = (if i = 0 then x else if i = 1 then y else At_idle)"

lemma two_upd [simp]: "(two x y)(0 := z) = two z y" "(two x y)(Suc 0 := z) = two x z"
  "two x y 0 = x" "two x y (Suc 0) = y"
  by (auto simp: two_def fun_eq_iff)

lemma two_idle: "(\<lambda>_. At_idle) = two At_idle At_idle"
  by (simp add: two_def fun_eq_iff)

lemma exec_two:
  shows exec_call0: "exec (clients_step rnd UNIV) (h, two (At_entry q) y) tr c \<Longrightarrow>
      exec (clients_step rnd UNIV) (h, two At_idle y) (Called 0 q # tr) c"
    and exec_call1: "exec (clients_step rnd UNIV) (h, two x (At_entry q)) tr c \<Longrightarrow>
      exec (clients_step rnd UNIV) (h, two x At_idle) (Called 1 q # tr) c"
    and exec_answer0: "exec (clients_step rnd UNIV) (h, two At_idle y) tr c \<Longrightarrow>
      exec (clients_step rnd UNIV) (h, two (At_answer r) y) (Returned 0 r # tr) c"
    and exec_answer1: "exec (clients_step rnd UNIV) (h, two x At_idle) tr c \<Longrightarrow>
      exec (clients_step rnd UNIV) (h, two x (At_answer r)) (Returned 1 r # tr) c"
    and exec_move0: "command_step env x h = Ok (x', h') \<Longrightarrow>
      exec (clients_step (env_rand env) UNIV) (h', two x' y) tr c \<Longrightarrow>
      exec (clients_step (env_rand env) UNIV) (h, two x y) tr c"
    and exec_move1: "command_step env y h = Ok (y', h') \<Longrightarrow>
      exec (clients_step (env_rand env) UNIV) (h', two x y') tr c \<Longrightarrow>
      exec (clients_step (env_rand env) UNIV) (h, two x y) tr c"
  using exec_call[of "two At_idle y" 0 q UNIV rnd h] exec_call[of "two x At_idle" 1 q UNIV rnd h]
    exec_answer[of "two (At_answer r) y" 0 r rnd UNIV h] exec_answer[of "two x (At_answer r)" 1 r rnd UNIV h]
    exec_move[of env "two x y" 0 h x' h' UNIV] exec_move[of env "two x y" 1 h y' h' UNIV]
  by simp_all

lemma count_log: "command_step env (At_count c (Then_log l r)) h =
    Ok (At_append l r, with_stats (count_command c) h)"
  by (simp add: Let_def)

lemma aof_flags_append [simp]:
  "aof_enabled (appendAOF env l h) = aof_enabled h" "aof_open (appendAOF env l h) = aof_open h"
  by (simp_all add: appendAOF_def aof_flush_def Let_def)

lemma parse_key_requests:
  assumes "request_ok [''SET'', a, v]"
  shows "parseCommand (createArray [''SET'', a, v]) = \<lparr>command = ''SET'', arguments = [a, v]\<rparr>"
    "parseCommand (createArray [''DEL'', a]) = \<lparr>command = ''DEL'', arguments = [a]\<rparr>"
proof -
  have "\<forall>x\<in>set [''SET'', a, v]. short x" "\<forall>x\<in>set [''DEL'', a]. short x"
    using assms by (simp_all add: request_ok_def short_def int_limits)
  with parseCommand_wire[of "''SET''" "[a, v]" "[]"] parseCommand_wire[of "''DEL''" "[a]" "[]"]
  show "parseCommand (createArray [''SET'', a, v]) = \<lparr>command = ''SET'', arguments = [a, v]\<rparr>"
    "parseCommand (createArray [''DEL'', a]) = \<lparr>command = ''DEL'', arguments = [a]\<rparr>"
    by (simp_all add: upper_names int_limits del: list.map)
qed

lemma two_clients_run:
  assumes "handler_ok env h" and "request_ok [''SET'', a, v]" and "stoi a = Ok k" and "contents h k = None"
    and "aof_enabled h" and "aof_open h"
  shows "\<exists>h'. exec (clients_step (env_rand env) UNIV) (h, \<lambda>_. At_idle)
      [Called 0 (createArray [''SET'', a, v]), Called 1 (createArray [''DEL'', a]),
       Returned 1 (createInteger 1), Returned 0 (createSimpleString ''OK'')] (h', \<lambda>_. At_idle) \<and>
    contents h' k = None \<and> aof_log h' = aof_log h @ ''DEL '' @ a @ [LF] @ ''SET '' @ a @ '' '' @ v @ [LF]"
proof -
  note key = stringToInt_Ok[OF assms(3)]
  let ?q0 = "createArray [''SET'', a, v]" and ?q1 = "createArray [''DEL'', a]"
  let ?l0 = "''SET '' @ a @ '' '' @ v" and ?l1 = "''DEL '' @ a"
  let ?n = "\<lambda>h. with_stats (\<lambda>s. s\<lparr>total_commands := total_commands s + 1\<rparr>) h"
  define h1 where "h1 = ?n (?n h)"
  have ok1: "handler_ok env h1" using assms(1) by (simp add: h1_def handler_ok_steps)
  obtain r h2 s2 where ins: "on_store (insert_element (env_rand env) k v) h1 = Ok (r, h2)"
    "contents h2 = map_op (Put k v) (contents h1)" "r = 0 \<longleftrightarrow> contents h1 k = None" "h2 = h1\<lparr>store := Some s2\<rparr>"
    by (rule store_insertE[OF ok1])
  have r: "r = 0" using ins(3) assms(4) by (simp add: h1_def)
  have ok2: "handler_ok env h2" using store_insert[OF ok1, of k v] ins(1) by auto
  obtain h3 s3 where del: "on_store (\<lambda>s. obind (delete_element k s) (\<lambda>s'. Ok ((), s'))) h2 = Ok ((), h3)"
    "contents h3 = (contents h2)(k := None)" "h3 = h2\<lparr>store := Some s3\<rparr>"
    using store_delete[OF ok2, of k] by blast
  have reg: "registered h1" "registered h2" using ok1 ok2 by (simp_all add: handler_ok_def)
  define h4 where "h4 = appendAOF env ?l1 (with_stats (count_command ''DEL'') h3)"
  define h5 where "h5 = appendAOF env ?l0 (with_stats (count_command ''SET'') h4)"
  define h6 where "h6 = replicate env ?l1 h5"
  define h7 where "h7 = replicate env ?l0 h6"
  have steps:
    "command_step env (At_entry ?q0) h = Ok (At_dispatch ''SET'' [a, v], ?n h)"
    "command_step env (At_entry ?q1) (?n h) = Ok (At_dispatch ''DEL'' [a], h1)"
    "command_step env (At_dispatch ''SET'' [a, v]) h1 = Ok (At_count ''SET'' (Then_log ?l0 OK_reply), h2)"
    "command_step env (At_dispatch ''DEL'' [a]) h2 = Ok (At_count ''DEL'' (Then_log ?l1 (createInteger 1)), h3)"
    "command_step env (At_append ?l1 (createInteger 1)) (with_stats (count_command ''DEL'') h3) =
       Ok (At_replicate ?l1 (createInteger 1), h4)"
    "command_step env (At_append ?l0 OK_reply) (with_stats (count_command ''SET'') h4) =
       Ok (At_replicate ?l0 OK_reply, h5)"
    "command_step env (At_replicate ?l1 (createInteger 1)) h5 = Ok (At_answer (createInteger 1), h6)"
    "command_step env (At_replicate ?l0 OK_reply) h6 = Ok (At_answer OK_reply, h7)"
    using parse_key_requests[OF assms(2)] key ins(1) del(1) r
    by (simp_all add: h1_def[symmetric] dispatch_eqs[OF reg(1)] dispatch_eqs[OF reg(2)] set_step_def del_step_def
        h4_def h5_def h6_def h7_def del: count_command_names)
  have "contents h7 k = None" using del(2) by (simp add: h7_def h6_def h5_def h4_def)
  moreover have "aof_enabled h3" "aof_open h3" "aof_log h3 = aof_log h"
    using del(3) ins(4) assms(5,6) by (simp_all add: h1_def)
  then have "aof_log h7 = aof_log h @ ?l1 @ [LF] @ ?l0 @ [LF]"
    by (simp add: h7_def h6_def h5_def h4_def aof_log_append)
  moreover have "exec (clients_step (env_rand env) UNIV) (h, \<lambda>_. At_idle)
      [Called 0 ?q0, Called 1 ?q1, Returned 1 (createInteger 1), Returned 0 (createSimpleString ''OK'')]
      (h7, \<lambda>_. At_idle)"
    unfolding two_idle OK_reply_def[symmetric]
    by (rule exec_call0, rule exec_call1, rule exec_move0[OF steps(1)], rule exec_move1[OF steps(2)],
      rule exec_move0[OF steps(3)], rule exec_move1[OF steps(4)], rule exec_move1[OF count_log],
      rule exec_move1[OF steps(5)], rule exec_move0[OF count_log], rule exec_move0[OF steps(6)],
      rule exec_move1[OF steps(7)], rule exec_move0[OF steps(8)], rule exec_answer1, rule exec_answer0,
      rule exec_Nil)
  ultimately show ?thesis by auto
qed

lemma threads_ok_with_list: "store_ok (\<lambda>_. 0) s \<Longrightarrow> threads_ok (\<lambda>_. 0) (with_list s)"
  using handler_ok_with_list[of s] threads_handler_ok[of quiet_env "\<lambda>_. 0"] by (simp add: quiet_env_def)

lemma example_run:
  assumes "store_ok (\<lambda>_. 0) s" "q \<in> Q"
  obtains r h' where "exec (clients_step (\<lambda>_. 0) Q) (with_list s, \<lambda>_. At_idle) [Called i q, Returned i r] (h', \<lambda>_. At_idle)"
proof -
  note ok = handler_ok_with_list[OF assms(1)]
  obtain r h' where "handleCommand quiet_env q (with_list s) = Ok (r, h')" using handleCommand_safe[OF ok] by blast
  from whole_command_exec[OF ok this, of "\<lambda>_. At_idle" i Q] assms(2) that show thesis by (simp add: quiet_env_def)
qed

subsection \<open>Properties\<close>

text \<open>
  C2. Commands of clients at once are linearizable, with lookups that may miss and loads that insert pair
  by pair.  From a sound handler whose logger has no open file, whatever requests the clients send
  and however the steps of their threads and the persistence thread interleave, as long as no
  search and no save reads a freed node the calls and replies are a trace of a map.  There every command
  but LOAD happens at one moment between its call and its reply; SET and DEL are exact, a lookup
  that finds its key is right, one that does not may be wrong; a LOAD inserts single pairs at moments
  between its call and its reply and never overwrites.  The list ends up as that map.
\<close>
theorem commands_happen_at_once:
  assumes "threads_ok rnd h" and "exec (clients_step rnd Q) (h, \<lambda>_. At_idle) tr (h', cs)"
  shows "threads_ok rnd h' \<and>
    (\<exists>as. exec atomic_step (contents h, \<lambda>_. A_idle) tr (contents h', as))"
proof -
  have "client_rel rnd (h, \<lambda>_. At_idle) (contents h, \<lambda>_. A_idle)"
    using assms(1) by (simp add: client_rel_def stands_def)
  from clients.trace_of_spec[OF assms(2) this] obtain m as where
    "exec atomic_step (contents h, \<lambda>_. A_idle) tr (m, as)" "client_rel rnd (h', cs) (m, as)" by auto
  then show ?thesis by (auto simp: client_rel_def)
qed

theorem commands_happen_at_once_witness:
  "\<exists>s r h' as. SkipList_init 4 0 = Ok s \<and>
    exec (clients_step (\<lambda>_. 0) UNIV) (with_list s, \<lambda>_. At_idle) [Called 3 ''hello'', Returned 3 r] (h', \<lambda>_. At_idle) \<and>
    exec atomic_step (Map.empty, \<lambda>_. A_idle) [Called 3 ''hello'', Returned 3 r] (contents h', as)"
proof -
  obtain s where s: "SkipList_init 4 0 = Ok s" "store_ok (\<lambda>_. 0) s" "contents_of s = Map.empty"
    by (rule empty_list_exists)
  obtain r h' where run:
    "exec (clients_step (\<lambda>_. 0) UNIV) (with_list s, \<lambda>_. At_idle) [Called 3 ''hello'', Returned 3 r] (h', \<lambda>_. At_idle)"
    by (rule example_run[OF s(2), of "''hello''" UNIV 3]) simp
  have "contents (with_list s) = Map.empty" using s(3) by (simp add: contents_def with_list_def)
  with commands_happen_at_once[OF threads_ok_with_list[OF s(2)] run] run s(1) show ?thesis by auto
qed

text \<open>
  C6. Clients that never send DEL cannot hurt each other.  From a sound handler whose logger has no open
  file, however the steps of their threads interleave, those of SAVE and LOAD and of the persistence
  thread included, every thread can always take its next step: no read of the list goes through a
  freed or a null pointer, although searches and saves take no lock, and the handler stays sound.  The two
  file streams that saves and loads at once share are outside the statement: what the dump file holds and
  which lines a LOAD reads next may change at any time.
\<close>
theorem clients_without_del_never_fault:
  assumes "threads_ok rnd h" and "\<forall>q\<in>Q. command (parseCommand q) \<noteq> ''DEL''"
    and "exec (clients_step rnd Q) (h, \<lambda>_. At_idle) tr (h', cs)" and "env_rand env = rnd"
  shows "threads_ok rnd h' \<and> (\<exists>pc h''. command_step env (cs i) h' = Ok (pc, h''))"
proof -
  have c: "clients_live rnd (h', cs)" by (rule clients_live_run[OF assms(1-3)])
  then have "keeps_going rnd h' (command_step env (cs i) h')"
    by (intro thread_keeps_going[OF _ assms(4)]) (simp_all add: clients_live_def)
  with c show ?thesis by (auto simp: keeps_going_def clients_live_def)
qed

theorem clients_without_del_never_fault_witness:
  "\<exists>s r h'. SkipList_init 4 0 = Ok s \<and>
    exec (clients_step (\<lambda>_. 0) {''hello''}) (with_list s, \<lambda>_. At_idle) [Called 3 ''hello'', Returned 3 r] (h', \<lambda>_. At_idle) \<and>
    (\<exists>pc h''. command_step quiet_env At_idle h' = Ok (pc, h''))"
proof -
  obtain s where s: "SkipList_init 4 0 = Ok s" "store_ok (\<lambda>_. 0) s" by (rule empty_list_exists)
  obtain r h' where run:
    "exec (clients_step (\<lambda>_. 0) {''hello''}) (with_list s, \<lambda>_. At_idle) [Called 3 ''hello'', Returned 3 r] (h', \<lambda>_. At_idle)"
    by (rule example_run[OF s(2), of "''hello''" "{''hello''}" 3]) simp
  have "\<forall>q\<in>{''hello''}. command (parseCommand q) \<noteq> ''DEL''"
    by (simp add: line_is_no_command LF_def)
  from clients_without_del_never_fault[OF threads_ok_with_list[OF s(2)] this run, of quiet_env] run s(1)
  show ?thesis by (auto simp: quiet_env_def)
qed

text \<open>
  C18. The append-only file can contradict the list.  A SET and a DEL of one key run at once: the key is
  inserted and taken out again, but the thread of DEL appends first.  Both clients are answered
  with success, the key is not in the list, and the last line of the file about it is its SET.
\<close>
theorem log_order_can_differ:
  assumes "handler_ok env h" and "request_ok [''SET'', a, v]" and "stoi a = Ok k" and "contents h k = None"
    and "aof_enabled h" and "aof_open h"
  shows "\<exists>h'. exec (clients_step (env_rand env) UNIV) (h, \<lambda>_. At_idle)
      [Called 0 (createArray [''SET'', a, v]), Called 1 (createArray [''DEL'', a]),
       Returned 1 (createInteger 1), Returned 0 (createSimpleString ''OK'')] (h', \<lambda>_. At_idle) \<and>
    contents h' k = None \<and> aof_log h' = aof_log h @ ''DEL '' @ a @ [LF] @ ''SET '' @ a @ '' '' @ v @ [LF]"
  using two_clients_run[OF assms] by blast

theorem log_order_can_differ_witness:
  "\<exists>s h'. SkipList_init 4 0 = Ok s \<and> contents h' 7 = None \<and>
    aof_log h' = aof_log (with_list s) @ ''DEL '' @ ''7'' @ [LF] @ ''SET '' @ ''7'' @ '' '' @ ''x'' @ [LF]"
proof -
  obtain s where s: "SkipList_init 4 0 = Ok s" "store_ok (\<lambda>_. 0) s" "contents_of s = Map.empty"
    by (rule empty_list_exists)
  have "request_ok [''SET'', ''7'', ''x'']" "contents (with_list s) 7 = None"
    "aof_enabled (with_list s)" "aof_open (with_list s)"
    using s(3) by (simp_all add: request_ok_def short_def int_limits contents_def with_list_def)
  from log_order_can_differ[OF handler_ok_with_list[OF s(2)] this(1) stoi_7 this(2-4)] s(1) show ?thesis by blast
qed

end
