(* ===== verification/CrashRecovery.thy ===== *)
theory CrashRecovery
  imports HandlerThreadsProps "HOL-Library.Sublist"
begin

section \<open>What a killed process leaves (SkipList::dump\_file, RedisHandler::loadData)\<close>

text \<open>
  \<^verbatim>\<open>dump_file\<close> opens the file for writing, which empties it, and then writes the lines in place:
  there is no second file and no renaming.  A process that is killed while it dumps leaves the
  first n bytes of the text, for some n.  Then what a new process loads is decided by
  \<^verbatim>\<open>load_file\<close>, which accepts any line with a colon.
\<close>

definition dump_text :: "(int \<times> string) list \<Rightarrow> string" where
  "dump_text kvs = concat (map (\<lambda>kv. dump_line kv @ [LF]) kvs)"

definition dump_killed :: "nat \<Rightarrow> skiplist \<Rightarrow> store_file \<Rightarrow> (exn, store_file) outcome" where
  "dump_killed n s d =
     obind (level_items 0 s) (\<lambda>kvs.
       Ok (if writable d then d\<lparr>content := Some (take n (dump_text kvs))\<rparr> else d))"

lemma dump_not_killed:
  assumes "wf_skiplist s" "length (dump_text (items s)) \<le> n"
  shows "dump_killed n s d = dump_file s d"
  using assms by (simp add: dump_killed_def dump_file_def wf_level_items dump_text_def)

subsection \<open>Lines of a cut file\<close>

lemma getlines_append:
  "(\<And>l. l \<in> set ls \<Longrightarrow> d \<notin> set l) \<Longrightarrow> getlines d (concat (map (\<lambda>l. l @ [d]) ls) @ r) = ls @ getlines d r"
  by (induction ls) (simp_all add: getlines_line)

lemma getlines_from_rest: "d \<notin> set r \<Longrightarrow> getlines_from d acc r = (if acc @ r = [] then [] else [acc @ r])"
  by (induction r arbitrary: acc) auto

lemma getlines_rest: "d \<notin> set r \<Longrightarrow> getlines d r = (if r = [] then [] else [r])"
  by (simp add: getlines_def getlines_from_rest)

lemma take_dump_text:
  obtains "take n (dump_text kvs) = dump_text kvs"
  | j m where "j < length kvs" "m \<le> length (dump_line (kvs ! j))"
      "take n (dump_text kvs) = dump_text (take j kvs) @ take m (dump_line (kvs ! j))"
proof (cases "n < length (dump_text kvs)")
  case True
  from take_concat_map[OF True[unfolded dump_text_def]] obtain k j where
    "k < length kvs" "j < length (dump_line (kvs ! k) @ [LF])"
    "n = length (concat (map (\<lambda>kv. dump_line kv @ [LF]) (take k kvs))) + j"
    "take n (dump_text kvs) = dump_text (take k kvs) @ take j (dump_line (kvs ! k) @ [LF])"
    unfolding dump_text_def by blast
  then show thesis by (intro that(2)[of k j]) auto
qed (use that(1) in simp)

subsection \<open>Loading the lines of a cut file\<close>

abbreviation last_pair :: "(int \<times> string) list \<Rightarrow> string \<times> string" where
  "last_pair kvs \<equiv> foldl (\<lambda>kv l. get_key_value_from_string l kv) ('''', '''') (map dump_line kvs)"

lemma last_pair_dump:
  "kvs \<noteq> [] \<Longrightarrow> last_pair kvs = (int_to_string (fst (last kvs)), snd (last kvs) @ '';'')"
proof (induction kvs rule: rev_induct)
  case (snoc x xs)
  then show ?case by (cases x) (simp add: dump_line_read)
qed simp

text \<open>A cut line: nothing to the left of the colon counts, what is behind it is a value.\<close>

lemma cut_line_cases:
  assumes "m \<le> length (dump_line (k, v))"
  obtains "\<And>kv. get_key_value_from_string (take m (dump_line (k, v))) kv = kv"
  | w where "prefix w (v @ '';'')"
      "\<And>kv. get_key_value_from_string (take m (dump_line (k, v))) kv = (int_to_string k, w)"
proof (cases "m \<le> length (int_to_string k)")
  case True
  then have "take m (dump_line (k, v)) = take m (int_to_string k)" by (simp add: dump_line_def)
  moreover have "CHR '':'' \<notin> set (take m (int_to_string k))"
    using int_to_string_no_colon by (meson in_set_takeD)
  then have "find_char (CHR '':'') (take m (int_to_string k)) = None" by (simp add: find_char_None)
  ultimately show thesis
    by (intro that(1)) (simp add: get_key_value_from_string_def is_valid_string_def)
next
  case False
  then obtain i where i: "m = Suc (length (int_to_string k) + i)" by (metis less_imp_Suc_add not_le)
  then have "take m (dump_line (k, v)) = int_to_string k @ CHR '':'' # take i (v @ '';'')"
    by (simp add: dump_line_def)
  then have "get_key_value_from_string (take m (dump_line (k, v))) kv = (int_to_string k, take i (v @ '';''))" for kv
    using split_at_colon[OF int_to_string_no_colon] by simp
  then show thesis by (rule that(2)[OF take_is_prefix])
qed

lemma load_cut_line:
  assumes "store_ok rnd s" "kv \<noteq> ('''', '''') \<longrightarrow> (\<exists>i v. kv = (int_to_string i, v) \<and> int_key i \<and> contents_of s i \<noteq> None)"
    and "int_key k" "m \<le> length (dump_line (k, v))"
  shows "\<exists>s'. load_lines rnd [take m (dump_line (k, v))] kv s = Ok s' \<and> store_ok rnd s' \<and>
    (contents_of s' = contents_of s \<or>
     (\<exists>w. w \<noteq> '''' \<and> prefix w (v @ '';'') \<and> contents_of s' = map_op (Put k w) (contents_of s)))"
  using assms(4)
proof (cases rule: cut_line_cases)
  case 1
  show ?thesis
  proof (cases "kv = ('''', '''')")
    case False
    then obtain i w where i: "kv = (int_to_string i, w)" "int_key i" "contents_of s i \<noteq> None" using assms(2) by blast
    then have "insert_element rnd i w s = Ok (1, s)" using sl.ins_old[OF assms(1)] by blast
    then show ?thesis using 1 i assms(1) by (simp add: int_key_def Let_def)
  qed (use 1 assms(1) in \<open>simp add: Let_def\<close>)
next
  case (2 w)
  show ?thesis
  proof (cases "w = ''''")
    case False
    obtain r s' where "insert_element rnd k w s = Ok (r, s')" "store_ok rnd s'"
      "contents_of s' = map_op (Put k w) (contents_of s)" using sl.ins_total[OF assms(1)] by blast
    then show ?thesis using 2 False assms(3) by (auto simp: int_key_def Let_def)
  qed (use 2 assms(1) in \<open>simp add: Let_def\<close>)
qed

subsection \<open>A list from a cut file\<close>

lemma map_of_append_fresh:
  "k \<notin> fst ` set kvs \<Longrightarrow> map_op (Put k w) (map_of kvs) = map_of (kvs @ [(k, w)])"
proof -
  assume "k \<notin> fst ` set kvs"
  then have "map_of kvs k = None" by (simp add: map_of_eq_None_iff)
  then show ?thesis by (auto simp: fun_eq_iff map_add_def split: option.splits)
qed

lemma load_dumped_prefix:
  assumes "store_ok rnd t" "contents_of t = Map.empty" "\<forall>kv\<in>set kvs. int_key (fst kv)"
    and "distinct (map fst kvs)"
  obtains t' where "load_lines rnd (map dump_line kvs) ('''', '''') t = Ok t'" "store_ok rnd t'"
    "contents_of t' = map_of (map with_semicolon kvs)"
    "kvs \<noteq> [] \<longrightarrow> contents_of t' (fst (last kvs)) \<noteq> None"
proof -
  from load_lines_dump[OF assms(1,3)] obtain t' where t': "load_lines rnd (map dump_line kvs) ('''', '''') t = Ok t'"
    "store_ok rnd t'" "contents_of t' = map_of (map with_semicolon kvs)" using assms(2) by fastforce
  moreover have "kvs \<noteq> [] \<longrightarrow> contents_of t' (fst (last kvs)) \<noteq> None"
    unfolding t'(3) by (auto simp: map_of_eq_None_iff image_image)
  ultimately show thesis by (rule that)
qed

text \<open>The pairs of the first j lines, and perhaps of the next one a beginning of its value.\<close>

definition beginning_of :: "(int \<times> string) list \<Rightarrow> nat \<Rightarrow> (int \<rightharpoonup> string) \<Rightarrow> bool" where
  "beginning_of kvs j m \<longleftrightarrow> j \<le> length kvs \<and>
     (m = map_of (map with_semicolon (take j kvs)) \<or>
      (\<exists>w. j < length kvs \<and> w \<noteq> '''' \<and> prefix w (snd (kvs ! j) @ '';'') \<and>
        m = map_of (map with_semicolon (take j kvs) @ [(fst (kvs ! j), w)])))"

lemma load_cut_file:
  assumes "store_ok rnd t" "items t = []" "distinct (map fst kvs)"
    and "\<forall>kv\<in>set kvs. int_key (fst kv) \<and> LF \<notin> set (snd kv)"
  shows "\<exists>t' j. load_lines rnd (getlines LF (take n (dump_text kvs))) ('''', '''') t = Ok t' \<and>
    store_ok rnd t' \<and> beginning_of kvs j (contents_of t')"
  using take_dump_text[of n kvs]
proof cases
  case 1
  have "getlines LF (dump_text kvs) = map dump_line kvs"
    using getlines_concat[of "map dump_line kvs" LF] assms(4) dump_line_no_LF by (force simp: dump_text_def comp_def)
  moreover obtain t' where "load_lines rnd (map dump_line kvs) ('''', '''') t = Ok t'" "store_ok rnd t'"
    "contents_of t' = map_of (map with_semicolon kvs)"
    using load_dumped_prefix[OF assms(1) _ _ assms(3)] assms(2,4) by (auto simp: contents_of_def)
  ultimately show ?thesis using 1 by (intro exI[of _ t'] exI[of _ "length kvs"]) (simp add: beginning_of_def)
next
  case (2 j m)
  let ?ks = "take j kvs"
  obtain k v where kv: "kvs ! j = (k, v)" by fastforce
  have mem: "(k, v) \<in> set kvs" using 2(1) kv by (metis nth_mem)
  have p: "LF \<notin> set (take m (dump_line (k, v)))"
    using dump_line_no_LF mem assms(4) by (metis in_set_takeD snd_conv)
  obtain t1 where t1: "load_lines rnd (map dump_line ?ks) ('''', '''') t = Ok t1" "store_ok rnd t1"
    "contents_of t1 = map_of (map with_semicolon ?ks)" "?ks \<noteq> [] \<longrightarrow> contents_of t1 (fst (last ?ks)) \<noteq> None"
    by (rule load_dumped_prefix[OF assms(1), of ?ks])
      (use assms(2-4) in \<open>auto simp: contents_of_def take_map[symmetric] dest: in_set_takeD\<close>)
  have "distinct (map fst (?ks @ (k, v) # drop (Suc j) kvs))"
    using assms(3) id_take_nth_drop[OF 2(1)] kv by simp
  then have fresh: "k \<notin> fst ` set (map with_semicolon ?ks)" by (simp add: image_image)
  have no_LF: "\<forall>l\<in>set (map dump_line ?ks). LF \<notin> set l"
    using assms(4) dump_line_no_LF by (force dest: in_set_takeD)
  have "getlines LF (concat (map (\<lambda>l. l @ [LF]) (map dump_line ?ks)) @ r) = map dump_line ?ks @ getlines LF r" for r
    by (rule getlines_append) (use no_LF in blast)
  then have lines: "getlines LF (take n (dump_text kvs)) = map dump_line ?ks @ getlines LF (take m (dump_line (k, v)))"
    using 2(3) kv by (simp add: dump_text_def comp_def)
  show ?thesis
  proof (cases "take m (dump_line (k, v)) = []")
    case True
    then have "getlines LF (take n (dump_text kvs)) = map dump_line ?ks"
      by (simp only: lines getlines_Nil append_Nil2)
    then show ?thesis using t1(1-3) 2(1) by (intro exI[of _ t1] exI[of _ j]) (simp add: beginning_of_def)
  next
    case False
    let ?kv = "last_pair ?ks"
    have "?kv \<noteq> ('''', '''') \<longrightarrow> (\<exists>i v. ?kv = (int_to_string i, v) \<and> int_key i \<and> contents_of t1 i \<noteq> None)"
    proof (cases "?ks = []")
      case False
      then have "fst (last ?ks) \<in> fst ` set kvs" by (meson imageI in_set_takeD last_in_set)
      with assms(4) have "int_key (fst (last ?ks))" by auto
      with False t1(4) last_pair_dump[OF False] show ?thesis by metis
    qed auto
    moreover have "int_key k" using mem assms(4) by fastforce
    moreover have "m \<le> length (dump_line (k, v))" using 2(2) kv by simp
    ultimately obtain t' where t': "load_lines rnd [take m (dump_line (k, v))] ?kv t1 = Ok t'" "store_ok rnd t'"
      "contents_of t' = contents_of t1 \<or>
       (\<exists>w. w \<noteq> '''' \<and> prefix w (v @ '';'') \<and> contents_of t' = map_op (Put k w) (contents_of t1))"
      using load_cut_line[OF t1(2), of ?kv k m v] by blast
    have "load_lines rnd (getlines LF (take n (dump_text kvs))) ('''', '''') t = Ok t'"
      using lines getlines_rest[OF p] False t1(1) t'(1) by (simp add: load_lines_append[OF t1(1)] del: load_lines.simps)
    with t'(2,3) 2(1) kv t1(3) map_of_append_fresh[OF fresh] show ?thesis
      unfolding beginning_of_def by (intro exI[of _ t'] exI[of _ j]) auto
  qed
qed

subsection \<open>Properties\<close>

text \<open>
  C7. A killed server comes back with what its last save saw.  While \<^verbatim>\<open>dump_file\<close> walks along the list, and no
  other dump runs, the clients insert; the process may be killed at any time after the dump has closed
  the file.  When the list then had keys of 32 bits and no line feed in a value, a new process loads,
  each value with a semicolon behind it, every pair that was in the list when the dump began,
  perhaps some that came while it ran, and nothing else.
\<close>
theorem killed_server_restarts_between:
  assumes "store_ok rnd s" and "inserts_only W"
    and "(dump_race rnd W)\<^sup>*\<^sup>* ((D_first, []), s) ((D_done, out), s')"
    and "plain_items s'" and "writable d" and "rand_fair rnd'" and "0 \<le> lvl"
  shows "\<exists>t t'. SkipList_init lvl rp = Ok t \<and> load_file rnd' (dump_written out d) t = Ok t' \<and> store_ok rnd' t' \<and>
    map_option (\<lambda>v. v @ '';'') \<circ> contents_of s \<subseteq>\<^sub>m contents_of t' \<and>
    contents_of t' \<subseteq>\<^sub>m map_option (\<lambda>v. v @ '';'') \<circ> contents_of s'"
proof -
  have "dump_ok rnd (set (items s)) ((D_done, out), s')"
    by (rule dump_ok_run[OF assms(3,2) dump_ok_start[OF assms(1)]])
  then obtain xs where "nodes_inv s' xs" "set (items s) \<subseteq> set out"
    "set out \<subseteq> item_at (mem s') ` set xs" and sorted: "sorted_wrt (<) (map fst out)" and wf': "wf_skiplist s'"
    by (auto simp: dump_ok_def store_ok_def)
  then have sub: "set (items s) \<subseteq> set out" "set out \<subseteq> set (items s')" by (auto simp: items_inv)
  have plain: "\<forall>kv\<in>set out. int_key (fst kv) \<and> LF \<notin> set (snd kv)"
    using assms(4) sub(2) by (auto simp: plain_items_def)
  have dist: "distinct (map fst out)" using sorted by (simp add: strict_sorted_iff)
  obtain t where t: "SkipList_init lvl rp = Ok t" "wf_skiplist t" "items t = []" "reader_open t = False"
    using init_Ok[OF assms(7)] by blast
  have t_ok: "store_ok rnd' t" using t(2) assms(6) by (simp add: store_ok_def)
  have "store_ok rnd' (t\<lparr>reader_open := True\<rparr>)" "contents_of (t\<lparr>reader_open := True\<rparr>) = Map.empty"
    using t_ok t(3) by (simp_all add: contents_of_def)
  from load_dumped_prefix[OF this _ dist] plain obtain t1 where t1:
    "load_lines rnd' (map dump_line out) ('''', '''') (t\<lparr>reader_open := True\<rparr>) = Ok t1" "store_ok rnd' t1"
    "contents_of t1 = map_of (map with_semicolon out)" by blast
  have "getlines LF (concat (map (\<lambda>kv. dump_line kv @ [LF]) out)) = map dump_line out"
    using getlines_concat[of "map dump_line out" LF] plain dump_line_no_LF by (force simp: comp_def)
  then have load: "load_file rnd' (dump_written out d) t = Ok (t1\<lparr>reader_open := False\<rparr>)"
    using t1(1) t(4) assms(5) by (simp add: load_file_def dump_written_def)
  have c: "contents_of (t1\<lparr>reader_open := False\<rparr>) = map_option (\<lambda>v. v @ '';'') \<circ> map_of out"
    using t1(3) by (simp add: map_of_with_semicolon contents_of_def)
  have "distinct (map fst (items s'))" "distinct (map fst (items s))"
    using wf_sorted[OF wf'] assms(1) wf_sorted[of s] by (simp_all add: strict_sorted_iff store_ok_def)
  then have "contents_of s \<subseteq>\<^sub>m map_of out" "map_of out \<subseteq>\<^sub>m contents_of s'"
    using dist sub by (auto simp: map_le_def contents_of_def dom_map_of_conv_image_fst)
  then show ?thesis using t(1) load c t1(2)
    by (intro exI[of _ t] exI[of _ "t1\<lparr>reader_open := False\<rparr>"]) (auto simp: map_le_def)
qed

theorem killed_server_restarts_between_witness:
  "\<exists>s t t'. items s = [(7, ''x'')] \<and> (dump_race (\<lambda>_. 0) {Put 6 ''y''})\<^sup>*\<^sup>* ((D_first, []), s) ((D_done, items s), s) \<and>
    SkipList_init 4 0 = Ok t \<and>
    load_file (\<lambda>_. 0) (dump_written (items s) \<lparr>content = None, writable = True\<rparr>) t = Ok t' \<and>
    contents_of t' 7 = Some ''x;''"
proof -
  obtain s where s: "store_ok (\<lambda>_. 0) s" "items s = [(7, ''x'')]" using one_key_store by blast
  then obtain xs where "nodes_inv s xs" by (auto simp: store_ok_def wf_skiplist_def)
  note run = dump_whole[OF this, of "\<lambda>_. 0" "{Put 6 ''y''}"]
  have "inserts_only {Put 6 ''y''}" "plain_items s" "rand_fair (\<lambda>_. 0)"
    using s by (simp_all add: inserts_only_def plain_items_def int_key_def int_limits LF_def store_ok_def)
  from killed_server_restarts_between[OF s(1) this(1) run this(2) _ this(3),
      of "\<lparr>content = None, writable = True\<rparr>" 4 0] obtain t t' where
    "SkipList_init 4 0 = Ok t" "load_file (\<lambda>_. 0) (dump_written (items s) \<lparr>content = None, writable = True\<rparr>) t = Ok t'"
    "map_option (\<lambda>v. v @ '';'') \<circ> contents_of s \<subseteq>\<^sub>m contents_of t'" by auto
  moreover have "contents_of t' 7 = Some ''x;''"
    using calculation(3) s(2) by (auto simp: map_le_def contents_of_def)
  ultimately show ?thesis using run s(2) by blast
qed

text \<open>
  C13. A process killed while it saves loses what it had saved before.  The file is emptied first and
  written in place, so a kill leaves a beginning of the text; a new list loads the pairs of the
  lines that are complete, and of the line that is cut at most a beginning of its value.  Killed
  before the first byte, nothing is left.
\<close>
theorem killed_save_keeps_a_beginning:
  assumes "store_ok rnd s" and "plain_items s" and "writable d" and "dump_killed n s d = Ok d'"
    and "store_ok rnd t" and "items t = []" and "\<not> reader_open t"
  shows "\<exists>t' j. load_file rnd d' t = Ok t' \<and> store_ok rnd t' \<and>
    beginning_of (items s) j (contents_of t') \<and> (n = 0 \<longrightarrow> contents_of t' = Map.empty)"
proof -
  have wf: "wf_skiplist s" using assms(1) by (simp add: store_ok_def)
  have d': "content d' = Some (take n (dump_text (items s)))"
    using assms(3,4) wf by (auto simp: dump_killed_def wf_level_items)
  have "store_ok rnd (t\<lparr>reader_open := True\<rparr>)" "items (t\<lparr>reader_open := True\<rparr>) = []"
    using assms(5,6) by simp_all
  then obtain t1 j where t1:
    "load_lines rnd (getlines LF (take n (dump_text (items s)))) ('''', '''') (t\<lparr>reader_open := True\<rparr>) = Ok t1"
    "store_ok rnd t1" "beginning_of (items s) j (contents_of t1)"
    using load_cut_file[of rnd "t\<lparr>reader_open := True\<rparr>" "items s" n] assms(2) wf_sorted[OF wf]
    by (auto simp only: plain_items_def strict_sorted_iff)
  have "contents_of t1 = Map.empty" if "n = 0" using t1(1) that assms(6) by (auto simp: contents_of_def)
  moreover have "load_file rnd d' t = Ok (t1\<lparr>reader_open := False\<rparr>)"
    using d' t1(1) assms(7) by (simp add: load_file_def)
  ultimately show ?thesis using t1(2,3) by (intro exI[of _ "t1\<lparr>reader_open := False\<rparr>"] exI[of _ j]) simp
qed

theorem killed_save_keeps_a_beginning_witness:
  "\<exists>t s d' t'. SkipList_init 4 0 = Ok t \<and> insert_element (\<lambda>_. 0) 7 ''x'' t = Ok (0, s) \<and>
    dump_killed 0 s \<lparr>content = Some ''7:x;'', writable = True\<rparr> = Ok d' \<and>
    load_file (\<lambda>_. 0) d' t = Ok t' \<and> contents_of t' = Map.empty"
proof -
  have fair: "rand_fair (\<lambda>_. 0)" by (simp add: rand_fair_def rand_ends_def)
  obtain t where t: "SkipList_init 4 0 = Ok t" "wf_skiplist t" "items t = []" "reader_open t = False"
    using init_Ok[of 4 0] by auto
  with insert_absent[OF t(2), of "\<lambda>_. 0" 7 "''x''"] fair obtain s where
    s: "insert_element (\<lambda>_. 0) 7 ''x'' t = Ok (0, s)" "wf_skiplist s" "items s = [(7, ''x'')]"
    by (auto simp: ins_sorted_def rand_fair_def)
  have ok: "plain_items s" "store_ok (\<lambda>_. 0) s" "store_ok (\<lambda>_. 0) t"
    using s t fair by (simp_all add: plain_items_def int_key_def int_limits LF_def store_ok_def)
  let ?d = "\<lparr>content = Some ''7:x;'', writable = True\<rparr>"
  obtain d' where d': "dump_killed 0 s ?d = Ok d'" using s(2) by (simp add: dump_killed_def wf_level_items)
  from killed_save_keeps_a_beginning[OF ok(2,1) _ d' ok(3) t(3)] t(1,4) s(1) d' show ?thesis by auto
qed

end
