(* ===== verification/RequestDepth.thy ===== *)
theory RequestDepth
  imports TcpServerProps
begin

section \<open>How deep a request makes the parser call itself (network/redis\_protocol.cpp)\<close>

text \<open>
  \<^verbatim>\<open>parse\<close> and \<^verbatim>\<open>parseArray\<close> call each other once per level of nesting, and the client decides how deep:
  every \<^verbatim>\<open>*1\<close> line opens a level.  \<open>parse_depth\<close> counts the calls of \<^verbatim>\<open>parse\<close> that are open at once;
  it follows the recursion of the functions.
\<close>

function (sequential) parse_depth :: "string \<Rightarrow> nat"
  and elems_depth :: "string \<Rightarrow> nat \<Rightarrow> nat \<Rightarrow> nat" where
  "parse_depth [] = 1"
| "parse_depth (t # data) =
     (if t = CHR ''*'' then
        (case readLine (t # data) 1 of (length_str, pos) \<Rightarrow>
           case stoll length_str of
             Ok len \<Rightarrow> if len < 0 then 1 else Suc (elems_depth (t # data) pos (nat len))
           | _ \<Rightarrow> 1)
      else 1)"
| "elems_depth data pos 0 = 0"
| "elems_depth data pos (Suc n) =
     (if pos \<ge> length data then 0
      else max (parse_depth (drop pos data))
             (case parse (drop pos data) of
                None \<Rightarrow> 0
              | Some v \<Rightarrow> elems_depth data (pos + length (serialize v)) n))"
  by pat_completeness auto

termination parse_depth
  by (relation "measures [case_sum length (\<lambda>(d, p, n). length d - p),
        case_sum (\<lambda>_. 0) (\<lambda>_. 1), case_sum (\<lambda>_. 0) (\<lambda>(d, p, n). n)]")
    (auto dest!: readLine_ge[OF sym])

declare parse_depth.simps(2) [simp del] elems_depth.simps(2) [simp del]

subsection \<open>Four bytes per level\<close>

lemma stoll_Ok_not_Nil: "stoll l = Ok n \<Longrightarrow> l \<noteq> []"
  by (auto simp: stoll_def strtol_def)

lemma parse_depth_CR: "parse_depth (CR # xs) = 1"
  by (simp add: parse_depth.simps(2) CR_def)

text \<open>Behind the header either its line end was skipped, or nothing follows that opens a level.\<close>

lemma header_end:
  assumes "readLine (t # data) 1 = (l, p)"
  shows "p = length l + 3 \<and> length l + 2 < length (t # data) \<or>
    p = length l + 1 \<and> (drop p (t # data) = [] \<or> List.hd (drop p (t # data)) = CR)"
proof -
  have l: "l = takeWhile (\<lambda>c. c \<noteq> CR) data" using assms by (simp add: readLine_def Let_def)
  consider "p = length l + 3" "length l + 2 < length (t # data)" | "p = length l + 1"
    using assms l by (auto simp: readLine_def Let_def split: if_splits)
  then show ?thesis
  proof cases
    case 2
    then have "drop p (t # data) = dropWhile (\<lambda>c. c \<noteq> CR) data" using l by (simp add: dropWhile_eq_drop)
    then show ?thesis using 2 hd_dropWhile[of "\<lambda>c. c \<noteq> CR" data] by auto
  qed simp
qed

lemma elems_depth_Nil: "length data \<le> pos \<Longrightarrow> elems_depth data pos n = 0"
  by (cases n) (simp_all add: elems_depth.simps(2))

text \<open>Elements that start at a carriage return or at the end open no level.\<close>

lemma elems_depth_CR:
  assumes "drop pos data = [] \<or> List.hd (drop pos data) = CR"
  shows "elems_depth data pos n \<le> 1"
proof (cases n)
  case (Suc m)
  show ?thesis
  proof (cases "length data \<le> pos")
    case False
    then obtain xs where "drop pos data = CR # xs"
      using assms by (cases "drop pos data") auto
    then show ?thesis using Suc parse_depth_CR parse_CR by (simp add: elems_depth.simps(2))
  qed (simp add: elems_depth_Nil)
qed simp

lemma header_depth:
  assumes "readLine (t # data) 1 = (l, p)" "stoll l = Ok n"
    and "4 * elems_depth (t # data) p k \<le> length (t # data) - p + 5"
  shows "4 * Suc (elems_depth (t # data) p k) \<le> length (t # data) + 5"
proof -
  have "1 \<le> length l" using stoll_Ok_not_Nil[OF assms(2)] by (cases l) auto
  with header_end[OF assms(1)] consider "4 \<le> p" "p \<le> length (t # data)"
    | "drop p (t # data) = []" | "drop p (t # data) \<noteq> []" "List.hd (drop p (t # data)) = CR" "2 \<le> p" by fastforce
  then show ?thesis
  proof cases
    case 3
    then have "elems_depth (t # data) p k \<le> 1" by (intro elems_depth_CR) simp
    moreover have "p < length (t # data)" using 3(1) by auto
    ultimately show ?thesis using 3(3) by simp
  qed (use assms(3) elems_depth_Nil[of "t # data" p k] in auto)
qed

lemma depth_le:
  "4 * parse_depth data \<le> length data + 5"
  "4 * elems_depth data pos n \<le> length data - pos + 5"
proof (induction data and data pos n rule: parse_depth_elems_depth.induct)
  case (2 t data)
  obtain l p where rl: "readLine (t # data) 1 = (l, p)" by fastforce
  show ?case
  proof (cases "t = CHR ''*'' \<and> (\<exists>n. stoll l = Ok n \<and> 0 \<le> n)")
    case True
    then obtain n where n: "stoll l = Ok n" "0 \<le> n" "t = CHR ''*''" by blast
    have "4 * elems_depth (t # data) p (nat n) \<le> length (t # data) - p + 5"
      using 2 rl n by auto
    from header_depth[OF rl n(1) this] n rl show ?thesis by (simp add: parse_depth.simps(2))
  qed (use rl in \<open>auto simp: parse_depth.simps(2) split: outcome.split\<close>)
next
  case (4 data pos n)
  show ?case
  proof (cases "length data \<le> pos")
    case False
    have "4 * parse_depth (drop pos data) \<le> length data - pos + 5" using 4(1) False by simp
    moreover have "4 * elems_depth data (pos + length (serialize v)) n \<le> length data - pos + 5"
      if "parse (drop pos data) = Some v" for v
      using 4(2)[OF False that] by linarith
    ultimately show ?thesis using False by (auto simp: elems_depth.simps(2) max_def split: option.split)
  qed (simp add: elems_depth_Nil)
qed auto

text \<open>The bound is met: n levels in 4 n bytes.\<close>

fun nested :: "nat \<Rightarrow> string" where
  "nested 0 = '':0'' @ CRLF"
| "nested (Suc n) = ''*1'' @ CRLF @ nested n"

lemma nested_depth: "parse_depth (nested n) = Suc n"
proof (induction n)
  case 0
  show ?case by (simp add: parse_depth.simps(2))
next
  case (Suc n)
  have r: "readLine (CHR ''*'' # ''1'' @ CRLF @ nested n) 1 = (''1'', 4)"
    using readLine_1[of "''1''" "CHR ''*''" "nested n"] by (simp add: CR_def)
  have n: "nested n \<noteq> []" by (cases n) simp_all
  have "stoll ''1'' = Ok 1" by code_simp
  moreover have "drop 4 (CHR ''*'' # ''1'' @ CRLF @ nested n) = nested n" by (simp add: CRLF_def)
  moreover have "\<not> length (CHR ''*'' # ''1'' @ CRLF @ nested n) \<le> 4"  using n by (simp add: CRLF_def)
  ultimately have "elems_depth (CHR ''*'' # ''1'' @ CRLF @ nested n) 4 (Suc 0) = Suc n"
    using Suc by (simp add: elems_depth.simps(2) split: option.split)
  with r \<open>stoll ''1'' = Ok 1\<close> show ?case by (simp add: parse_depth.simps(2))
qed

subsection \<open>Through the socket\<close>

lemma find_str_drop: "starts_with sub (drop n s) \<Longrightarrow> sub \<noteq> [] \<Longrightarrow> find_str sub s \<noteq> None"
proof (induction s arbitrary: n)
  case (Cons x xs)
  then show ?case by (cases n) auto
qed (simp add: starts_with_def)

lemma recv_loop_split:
  assumes "recv_loop chunks data = (d, rest)" "find_str CRLF data = None"
    and "\<forall>c\<in>set chunks. length c \<le> b"
  shows "\<exists>u w. d = u @ w \<and> find_str CRLF u = None \<and> length w \<le> b"
  using assms
proof (induction chunks arbitrary: data)
  case (Cons c cs)
  let ?w = "takeWhile (\<lambda>x. x \<noteq> NUL) c"
  have "length ?w \<le> b" using Cons.prems(3) length_takeWhile_le[of "\<lambda>x. x \<noteq> NUL" c] by simp
  note w = this
  show ?case
  proof (cases "c = []")
    case True
    then have "d = data @ []" using Cons.prems(1) by simp
    then show ?thesis using Cons.prems(2) by (intro exI[of _ data] exI[of _ "[]"]) simp
  next
    case False
    show ?thesis
    proof (cases "find_str CRLF (data @ ?w) = None")
      case True
      then show ?thesis using Cons.IH[of "data @ ?w"] Cons.prems False by (simp add: Let_def)
    next
      case False
      then have "d = data @ ?w" using Cons.prems(1) \<open>c \<noteq> []\<close> by (simp add: Let_def)
      then show ?thesis using Cons.prems(2) w by blast
    qed
  qed
next
  case Nil
  then have "d = data @ []" by simp
  then show ?case using Nil(2) by (intro exI[of _ data] exI[of _ "[]"]) simp
qed

text \<open>
  What comes before the last chunk holds no line end, so a level can only open inside the last
  chunk, one byte of CRLF aside.
\<close>

lemma header_in_last:
  assumes "readLine (t # data) 1 = (l, p)" "t # data = u @ w" "find_str CRLF u = None"
    and "p = length l + 3" "length l + 2 < length (t # data)"
  shows "length (t # data) - p \<le> length w"
proof (rule ccontr)
  assume "\<not> length (t # data) - p \<le> length w"
  then have u: "p < length u" using assms(2,5) by (metis diff_add_inverse2 length_append less_diff_conv linorder_not_le add.commute)
  have "(t # data) ! (p - 2) = CR \<and> (t # data) ! (p - 1) = LF"
    using assms(1,4) by (auto simp: readLine_def Let_def numeral_3_eq_3 split: if_splits)
  then have "u ! (p - 2) = CR \<and> u ! (p - 1) = LF" using u assms(2) by (metis less_imp_diff_less nth_append)
  moreover have "drop (p - 2) u = u ! (p - 2) # u ! (p - 1) # drop p u"
    using u assms(4) by (simp add: Cons_nth_drop_Suc numeral_3_eq_3)
  ultimately have "starts_with CRLF (drop (p - 2) u)" by (simp add: starts_with_def CRLF_def)
  from find_str_drop[OF this] assms(3) show False by (simp add: CRLF_def)
qed

lemma depth_of_last:
  assumes "find_str CRLF u = None"
  shows "4 * parse_depth (u @ w) \<le> length w + 9"
proof (cases "u @ w")
  case (Cons t data)
  obtain l p where rl: "readLine (t # data) 1 = (l, p)" by fastforce
  show ?thesis
  proof (cases "t = CHR ''*'' \<and> (\<exists>n. stoll l = Ok n \<and> 0 \<le> n)")
    case True
    then obtain n where n: "stoll l = Ok n" "0 \<le> n" "t = CHR ''*''" by blast
    then have d: "parse_depth (u @ w) = Suc (elems_depth (t # data) p (nat n))"
      using rl Cons by (simp add: parse_depth.simps(2))
    have le: "4 * elems_depth (t # data) p (nat n) \<le> length (t # data) - p + 5" by (rule depth_le(2))
    from header_end[OF rl] consider "p = length l + 3" "length l + 2 < length (t # data)"
      | "elems_depth (t # data) p (nat n) \<le> 1"
      using elems_depth_CR by blast
    then show ?thesis
    proof cases
      case 1
      from header_in_last[OF rl Cons[symmetric] assms 1] le d show ?thesis by simp
    next
      case 2
      then show ?thesis using d by simp
    qed
  qed (use rl Cons in \<open>auto simp: parse_depth.simps(2) split: outcome.split\<close>)
qed simp

subsection \<open>Properties\<close>

text \<open>
  C20. A client cannot exhaust the stack of the parser.  One call of \<^verbatim>\<open>recv\<close> delivers at most 4095
  bytes and \<^verbatim>\<open>receive\<close> stops at the first line end, so however much a client sends, parsing what
  it sent never nests deeper than 1026 calls; the parser alone would nest one call per four bytes.
\<close>
theorem request_recursion_bounded:
  assumes "\<forall>c\<in>set chunks. length c \<le> 4095"
  shows "parse_depth (fst (conn_receive chunks)) \<le> 1026 \<and> parse_depth (nested n) = Suc n \<and>
    length (nested n) = 4 * Suc n"
proof -
  obtain d rest where d: "conn_receive chunks = (d, rest)" by fastforce
  have "find_str CRLF '''' = None" by (simp add: CRLF_def)
  from recv_loop_split[OF d[unfolded conn_receive_def] this assms] obtain u w where
    "d = u @ w" "find_str CRLF u = None" "length w \<le> 4095" by blast
  with depth_of_last[of u w] have "4 * parse_depth d \<le> 4104" by simp
  moreover have "length (nested n) = 4 * Suc n" by (induction n) (simp_all add: CRLF_def)
  ultimately show ?thesis using d nested_depth by simp
qed

theorem request_recursion_bounded_witness:
  "parse_depth (fst (conn_receive [nested 1, ''x''])) \<le> 1026 \<and> parse_depth (nested 2) = 3"
proof -
  have "\<forall>c\<in>set [nested 1, ''x'']. length c \<le> 4095" by (simp add: CRLF_def)
  from request_recursion_bounded[OF this, of 2] show ?thesis by simp
qed

end
