(* ===== verification/ServerLocks.thy ===== *)
theory ServerLocks
  imports ReplicationLocks RedisService
begin

section \<open>The mutexes of the whole server\<close>

text \<open>
  What the threads of the server lock, in the order of the code: the threads of the clients
  (\<^verbatim>\<open>handleClient\<close>, the message callback, the command handler, the list, the append-only file, the
  replication manager, the send), the accepting thread, the persistence and the monitor thread,
  main with its statistics, and the threads of the replication manager.  The queue of the workers
  is in TcpServer.  What a call takes depends on the branches it goes through, so it is a function
  of the state in which it is made.  The logger is the one that can be locked twice by its holder:
  with an open file \<^verbatim>\<open>writeToFile\<close> calls \<^verbatim>\<open>checkRotation\<close>.
\<close>

datatype server_mutex =
    S_server_stats            \<comment> \<open>\<^verbatim>\<open>SkipListServer::stats_mutex_\<close>\<close>
  | S_connections             \<comment> \<open>\<^verbatim>\<open>TCPServer::connections_mutex_\<close>\<close>
  | S_list                    \<comment> \<open>\<^verbatim>\<open>mtx\<close> of skiplist.cpp\<close>
  | S_commands                \<comment> \<open>\<^verbatim>\<open>RedisHandler::stats_mutex_\<close>\<close>
  | S_aof                     \<comment> \<open>\<^verbatim>\<open>RedisHandler::aof_mutex_\<close>\<close>
  | S_logger                  \<comment> \<open>\<^verbatim>\<open>Logger::log_mutex_\<close>\<close>
  | S_send nat                \<comment> \<open>\<^verbatim>\<open>ClientConnection::send_mutex_\<close> of a connection\<close>
  | S_repl repl_mutex

type_synonym locks = "server_mutex program"

subsection \<open>Logger, list and append-only file\<close>

definition log_locks :: "log_level \<Rightarrow> logger \<Rightarrow> locks" where
  "log_locks level l =
     (if initializing l \<or> level < log_level_cur l then []
      else guarded S_logger (if stream l \<noteq> None then guarded S_logger [] else []))"

definition appendAOF_locks :: "handler \<Rightarrow> locks" where
  "appendAOF_locks h = (if aof_enabled h then guarded S_aof [] else [])"

definition replicate_locks :: "handler \<Rightarrow> locks" where
  "replicate_locks h =
     (case replication h of
        Some r \<Rightarrow> if isMaster r then map (map_act S_repl) (replicateCommand_locks r) else []
      | None \<Rightarrow> [])"

text \<open>One insertion, and so one lock, per line that has a key and a value; a bad key ends the load.\<close>

fun load_lines_locks :: "string list \<Rightarrow> string \<times> string \<Rightarrow> locks \<times> bool" where
  "load_lines_locks [] kv = ([], True)"
| "load_lines_locks (line # ls) kv =
     (let kv' = get_key_value_from_string line kv
      in if fst kv' = [] \<or> snd kv' = [] then load_lines_locks ls kv'
         else if returns (stoi (fst kv'))
         then (case load_lines_locks ls kv' of (p, ok) \<Rightarrow> (guarded S_list [] @ p, ok))
         else ([], False))"

definition loadData_locks :: "handler \<Rightarrow> locks \<times> bool" where
  "loadData_locks h =
     (case store h of
        None \<Rightarrow> ([], True)
      | Some s \<Rightarrow>
          (case (if reader_open s then ([], True)
                 else case content (store_disk h) of
                   None \<Rightarrow> ([], True) | Some t \<Rightarrow> load_lines_locks (getlines LF t) ('''', '''')) of
             (p, ok) \<Rightarrow> (p @ (if ok then log_locks INFO (lgr h) else []), ok)))"

definition saveData_locks :: "handler \<Rightarrow> locks" where
  "saveData_locks h = (if store h = None then [] else log_locks INFO (lgr h))"

subsection \<open>Commands\<close>

definition count_lock :: locks where
  "count_lock = guarded S_commands []"

text \<open>
  The handlers of the table; SET goes on to the file and the slaves when the key was absent.  The
  searches of GET and EXISTS lock nothing.
\<close>

definition handler_locks :: "string \<Rightarrow> string list \<Rightarrow> handler \<Rightarrow> locks" where
  "handler_locks c args h =
     (if \<not> registered h then []
      else if c = ''PING'' then count_lock
      else if c = ''SET'' then
        (if length args < 2 then []
         else case stringToInt (args ! 0) of
           None \<Rightarrow> []
         | Some key \<Rightarrow> guarded S_list [] @ count_lock @
             (if contents h key = None then appendAOF_locks h @ replicate_locks h else []))
      else if c = ''GET'' \<or> c = ''EXISTS'' then
        (if length args \<noteq> 1 \<or> stringToInt (args ! 0) = None then [] else count_lock)
      else if c = ''DEL'' then
        (if length args \<noteq> 1 \<or> stringToInt (args ! 0) = None then []
         else guarded S_list [] @ count_lock @ appendAOF_locks h @ replicate_locks h)
      else if c = ''FLUSH'' then count_lock @ appendAOF_locks h @ replicate_locks h
      else if c = ''SAVE'' then saveData_locks h @ count_lock
      else if c = ''LOAD'' then
        (case loadData_locks h of (p, ok) \<Rightarrow> p @ (if ok then count_lock else log_locks LOG_ERROR (lgr h)))
      else if c = ''INFO'' then count_lock @ count_lock
      else [])"

definition command_locks :: "string \<Rightarrow> handler \<Rightarrow> locks" where
  "command_locks request h =
     (let cmd = parseCommand request in
      if command cmd = '''' then [] else count_lock @ handler_locks (command cmd) (arguments cmd) h)"

subsection \<open>Threads\<close>

text \<open>
  One turn of the loop of a connection: the message callback, then the send of a reply that is not
  empty.
\<close>

definition message_locks :: "senv \<Rightarrow> nat \<Rightarrow> string \<Rightarrow> server \<Rightarrow> locks" where
  "message_locks env conn request s =
     guarded S_server_stats [] @ command_locks request (redis s) @
     (if fst (serve_message env request s) \<noteq> '''' then guarded (S_send conn) [] else [])"

text \<open>
  \<^verbatim>\<open>getConnectionCount\<close> is called under the mutex of the statistics, and \<^verbatim>\<open>rotateLogFile\<close>, which logs,
  under that of the logger.
\<close>

definition rotation_due :: "string \<Rightarrow> logger \<Rightarrow> bool" where
  "rotation_due m l \<longleftrightarrow> (current_file_size l + length m) mod 2 ^ 64 \<ge> max_file_size l"

definition monitor_locks :: "string \<Rightarrow> server \<Rightarrow> locks" where
  "monitor_locks m s =
     (if \<not> srv_running s then [Pause]
      else Pause # guarded S_server_stats (guarded S_connections []) @
        guarded S_logger
          (let l = lgr (redis s) in if rotation_due m l then log_locks INFO l else []))"

definition persistence_locks :: "server \<Rightarrow> locks" where
  "persistence_locks s =
     Pause # (if \<not> srv_running s then []
              else saveData_locks (redis s) @ log_locks DEBUG (lgr (redis s)))"

text \<open>
  \<^verbatim>\<open>stop\<close> with its messages, its joins (of the accepting thread, the workers, the persistence and the
  monitor thread), the closing of the connections, and the save.  A join is a pause: \<^verbatim>\<open>stop\<close> holds no
  mutex while it joins, and whether a join ends is the matter of TcpServer.
\<close>

definition stop_locks :: "server \<Rightarrow> locks" where
  "stop_locks s =
     (if \<not> srv_running s then []
      else log_locks INFO (lgr (redis s)) @
        (if tcp_server s \<noteq> None then [Pause, Pause] @ guarded S_connections [] else []) @
        [Pause, Pause] @ saveData_locks (redis s) @ log_locks INFO (lgr (redis s)))"

datatype server_call =
    Client_message nat string
  | Client_leaves
  | Client_accepted
  | Persistence_pass
  | Monitor_pass string
  | Statistics
  | Stop_server
  | Replication_call repl_call

fun server_call_locks :: "senv \<Rightarrow> server_call \<Rightarrow> server \<Rightarrow> locks" where
  "server_call_locks env (Client_message conn m) s = message_locks env conn m s"
| "server_call_locks env Client_leaves s = guarded S_connections []"
| "server_call_locks env Client_accepted s = guarded S_connections []"
| "server_call_locks env Persistence_pass s = persistence_locks s"
| "server_call_locks env (Monitor_pass m) s = monitor_locks m s"
| "server_call_locks env Statistics s = guarded S_server_stats []"
| "server_call_locks env Stop_server s = stop_locks s"
| "server_call_locks env (Replication_call c) s =
     (case replication (redis s) of
        Some r \<Rightarrow> map (map_act S_repl) (call_locks c r) | None \<Rightarrow> [])"

definition server_program :: "senv \<Rightarrow> (server_call \<times> server) list \<Rightarrow> locks" where
  "server_program env cs = concat (map (\<lambda>(c, s). server_call_locks env c s) cs)"

subsection \<open>The order of the mutexes\<close>

fun server_rank :: "server_mutex \<Rightarrow> nat" where
  "server_rank S_server_stats = 0"
| "server_rank S_connections = 1"
| "server_rank S_list = 2"
| "server_rank S_commands = 3"
| "server_rank S_aof = 4"
| "server_rank S_logger = 5"
| "server_rank (S_repl m) = 6 + repl_rank m"
| "server_rank (S_send i) = 10"

text \<open>The logger has no open file, no rotation is due, and the replication manager is sound.\<close>

definition calm :: "server_call \<times> server \<Rightarrow> bool" where
  "calm cs \<longleftrightarrow> (case cs of (c, s) \<Rightarrow>
     stream (lgr (redis s)) = None \<and> (\<forall>m. c = Monitor_pass m \<longrightarrow> \<not> rotation_due m (lgr (redis s))) \<and>
     (\<forall>r. replication (redis s) = Some r \<longrightarrow> repl_inv r))"

abbreviation in_order :: "locks \<Rightarrow> bool" where
  "in_order p \<equiv> ordered server_rank [] p"

lemma in_order_guarded [simp]: "in_order (guarded m [])"
  by (rule ordered_single)

lemma in_order_append: "in_order p \<Longrightarrow> in_order q \<Longrightarrow> in_order (p @ q)"
  by (rule ordered_append)

lemma in_order_Nil: "in_order []"
  by simp

lemma in_order_Pause: "in_order p \<Longrightarrow> in_order (Pause # p)"
  by simp

lemma in_order_if: "(b \<Longrightarrow> in_order p) \<Longrightarrow> (\<not> b \<Longrightarrow> in_order q) \<Longrightarrow> in_order (if b then p else q)"
  by simp

lemma in_order_repl: "repl_inv r \<Longrightarrow> in_order (map (map_act S_repl) (call_locks c r))"
  using ordered_map[of S_repl repl_rank server_rank "[]"] call_in_order[of r c] by (simp add: inj_def)

lemma in_order_log: "stream l = None \<Longrightarrow> in_order (log_locks lv l)"
  by (simp add: log_locks_def)

lemma in_order_replicate:
  assumes "\<forall>r. replication h = Some r \<longrightarrow> repl_inv r"
  shows "in_order (replicate_locks h)"
proof (cases "replication h")
  case (Some r)
  with assms in_order_repl[of r "Call_replicate ''''"] show ?thesis by (simp add: replicate_locks_def)
qed (simp add: replicate_locks_def)

lemma in_order_load_lines: "in_order (fst (load_lines_locks ls kv))"
proof (induction ls arbitrary: kv)
  case (Cons l ls)
  obtain p ok where "load_lines_locks ls (get_key_value_from_string l kv) = (p, ok)" by fastforce
  with Cons.IH[of "get_key_value_from_string l kv"] show ?case by (simp add: Let_def Cons.IH in_order_append)
qed simp

lemma in_order_count: "in_order count_lock"
  by (simp add: count_lock_def)

lemma in_order_aof: "in_order (appendAOF_locks h)"
  by (simp add: appendAOF_locks_def)

lemma in_order_load: "stream (lgr h) = None \<Longrightarrow> in_order (fst (loadData_locks h))"
  using in_order_load_lines in_order_log
  by (simp add: loadData_locks_def case_prod_beta in_order_append split: option.split)

lemma in_order_handler:
  assumes "stream (lgr h) = None" "\<forall>r. replication h = Some r \<longrightarrow> repl_inv r"
  shows "in_order (handler_locks c args h)"
proof -
  note parts = in_order_count in_order_aof[of h] in_order_replicate[OF assms(2)] in_order_log[OF assms(1)]
  have load: "in_order (case loadData_locks h of (p, ok) \<Rightarrow> p @ (if ok then count_lock else log_locks LOG_ERROR (lgr h)))"
    using in_order_load[OF assms(1)] parts by (simp add: in_order_append case_prod_beta)
  have set: "in_order (case stringToInt (args ! 0) of None \<Rightarrow> [] | Some key \<Rightarrow> guarded S_list [] @ count_lock @
      (if contents h key = None then appendAOF_locks h @ replicate_locks h else []))"
    using parts by (simp add: in_order_append split: option.split)
  have save: "in_order (saveData_locks h @ count_lock)"
    using parts by (simp add: saveData_locks_def in_order_append)
  show ?thesis
    unfolding handler_locks_def
    by (intro in_order_if in_order_append in_order_Nil in_order_guarded parts load set save)
qed

lemma in_order_call:
  assumes "calm (c, s)"
  shows "in_order (server_call_locks env c s)"
proof -
  have quiet: "stream (lgr (redis s)) = None" "\<forall>r. replication (redis s) = Some r \<longrightarrow> repl_inv r"
    using assms by (simp_all add: calm_def)
  show ?thesis
  proof (cases c)
    case (Client_message conn m)
    have "in_order (command_locks m (redis s))"
      using in_order_handler[OF quiet] in_order_count by (simp add: command_locks_def Let_def in_order_append)
    then show ?thesis using Client_message by (simp add: message_locks_def in_order_append)
  next
    case Persistence_pass
    then show ?thesis
      using in_order_log[OF quiet(1)] by (simp add: persistence_locks_def saveData_locks_def in_order_append)
  next
    case (Monitor_pass m)
    have "in_order (guarded S_server_stats (guarded S_connections []))" by (simp add: guarded_def)
    moreover have "\<not> rotation_due m (lgr (redis s))" using assms Monitor_pass by (simp add: calm_def)
    ultimately show ?thesis using Monitor_pass by (simp add: monitor_locks_def Let_def in_order_append)
  next
    case Stop_server
    have "in_order ([Pause, Pause] @ guarded S_connections [])" "in_order [Pause, Pause]"
      by (simp_all add: guarded_def)
    then show ?thesis using Stop_server in_order_log[OF quiet(1)]
      by (auto simp: stop_locks_def saveData_locks_def intro!: in_order_append in_order_if in_order_Nil
          simp del: ordered.simps append.simps append_Cons)
  next
    case (Replication_call rc)
    then show ?thesis using quiet(2) in_order_repl by (simp split: option.split)
  qed simp_all
qed

definition server_programs :: "senv \<Rightarrow> locks set" where
  "server_programs env = {server_program env cs | cs. \<forall>x\<in>set cs. calm x}"

interpretation sv: lock_order server_rank "server_programs env" for env
proof
  fix p assume "p \<in> server_programs env"
  then obtain cs where cs: "p = server_program env cs" "\<forall>x\<in>set cs. calm x" by (auto simp: server_programs_def)
  have "in_order q" if "q \<in> set (map (\<lambda>(c, s). server_call_locks env c s) cs)" for q
    using that cs(2) in_order_call by fastforce
  then show "in_order p" using cs(1) ordered_concat unfolding server_program_def by blast
qed

subsection \<open>Properties\<close>

text \<open>
  C14. The mutexes of the server are taken in one order, those of the connections a reply or a
  replication message is sent over included.  While the logger has no open file and no rotation is
  due, threads that handle messages, accept and remove connections, save, monitor, ask for the statistics,
  stop the server or make calls of the replication manager (the calls of \<open>server_call\<close>), in any such
  states, never end up waiting for each other's mutexes, and from every state they can all be brought
  to their ends, where sleeps and joins are taken to end.
\<close>
theorem server_never_deadlocks:
  assumes "\<forall>cs\<in>set threads. \<forall>x\<in>set cs. calm x"
    and "lock_step\<^sup>*\<^sup>* (start (map (server_program env) threads)) ts"
  shows "\<not> deadlocked ts \<and> (\<exists>ts'. lock_step\<^sup>*\<^sup>* ts ts' \<and> all_done ts')"
proof -
  have "set (map (server_program env) threads) \<subseteq> server_programs env"
    using assms(1) unfolding server_programs_def by auto
  then have "sv.sound ts" using sv.sound_run[OF assms(2)] sv.sound_start by blast
  then show ?thesis using sv.not_deadlocked sv.can_end by blast
qed

theorem server_never_deadlocks_witness:
  "\<exists>l s ts'. SkipList_init 4 0 = Ok l \<and> s = SkipListServer_init default_config (with_list l) \<and>
    \<not> deadlocked (start [server_call_locks no_log_env (Client_message 3 ''hello'') s,
       server_call_locks no_log_env Statistics s]) \<and>
    lock_step\<^sup>*\<^sup>* (start [server_call_locks no_log_env (Client_message 3 ''hello'') s,
       server_call_locks no_log_env Statistics s]) ts' \<and> all_done ts'"
proof -
  obtain l where l: "SkipList_init 4 0 = Ok l" by (rule empty_list_exists)
  let ?s = "SkipListServer_init default_config (with_list l)"
  have "calm (c, ?s)" if "\<forall>m. c \<noteq> Monitor_pass m" for c
    using that by (simp add: calm_def SkipListServer_init_def with_list_def RedisHandler_init_def static_logger_def)
  then have "\<forall>cs\<in>set [[(Client_message 3 ''hello'', ?s)], [(Statistics, ?s)]]. \<forall>x\<in>set cs. calm x" by simp
  from server_never_deadlocks[OF this, of no_log_env, OF rtranclp.rtrancl_refl] l
  show ?thesis by (auto simp: server_program_def)
qed

text \<open>
  With an open log file one thread is enough.  The persistence thread of a running server locks
  the mutex of the logger for its message and again to ask for a rotation: it waits for itself.
\<close>
theorem open_log_blocks_persistence:
  assumes "srv_running s" and "store (redis s) \<noteq> None" and "stream (lgr (redis s)) \<noteq> None"
    and "\<not> initializing (lgr (redis s))" and "\<not> INFO < log_level_cur (lgr (redis s))"
  shows "\<exists>ts. lock_step\<^sup>*\<^sup>* (start [server_call_locks env Persistence_pass s]) ts \<and> deadlocked ts"
proof -
  define p where "p = [Rel S_logger, Rel S_logger] @ log_locks DEBUG (lgr (redis s))"
  have 0: "server_call_locks env Persistence_pass s = Pause # Acq S_logger # Acq S_logger # p"
    using assms by (simp add: persistence_locks_def saveData_locks_def log_locks_def[of INFO] guarded_def p_def)
  let ?t0 = "[([], Pause # Acq S_logger # Acq S_logger # p)]"
  let ?t1 = "[([], Acq S_logger # Acq S_logger # p)]"
  let ?t2 = "[([S_logger], Acq S_logger # p)]"
  have "lock_step ?t0 ?t1" "lock_step ?t1 ?t2"
    by (rule lock_step.intros[of 0], simp add: thread_step_def free_for_def)+
  then have "lock_step\<^sup>*\<^sup>* ?t0 ?t2" by (meson converse_rtranclp_into_rtranclp rtranclp.rtrancl_refl)
  moreover have "thread_step i ?t2 = None" for i
    by (cases i) (auto simp: thread_step_def free_for_def)
  then have "deadlocked ?t2" by (auto simp: deadlocked_def all_done_def lock_step.simps)
  ultimately show ?thesis unfolding start_def list.map 0 by blast
qed

theorem open_log_blocks_persistence_witness:
  "\<exists>s ts. stream (lgr (redis s)) = Some ''a.log'' \<and>
    lock_step\<^sup>*\<^sup>* (start [server_call_locks no_log_env Persistence_pass s]) ts \<and> deadlocked ts"
proof -
  obtain l where l: "SkipList_init 4 0 = Ok l" by (rule empty_list_exists)
  let ?s = "(SkipListServer_init default_config ((with_list l)
      \<lparr>lgr := (static_logger Map.empty)\<lparr>stream := Some ''a.log''\<rparr>\<rparr>))\<lparr>srv_running := True\<rparr>"
  have "srv_running ?s" "store (redis ?s) \<noteq> None" "stream (lgr (redis ?s)) \<noteq> None"
    "\<not> initializing (lgr (redis ?s))" "\<not> INFO < log_level_cur (lgr (redis ?s))"
    by (simp_all add: SkipListServer_init_def with_list_def RedisHandler_init_def static_logger_def)
  from open_log_blocks_persistence[OF this, of no_log_env] show ?thesis
    by (intro exI[of _ ?s]) (auto simp: SkipListServer_init_def)
qed

end
