(* ===== verification/TwoSaves.thy ===== *)
theory TwoSaves
  imports DumpRace
begin

section \<open>Two saves at once (SkipList::dump\_file)\<close>

text \<open>
  A SAVE of a client and the pass of the persistence thread, or the SAVEs of two clients, run
  \<^verbatim>\<open>dump_file\<close> on one list at once.  Both use the member \<^verbatim>\<open>file_writer_\<close>: a stream that is open
  refuses to be opened again and then takes nothing more, for either of them.  A step of the model
  is one operation on the stream or one read of the list, which does not change meanwhile.
\<close>

subsection \<open>The stream\<close>

record out_stream =
  w_open :: bool
  w_fail :: bool
  w_disk :: store_file

definition stream_open :: "out_stream \<Rightarrow> out_stream" where
  "stream_open w =
     (if \<not> w_open w \<and> writable (w_disk w)
      then w\<lparr>w_open := True, w_fail := False, w_disk := (w_disk w)\<lparr>content := Some ''''\<rparr>\<rparr>
      else w\<lparr>w_fail := True\<rparr>)"

definition stream_put :: "string \<Rightarrow> out_stream \<Rightarrow> out_stream" where
  "stream_put t w =
     (if w_open w \<and> \<not> w_fail w
      then w\<lparr>w_disk := (w_disk w)\<lparr>content := map_option (\<lambda>u. u @ t) (content (w_disk w))\<rparr>\<rparr>
      else w\<lparr>w_fail := True\<rparr>)"

definition stream_close :: "out_stream \<Rightarrow> out_stream" where
  "stream_close w = (if w_open w then w\<lparr>w_open := False\<rparr> else w\<lparr>w_fail := True\<rparr>)"

subsection \<open>A thread inside dump\_file\<close>

datatype save_pc =
    S_open
  | S_first                        \<comment> \<open>reads \<open>head_->forward[0]\<close>\<close>
  | S_node "addr option"           \<comment> \<open>tests node\<close>
  | S_put addr "string list"       \<comment> \<open>the operands of \<open><<\<close> that are still to be written\<close>
  | S_next addr                    \<comment> \<open>reads \<open>node->forward[0]\<close>\<close>
  | S_close
  | S_done

definition dump_tokens :: "int \<times> string \<Rightarrow> string list" where
  "dump_tokens kv = [int_to_string (fst kv), '':'', snd kv, '';'' @ [LF]]"

fun save_move :: "heap \<Rightarrow> addr \<Rightarrow> save_pc \<Rightarrow> (exn, save_pc) outcome" where
  "save_move h first S_open = Ok S_first"
| "save_move h first S_first = obind (get_forward h first 0) (\<lambda>q. Ok (S_node q))"
| "save_move h first (S_node None) = Ok S_close"
| "save_move h first (S_node (Some a)) =
     obind (deref h a) (\<lambda>n. Ok (S_put a (dump_tokens (get_key n, get_value n))))"
| "save_move h first (S_put a ts) = Ok (if length ts \<le> 1 then S_next a else S_put a (tl ts))"
| "save_move h first (S_next a) = obind (get_forward h a 0) (\<lambda>q. Ok (S_node q))"
| "save_move h first S_close = Ok S_done"
| "save_move h first S_done = Ok S_done"

text \<open>What the step does to the stream; the flush before the close leaves the text as it is.\<close>

fun save_effect :: "save_pc \<Rightarrow> out_stream \<Rightarrow> out_stream" where
  "save_effect S_open w = stream_open w"
| "save_effect (S_put a (t # ts)) w = stream_put t w"
| "save_effect S_close w = stream_close w"
| "save_effect p w = w"

inductive two_saves :: "skiplist \<Rightarrow> (save_pc \<times> save_pc) \<times> out_stream \<Rightarrow> (save_pc \<times> save_pc) \<times> out_stream \<Rightarrow> bool"
  for s where
  save_first: "save_move (mem s) (head s) p = Ok p' \<Longrightarrow> two_saves s ((p, q), w) ((p', q), save_effect p w)"
| save_second: "save_move (mem s) (head s) q = Ok q' \<Longrightarrow> two_saves s ((p, q), w) ((p, q'), save_effect q w)"

subsection \<open>Where a thread stands\<close>

definition tokens :: "skiplist \<Rightarrow> addr list \<Rightarrow> string list" where
  "tokens s xs = concat (map (\<lambda>a. dump_tokens (item_at (mem s) a)) xs)"

lemma tokens_simps [simp]:
  "tokens s [] = []" "tokens s (xs @ ys) = tokens s xs @ tokens s ys"
  "tokens s (a # xs) = dump_tokens (item_at (mem s) a) @ tokens s xs"
  by (simp_all add: tokens_def)

lemma dump_tokens_length [simp]: "length (dump_tokens kv) = 4"
  by (simp add: dump_tokens_def)

lemma dump_tokens_not_Nil [simp]: "dump_tokens kv \<noteq> []"
  by (simp add: dump_tokens_def)

text \<open>The operands the thread has behind it.\<close>

fun save_at :: "skiplist \<Rightarrow> addr list \<Rightarrow> save_pc \<Rightarrow> string list \<Rightarrow> bool" where
  "save_at s xs S_open ws \<longleftrightarrow> ws = []"
| "save_at s xs S_first ws \<longleftrightarrow> ws = []"
| "save_at s xs (S_node q) ws \<longleftrightarrow> (\<exists>ys zs. xs = ys @ zs \<and> q = first_of zs \<and> ws = tokens s ys)"
| "save_at s xs (S_put a ts) ws \<longleftrightarrow>
     (\<exists>ys zs. xs = ys @ a # zs \<and> ts \<noteq> [] \<and> ws @ ts = tokens s (ys @ [a]))"
| "save_at s xs (S_next a) ws \<longleftrightarrow> (\<exists>ys zs. xs = ys @ a # zs \<and> ws = tokens s (ys @ [a]))"
| "save_at s xs S_close ws \<longleftrightarrow> ws = tokens s xs"
| "save_at s xs S_done ws \<longleftrightarrow> ws = tokens s xs"

definition behind :: "save_pc \<Rightarrow> string list \<Rightarrow> string list" where
  "behind p ws = (case p of S_put a (t # ts) \<Rightarrow> ws @ [t] | _ \<Rightarrow> ws)"

fun save_rank :: "save_pc \<Rightarrow> nat" where
  "save_rank S_open = 5"
| "save_rank S_first = 4"
| "save_rank (S_next a) = 4"
| "save_rank (S_node q) = 3"
| "save_rank (S_put a ts) = 2"
| "save_rank S_close = 1"
| "save_rank S_done = 0"

definition save_left :: "skiplist \<Rightarrow> addr list \<Rightarrow> save_pc \<Rightarrow> string list \<Rightarrow> nat" where
  "save_left s xs p ws = 6 * (length (tokens s xs) - length ws) + save_rank p"

lemma save_at_prefix: "save_at s xs p ws \<Longrightarrow> \<exists>us. tokens s xs = ws @ us"
proof (cases p)
  case (S_put a ts)
  assume "save_at s xs p ws"
  with S_put obtain ys zs where "xs = ys @ a # zs" "ws @ ts = tokens s (ys @ [a])" by auto
  then have "tokens s xs = ws @ ts @ tokens s zs" by simp
  then show ?thesis by blast
qed auto

lemma succ_on_level0:
  assumes "nodes_inv s (ys @ a # zs)"
  shows "fwd (mem s) 0 a = Some (first_of zs)"
proof -
  have "path (mem s) 0 (Some (head s)) ((head s # ys) @ a # zs) None"
    using nodes_inv_path0[OF assms] by simp
  then obtain r where "path (mem s) 0 r (a # zs) None" unfolding path_append by blast
  then show ?thesis using path_first[of "mem s" 0 _ zs] by auto
qed

lemma first_on_level0: "nodes_inv s xs \<Longrightarrow> fwd (mem s) 0 (head s) = Some (first_of xs)"
  using nodes_inv_path0[of s xs] path_first[of "mem s" 0 _ xs] by auto

lemma save_move_at:
  assumes inv: "nodes_inv s xs" and at: "save_at s xs p ws"
  shows "\<exists>p'. save_move (mem s) (head s) p = Ok p' \<and> save_at s xs p' (behind p ws) \<and> p' \<noteq> S_open \<and>
    (p' = S_done \<longleftrightarrow> p = S_close \<or> p = S_done) \<and>
    (p \<noteq> S_done \<longrightarrow> save_left s xs p' (behind p ws) < save_left s xs p ws)"
proof (cases p)
  case S_first
  have "\<exists>ys zs. xs = ys @ zs \<and> first_of xs = first_of zs \<and> [] = tokens s ys"
    by (rule exI[of _ "[]"], rule exI[of _ xs]) simp
  with S_first at first_on_level0[OF inv] show ?thesis by (simp add: behind_def save_left_def)
next
  case (S_node q)
  with at obtain ys zs where xs: "xs = ys @ zs" "q = first_of zs" "ws = tokens s ys" by auto
  show ?thesis
  proof (cases zs)
    case Nil
    with xs S_node show ?thesis by (simp add: first_of_def behind_def save_left_def)
  next
    case (Cons a as)
    with inv xs(1) have "fwd (mem s) 0 a = Some (first_of as)" by (intro succ_on_level0[of s ys]) simp
    from deref_item[OF this] obtain n where n: "deref (mem s) a = Ok n"
      "(get_key n, get_value n) = item_at (mem s) a" by blast
    with S_node xs Cons have "save_move (mem s) (head s) p = Ok (S_put a (dump_tokens (item_at (mem s) a)))"
      by (simp add: first_of_def)
    with S_node xs Cons show ?thesis
      by (fastforce simp: behind_def save_left_def)
  qed
next
  case (S_put a ts)
  with at obtain ys zs where xs: "xs = ys @ a # zs" "ts \<noteq> []" "ws @ ts = tokens s (ys @ [a])" by auto
  from xs(2) obtain t us where ts: "ts = t # us" by (cases ts) auto
  have len: "length ws + Suc (length us) \<le> length (tokens s xs)"
  proof -
    have "length ws + Suc (length us) = length (tokens s (ys @ [a]))"
      using arg_cong[OF xs(3), of length] ts by simp
    also have "\<dots> \<le> length (tokens s xs)" using xs(1) by simp
    finally show ?thesis .
  qed
  have b: "behind p ws = ws @ [t]" using S_put ts by (simp add: behind_def)
  show ?thesis
  proof (cases "us = []")
    case True
    then have "save_at s xs (S_next a) (ws @ [t])" using xs ts by auto
    moreover have "save_move (mem s) (head s) p = Ok (S_next a)" using S_put ts True by simp
    ultimately show ?thesis using S_put b len True by (simp add: save_left_def)
  next
    case False
    then have "save_at s xs (S_put a us) (ws @ [t])" using xs ts by auto
    moreover have "save_move (mem s) (head s) p = Ok (S_put a us)" using S_put ts False by (cases us) auto
    ultimately show ?thesis using S_put b len False by (simp add: save_left_def)
  qed
next
  case (S_next a)
  with at obtain ys zs where xs: "xs = ys @ a # zs" "ws = tokens s (ys @ [a])" by auto
  have "fwd (mem s) 0 a = Some (first_of zs)" using inv xs(1) by (intro succ_on_level0[of s ys]) simp
  moreover have "\<exists>us vs. xs = us @ vs \<and> first_of zs = first_of vs \<and> ws = tokens s us"
    by (rule exI[of _ "ys @ [a]"], rule exI[of _ zs]) (use xs in simp)
  ultimately show ?thesis using S_next by (simp add: behind_def save_left_def)
qed (use at in \<open>auto simp: behind_def save_left_def\<close>)


subsection \<open>What the file can hold in the end\<close>

text \<open>
  A thread runs well when the stream is open and has everything that is behind the thread, or when it
  has closed it; the file is cut when the stream refuses everything.
\<close>

definition runs_well :: "save_pc \<Rightarrow> string list \<Rightarrow> out_stream \<Rightarrow> bool" where
  "runs_well p ws w \<longleftrightarrow> p \<noteq> S_open \<and> content (w_disk w) = Some (concat ws) \<and>
     w_open w = (p \<noteq> S_done) \<and> (p \<noteq> S_done \<longrightarrow> \<not> w_fail w)"

definition is_cut :: "skiplist \<Rightarrow> addr list \<Rightarrow> out_stream \<Rightarrow> bool" where
  "is_cut s xs w \<longleftrightarrow> w_fail w \<and> (\<exists>ws us. tokens s xs = ws @ us \<and> content (w_disk w) = Some (concat ws))"

definition one_runs :: "save_pc \<Rightarrow> string list \<Rightarrow> save_pc \<Rightarrow> out_stream \<Rightarrow> bool" where
  "one_runs p ws q w \<longleftrightarrow> (q = S_open \<or> q = S_done) \<and> runs_well p ws w"

definition saves_ok :: "skiplist \<Rightarrow> addr list \<Rightarrow> (save_pc \<times> save_pc) \<times> out_stream \<Rightarrow> bool" where
  "saves_ok s xs c \<longleftrightarrow> (case c of ((p, q), w) \<Rightarrow> writable (w_disk w) \<and>
     (\<exists>ws vs. save_at s xs p ws \<and> save_at s xs q vs \<and>
        (p = S_open \<and> q = S_open \<and> \<not> w_open w \<or> one_runs p ws q w \<or> one_runs q vs p w \<or>
         p \<noteq> S_open \<and> q \<noteq> S_open \<and> is_cut s xs w)))"

lemma saves_ok_sym: "saves_ok s xs ((p, q), w) \<longleftrightarrow> saves_ok s xs ((q, p), w)"
  by (auto simp: saves_ok_def)

lemma save_effect_writable [simp]: "writable (w_disk (save_effect p w)) = writable (w_disk w)"
  by (cases "(p, w)" rule: save_effect.cases) (auto simp: stream_open_def stream_put_def stream_close_def)

lemma runs_well_effect:
  assumes "runs_well p ws w" "save_at s xs p ws" "p' \<noteq> S_open" "p' = S_done \<longleftrightarrow> p = S_close \<or> p = S_done"
  shows "runs_well p' (behind p ws) (save_effect p w)"
  using assms
  by (cases "(p, w)" rule: save_effect.cases)
    (auto simp: runs_well_def behind_def stream_open_def stream_put_def stream_close_def)

lemma cut_effect: "is_cut s xs w \<Longrightarrow> p \<noteq> S_open \<Longrightarrow> is_cut s xs (save_effect p w)"
  by (cases "(p, w)" rule: save_effect.cases)
    (auto simp: is_cut_def stream_put_def stream_close_def)

lemma open_effect:
  assumes "writable (w_disk w)" "\<not> w_open w"
  shows "runs_well S_first [] (save_effect S_open w)"
  using assms by (simp add: runs_well_def stream_open_def)

lemma open_again_cuts:
  assumes "runs_well p ws w" "p \<noteq> S_done" "save_at s xs p ws"
  shows "is_cut s xs (save_effect S_open w)"
  using assms save_at_prefix[OF assms(3)] by (auto simp: is_cut_def runs_well_def stream_open_def)

lemma saves_ok_move:
  assumes inv: "nodes_inv s xs" and ok: "saves_ok s xs ((p, q), w)"
    and move: "save_move (mem s) (head s) p = Ok p'"
  shows "saves_ok s xs ((p', q), save_effect p w)"
proof -
  from ok obtain ws vs where at: "save_at s xs p ws" "save_at s xs q vs" and wr: "writable (w_disk w)"
    and cases: "p = S_open \<and> q = S_open \<and> \<not> w_open w \<or> one_runs p ws q w \<or> one_runs q vs p w \<or>
      p \<noteq> S_open \<and> q \<noteq> S_open \<and> is_cut s xs w"
    by (auto simp: saves_ok_def)
  from save_move_at[OF inv at(1)] move have p': "save_at s xs p' (behind p ws)" "p' \<noteq> S_open"
    "p' = S_done \<longleftrightarrow> p = S_close \<or> p = S_done" by auto
  have go: ?thesis if "one_runs p' (behind p ws) q (save_effect p w) \<or> one_runs q vs p' (save_effect p w) \<or>
      p' \<noteq> S_open \<and> q \<noteq> S_open \<and> is_cut s xs (save_effect p w)"
    using that p'(1) at(2) wr unfolding saves_ok_def by auto
  from cases show ?thesis
  proof (elim disjE)
    assume "p = S_open \<and> q = S_open \<and> \<not> w_open w"
    with open_effect[OF wr] move at(1) have "one_runs p' (behind p ws) q (save_effect p w)"
      by (auto simp: one_runs_def behind_def)
    with go show ?thesis by simp
  next
    assume "one_runs p ws q w"
    then have "one_runs p' (behind p ws) q (save_effect p w)"
      using runs_well_effect[OF _ at(1) p'(2,3)] by (simp add: one_runs_def)
    with go show ?thesis by simp
  next
    assume one: "one_runs q vs p w"
    show ?thesis
    proof (cases "p = S_done")
      case True
      with one move have "one_runs q vs p' (save_effect p w)" by (simp add: one_runs_def)
      with go show ?thesis by simp
    next
      case False
      with one have p: "p = S_open" and q: "runs_well q vs w" by (auto simp: one_runs_def)
      show ?thesis
      proof (cases "q = S_done")
        case True
        with q open_effect[OF wr] p move at(1) have "one_runs p' (behind p ws) q (save_effect p w)"
          by (auto simp: one_runs_def behind_def runs_well_def)
        with go show ?thesis by simp
      next
        case False
        with open_again_cuts[OF q _ at(2)] p q p'(2) show ?thesis by (intro go) (simp add: runs_well_def)
      qed
    qed
  next
    assume "p \<noteq> S_open \<and> q \<noteq> S_open \<and> is_cut s xs w"
    with cut_effect[of s xs w p] p'(2) show ?thesis by (intro go) simp
  qed
qed

lemma saves_ok_run:
  assumes "(two_saves s)\<^sup>*\<^sup>* c d" "nodes_inv s xs" "saves_ok s xs c"
  shows "saves_ok s xs d"
  using assms(1)
proof (induction rule: rtranclp_induct)
  case (step d e)
  from step.hyps(2) step.IH show ?case
    by cases (use saves_ok_move[OF assms(2)] saves_ok_sym[of s xs] in blast)+
qed (rule assms(3))

subsection \<open>Every beginning can be left\<close>

lemma first_moves: "save_move (mem s) (head s) p = Ok p' \<Longrightarrow>
    (two_saves s)\<^sup>*\<^sup>* ((p', q), save_effect p w) c \<Longrightarrow> (two_saves s)\<^sup>*\<^sup>* ((p, q), w) c"
  by (meson converse_rtranclp_into_rtranclp save_first)

lemma second_moves: "save_move (mem s) (head s) q = Ok q' \<Longrightarrow>
    (two_saves s)\<^sup>*\<^sup>* ((p, q'), save_effect q w) c \<Longrightarrow> (two_saves s)\<^sup>*\<^sup>* ((p, q), w) c"
  by (meson converse_rtranclp_into_rtranclp save_second)

lemma one_writes:
  assumes "nodes_inv s xs" "n \<le> length (tokens s xs)"
  shows "save_at s xs p ws \<Longrightarrow> runs_well p ws w \<Longrightarrow> p \<noteq> S_done \<Longrightarrow> length ws \<le> n \<Longrightarrow>
    \<exists>p' ws' w'. (two_saves s)\<^sup>*\<^sup>* ((p, q), w) ((p', q), w') \<and> save_at s xs p' ws' \<and>
      runs_well p' ws' w' \<and> p' \<noteq> S_done \<and> length ws' = n"
proof (induction "save_left s xs p ws" arbitrary: p ws w rule: less_induct)
  case less
  show ?case
  proof (cases "length ws = n")
    case True
    with less.prems show ?thesis by blast
  next
    case False
    from save_move_at[OF assms(1) less.prems(1)] obtain p' where p': "save_move (mem s) (head s) p = Ok p'"
      "save_at s xs p' (behind p ws)" "p' \<noteq> S_open" "p' = S_done \<longleftrightarrow> p = S_close \<or> p = S_done"
      "save_left s xs p' (behind p ws) < save_left s xs p ws" using less.prems(3) by blast
    have "p \<noteq> S_close" using less.prems(1,4) assms(2) False by auto
    then have "p' \<noteq> S_done" using p'(4) less.prems(3) by simp
    moreover have "length (behind p ws) \<le> n"
      using less.prems(4) False by (auto simp: behind_def split: save_pc.split list.split)
    ultimately have "\<exists>p1 ws1 w1. (two_saves s)\<^sup>*\<^sup>* ((p', q), save_effect p w) ((p1, q), w1) \<and>
        save_at s xs p1 ws1 \<and> runs_well p1 ws1 w1 \<and> p1 \<noteq> S_done \<and> length ws1 = n"
      by (rule less.hyps[OF p'(5,2) runs_well_effect[OF less.prems(2,1) p'(3,4)]])
    then show ?thesis using first_moves[OF p'(1)] by blast
  qed
qed

lemma failing_effect:
  "w_fail w \<Longrightarrow> p \<noteq> S_open \<Longrightarrow> w_fail (save_effect p w) \<and> w_disk (save_effect p w) = w_disk w"
  by (cases "(p, w)" rule: save_effect.cases) (simp_all add: stream_put_def stream_close_def)

lemma both_end:
  assumes inv: "nodes_inv s xs"
  shows "save_at s xs p ws \<Longrightarrow> save_at s xs q vs \<Longrightarrow> p \<noteq> S_open \<Longrightarrow> q \<noteq> S_open \<Longrightarrow> w_fail w \<Longrightarrow>
    \<exists>w'. (two_saves s)\<^sup>*\<^sup>* ((p, q), w) ((S_done, S_done), w') \<and> w_disk w' = w_disk w"
proof (induction "save_left s xs p ws + save_left s xs q vs" arbitrary: p q ws vs w rule: less_induct)
  case less
  note IH = less.hyps
  show ?case
  proof (cases "p = S_done")
    case False
    from save_move_at[OF inv less.prems(1)] False obtain p' where p': "save_move (mem s) (head s) p = Ok p'"
      "save_at s xs p' (behind p ws)" "p' \<noteq> S_open"
      "save_left s xs p' (behind p ws) < save_left s xs p ws" by blast
    have "\<exists>w'. (two_saves s)\<^sup>*\<^sup>* ((p', q), save_effect p w) ((S_done, S_done), w') \<and>
        w_disk w' = w_disk (save_effect p w)"
      using p'(4) failing_effect[OF less.prems(5,3)] by (intro IH[OF _ p'(2) less.prems(2) p'(3) less.prems(4)]) simp_all
    then show ?thesis using first_moves[OF p'(1)] failing_effect[OF less.prems(5,3)] by metis
  next
    case p: True
    show ?thesis
    proof (cases "q = S_done")
      case True
      with p show ?thesis by blast
    next
      case False
      from save_move_at[OF inv less.prems(2)] False obtain q' where q': "save_move (mem s) (head s) q = Ok q'"
        "save_at s xs q' (behind q vs)" "q' \<noteq> S_open"
        "save_left s xs q' (behind q vs) < save_left s xs q vs" by blast
      have "\<exists>w'. (two_saves s)\<^sup>*\<^sup>* ((p, q'), save_effect q w) ((S_done, S_done), w') \<and>
          w_disk w' = w_disk (save_effect q w)"
        using q'(4) failing_effect[OF less.prems(5,4)] by (intro IH[OF _ less.prems(1) q'(2) less.prems(3) q'(3)]) simp_all
      then show ?thesis using second_moves[OF q'(1)] failing_effect[OF less.prems(5,4)] by metis
    qed
  qed
qed

lemma ends_with_beginning:
  assumes inv: "nodes_inv s xs" and "\<not> w_open w" "writable (w_disk w)"
    and run: "(two_saves s)\<^sup>*\<^sup>* ((S_open, S_open), w) ((S_done, S_done), w')" "content (w_disk w') = Some t"
  shows "\<exists>n. t = concat (take n (tokens s xs))"
proof -
  have "saves_ok s xs ((S_open, S_open), w)" using assms(2,3) by (simp add: saves_ok_def)
  from saves_ok_run[OF run(1) inv this] have "\<exists>ws us. tokens s xs = ws @ us \<and> t = concat ws"
    using run(2) by (auto simp: saves_ok_def one_runs_def runs_well_def is_cut_def)
  then obtain ws us where "tokens s xs = ws @ us" "t = concat ws" by blast
  then have "t = concat (take (length ws) (tokens s xs))" by simp
  then show ?thesis by blast
qed

lemma any_beginning_left:
  assumes inv: "nodes_inv s xs" and "\<not> w_open w" "writable (w_disk w)" and n: "n \<le> length (tokens s xs)"
  shows "\<exists>w'. (two_saves s)\<^sup>*\<^sup>* ((S_open, S_open), w) ((S_done, S_done), w') \<and>
    content (w_disk w') = Some (concat (take n (tokens s xs)))"
proof -
  let ?w = "save_effect S_open w"
  have "runs_well S_first [] ?w" by (rule open_effect[OF assms(3,2)])
  from one_writes[OF inv n _ this, of S_open] obtain p ws w1 where
    run: "(two_saves s)\<^sup>*\<^sup>* ((S_first, S_open), ?w) ((p, S_open), w1)"
    and p: "save_at s xs p ws" "runs_well p ws w1" "p \<noteq> S_done" "length ws = n" by auto
  from save_at_prefix[OF p(1)] p(4) have t: "concat (take n (tokens s xs)) = concat ws" by auto
  let ?w2 = "save_effect S_open w1"
  have w2: "w_fail ?w2" "w_disk ?w2 = w_disk w1" using p(2,3) by (simp_all add: runs_well_def stream_open_def)
  have "p \<noteq> S_open" "content (w_disk w1) = Some (concat ws)" using p(2) by (simp_all add: runs_well_def)
  with both_end[OF inv p(1) _ _ _ w2(1), of S_first "[]"] w2(2) obtain w' where
    w': "(two_saves s)\<^sup>*\<^sup>* ((p, S_first), ?w2) ((S_done, S_done), w')" "content (w_disk w') = Some (concat ws)" by auto
  have "(two_saves s)\<^sup>*\<^sup>* ((p, S_open), w1) ((S_done, S_done), w')"
    by (rule second_moves[OF _ w'(1)]) simp
  with run have "(two_saves s)\<^sup>*\<^sup>* ((S_first, S_open), ?w) ((S_done, S_done), w')" by (rule rtranclp_trans)
  then have "(two_saves s)\<^sup>*\<^sup>* ((S_open, S_open), w) ((S_done, S_done), w')"
    by - (rule first_moves[of s S_open S_first], simp_all)
  with w'(2) t show ?thesis by auto
qed

subsection \<open>Properties\<close>

lemma tokens_items: "nodes_inv s xs \<Longrightarrow> tokens s xs = concat (map dump_tokens (items s))"
  by (simp add: tokens_def items_inv comp_def)

lemma concat_dump_tokens: "concat (concat (map dump_tokens kvs)) = concat (map (\<lambda>kv. dump_line kv @ [LF]) kvs)"
  by (induction kvs) (simp_all add: dump_tokens_def dump_line_def)

text \<open>
  C17. Two saves at once can leave any beginning of the file.  When two threads dump one list of pairs and
  both dumps have returned, which both report as success, the file holds the first n operands of
  what one dump alone writes, and for every n there is an interleaving that leaves just these:
  whoever opens the stream while it is open ends the writing of both.
\<close>
theorem two_saves_cut_file:
  assumes "wf_skiplist s" and "\<not> w_open w" and "writable (w_disk w)"
  shows "((\<exists>w'. (two_saves s)\<^sup>*\<^sup>* ((S_open, S_open), w) ((S_done, S_done), w') \<and>
      content (w_disk w') = Some t) \<longleftrightarrow>
      (\<exists>n. t = concat (take n (concat (map dump_tokens (items s)))))) \<and>
    dump_file s (w_disk w) =
      Ok ((w_disk w)\<lparr>content := Some (concat (concat (map dump_tokens (items s))))\<rparr>)"
proof
  obtain xs where inv: "nodes_inv s xs" using assms(1) by (auto simp: wf_skiplist_def)
  have t: "\<exists>k\<le>length (tokens s xs). t = concat (take k (tokens s xs))"
    if "t = concat (take n (tokens s xs))" for n
    using that by (intro exI[of _ "min n (length (tokens s xs))"]) (simp add: min_def)
  show "(\<exists>w'. (two_saves s)\<^sup>*\<^sup>* ((S_open, S_open), w) ((S_done, S_done), w') \<and>
      content (w_disk w') = Some t) \<longleftrightarrow> (\<exists>n. t = concat (take n (concat (map dump_tokens (items s)))))"
    unfolding tokens_items[OF inv, symmetric]
  proof
    assume "\<exists>n. t = concat (take n (tokens s xs))"
    with t obtain k where "k \<le> length (tokens s xs)" "t = concat (take k (tokens s xs))" by blast
    with any_beginning_left[OF inv assms(2,3)] show
      "\<exists>w'. (two_saves s)\<^sup>*\<^sup>* ((S_open, S_open), w) ((S_done, S_done), w') \<and> content (w_disk w') = Some t"
      by blast
  qed (use ends_with_beginning[OF inv assms(2,3)] in blast)
qed (use wf_level_items[OF assms(1)] assms(3) in \<open>simp add: dump_file_def concat_dump_tokens\<close>)

theorem two_saves_cut_file_witness:
  "\<exists>s w'. items s = [(7, ''x'')] \<and>
    (two_saves s)\<^sup>*\<^sup>* ((S_open, S_open), \<lparr>w_open = False, w_fail = False,
        w_disk = \<lparr>content = Some ''7:x;'', writable = True\<rparr>\<rparr>) ((S_done, S_done), w') \<and>
    content (w_disk w') = Some '''' \<and> dump_file s \<lparr>content = None, writable = True\<rparr> =
      Ok \<lparr>content = Some (''7:x;'' @ [LF]), writable = True\<rparr>"
proof -
  obtain s where s: "store_ok (\<lambda>_. 0) s" "items s = [(7, ''x'')]" using one_key_store by blast
  then have wf: "wf_skiplist s" by (simp add: store_ok_def)
  let ?w = "\<lambda>c. \<lparr>w_open = False, w_fail = False, w_disk = \<lparr>content = c, writable = True\<rparr>\<rparr>"
  have "\<exists>n. '''' = concat (take n (concat (map dump_tokens (items s))))" by (rule exI[of _ 0]) simp
  then have "\<exists>w'. (two_saves s)\<^sup>*\<^sup>* ((S_open, S_open), ?w (Some ''7:x;'')) ((S_done, S_done), w') \<and>
      content (w_disk w') = Some ''''"
    using two_saves_cut_file[OF wf, of "?w (Some ''7:x;'')" "''''"]
    by (simp only: out_stream.simps store_file.simps simp_thms)
  moreover have "dump_file s \<lparr>content = None, writable = True\<rparr> =
      Ok \<lparr>content = Some (''7:x;'' @ [LF]), writable = True\<rparr>"
    using two_saves_cut_file[OF wf, of "?w None"] s(2)
    by (simp add: dump_tokens_def int_to_string_def nat_to_string.simps digit_char_def)
  ultimately show ?thesis using s(2) by blast
qed

end
