(* ===== verification/Shutdown.thy ===== *)
theory Shutdown
  imports ServerLife TcpServerProps
begin

section \<open>How a client can take the server down (network/tcp\_server.cpp, test/main.cpp)\<close>

text \<open>
  An end of the process that no command asks for: a reply to a connection the client has closed.
\<close>

subsection \<open>A reply to a closed connection\<close>

text \<open>
  \<^verbatim>\<open>ClientConnection::send\<close> calls \<^verbatim>\<open>::send\<close> without \<^verbatim>\<open>MSG_NOSIGNAL\<close>.  A call on a connection that is shut
  down for writing raises SIGPIPE, and only when the process handles that signal does the call return
  its error EPIPE; that is \<open>Broken_pipe\<close>.  Any other error, the ECONNRESET of a call that finds the
  connection just reset among them, is a \<open>Took\<close> of a count that is not positive.  The first argument
  is the list of the signals with a handler.
\<close>

definition SIGPIPE :: int where "SIGPIPE = 13"

datatype send_call = Took int | Broken_pipe

datatype send_end = Send_returns bool string | Send_blocks | Process_killed int

fun send_calls :: "int list \<Rightarrow> send_call list \<Rightarrow> string \<Rightarrow> nat \<Rightarrow> string \<Rightarrow> send_end" where
  "send_calls sigs [] data total_sent wire =
     (if total_sent < length data then Send_blocks else Send_returns True wire)"
| "send_calls sigs (Took n # rest) data total_sent wire =
     (if total_sent < length data then
        if n \<le> 0 then Send_returns False wire
        else send_calls sigs rest data (total_sent + nat n)
          (wire @ os_send (drop total_sent data) (send_length (length data - total_sent)) n)
      else Send_returns True wire)"
| "send_calls sigs (Broken_pipe # rest) data total_sent wire =
     (if total_sent < length data then
        if SIGPIPE \<in> set sigs then Send_returns False wire else Process_killed SIGPIPE
      else Send_returns True wire)"

text \<open>Without a broken pipe this is the loop of TcpServer.\<close>

lemma send_calls_is_send_loop:
  "send_calls sigs (map Took ns) data total_sent wire =
     (case send_loop ns data total_sent wire of None \<Rightarrow> Send_blocks | Some (b, t) \<Rightarrow> Send_returns b t)"
  by (induction ns arbitrary: total_sent wire) (simp_all add: send_loop.simps)

lemma broken_pipe_kills:
  "\<forall>n\<in>set ns. 0 < n \<Longrightarrow> total_sent + nat (sum_list ns) < length data \<Longrightarrow> SIGPIPE \<notin> set sigs \<Longrightarrow>
    send_calls sigs (map Took ns @ Broken_pipe # rest) data total_sent wire = Process_killed SIGPIPE"
proof (induction ns arbitrary: total_sent wire)
  case (Cons n ns)
  have "0 \<le> sum_list ns" using Cons.prems(1) by (induction ns) auto
  with Cons.prems have "total_sent < length data" "total_sent + nat n + nat (sum_list ns) < length data" by auto
  with Cons show ?case by simp
qed simp

text \<open>
  A client that closes its connection can kill the server.  When a call of \<^verbatim>\<open>::send\<close> raises SIGPIPE
  before the last byte of a reply was taken, the process dies in it: the signals the program handles do
  not include SIGPIPE.  What main printed in the rounds before stays printed, and the disk is as
  those rounds left it: nothing is saved.
\<close>

lemma broken_pipe_kills_server:
  assumes "\<forall>n\<in>set ns. 0 < n" "sum_list ns < int (length reply)"
    and "server_live env s" "\<forall>i t. server_live env t \<longrightarrow> server_live env (bg i t)"
  shows "send_calls main_signals (map Took ns @ Broken_pipe # rest) reply 0 [] = Process_killed SIGPIPE \<and>
    (\<exists>out1. main_rest env bg late SIGPIPE n out s = Ok (Killed SIGPIPE, out @ out1, at_signal bg 0 n s))"
proof -
  let ?w = "[''Server started successfully!'', ''Use Ctrl+C to stop the server'', '''']"
  have sig: "SIGPIPE \<notin> set main_signals" by (simp add: SIGPIPE_def main_signals_def setupSignalHandlers_def)
  have "0 \<le> sum_list ns" using assms(1) by (induction ns) auto
  then have "send_calls main_signals (map Took ns @ Broken_pipe # rest) reply 0 [] = Process_killed SIGPIPE"
    using broken_pipe_kills[of ns 0 reply] assms(1,2) sig by simp
  moreover obtain out1 where
    "main_loop env bg late SIGPIPE n 0 0 (out @ ?w) s = Ok (Some SIGPIPE, (out @ ?w) @ out1, at_signal bg 0 n s)"
    using main_loop_killed[of env bg SIGPIPE s late n 0 0 "out @ ?w"] assms(3,4) sig by blast
  ultimately show ?thesis by (auto simp: main_rest_def Let_def)
qed

end
