(* ===== verification/Spec2Isabelle.thy ===== *)
theory Spec2Isabelle
  imports RedisService ReplicationProps SkipListProps Utils SkipListRace ServerLife TcpConnection
    ConfigTypes ReplicationLocks TestPrograms ExceptionUsage UtilsSystem UtilsNumbers
    CrashRecovery RequestDepth ServerLocks DumpRace TwoSaves Shutdown
begin

text \<open>
  A verification development for Dcs_Storage_Sys, a key-value server in C++ that keeps its data in
  a skip list, speaks the Redis protocol and replicates from a master to slaves.

  \<^bold>\<open>The program.\<close>  \<^verbatim>\<open>test/main.cpp\<close> reads the options and runs a \<^verbatim>\<open>SkipListServer\<close>
  (\<^verbatim>\<open>server/skiplist_server.cpp\<close>).  The server reads its configuration (\<^verbatim>\<open>config/config.cpp\<close>), starts
  the logger (\<^verbatim>\<open>logger/\<close>), binds a \<^verbatim>\<open>TCPServer\<close> (\<^verbatim>\<open>network/tcp_server.cpp\<close>) and hands it a message
  handler.  The handler (\<^verbatim>\<open>server/redis_handler.cpp\<close>) parses a request
  (\<^verbatim>\<open>network/redis_protocol.cpp\<close>), looks the command up in a table, works on the skip list
  (\<^verbatim>\<open>skiplist/\<close>, \<^verbatim>\<open>node/\<close>), appends to the append-only file and to the replication log
  (\<^verbatim>\<open>replication/replication_manager.cpp\<close>).  \<^verbatim>\<open>include/exceptions.h\<close> has the exceptions,
  \<^verbatim>\<open>utils/\<close> helper functions nobody calls.

  \<^bold>\<open>Theories and what they model.\<close>

  \<^item> \<open>Prelude\<close>: the outcome of a C++ call (a value, an exception, a fault such as a dead pointer, an
    endless loop or a second lock of a mutex), its composition, and lemmas on sorted lists.
  \<^item> \<open>Exceptions\<close>: \<^verbatim>\<open>include/exceptions.h\<close>, the class hierarchy with codes and texts.
  \<^item> \<open>SkipList\<close>: \<^verbatim>\<open>node/node.h\<close>, \<^verbatim>\<open>node/node.cpp\<close>, \<^verbatim>\<open>skiplist/skiplist.cpp\<close> over an explicit heap of
    nodes with arrays of forward pointers; \<open>SkipListInv\<close>, \<open>SkipListCorrect\<close>, \<open>SkipListOps\<close>,
    \<open>SkipListDel\<close>: the invariant of the heap, and what searching, inserting and deleting do to
    the paths through it; \<open>SkipListSpec\<close>: the contract of a key-value store as the locale
    \<open>kv_store\<close>, interpreted by the skip list as \<open>sl\<close>; \<open>SkipListProps\<close>: the properties.
  \<^item> \<open>SkipListRace\<close>: \<^verbatim>\<open>search_element\<close>, which takes no mutex, as a machine with one read of memory
    per step, between whose steps other threads insert and delete; the number of its reads.
  \<^item> \<open>CppString\<close>: the part of the string library in use (find, substr, stoi, getline and so on).
  \<^item> \<open>Persistence\<close>: the dump file, \<^verbatim>\<open>display_list\<close>, \<^verbatim>\<open>dump_file\<close>, \<^verbatim>\<open>load_file\<close> of the skip list.
  \<^item> \<open>RedisProtocol\<close>: the codec; the locale \<open>framed\<close> states which element encodings its array parser
    can step over, and is interpreted by bulk strings, integers and flat values.
  \<^item> \<open>Configuration\<close>, \<open>Logger\<close>: the two singletons, with a bit for their non-recursive mutex; the
    log levels are a linear order.  \<open>ConfigTypes\<close>: the ranges of the configuration's members.
  \<^item> \<open>Replication\<close>, \<open>ReplicationProps\<close>: all of \<^verbatim>\<open>ReplicationManager\<close>; the calls the
    program makes of it and the passes of its threads' loops form a step relation, with an invariant of
    the reachable states.  The public calls nothing makes (\<^verbatim>\<open>setRole\<close>, \<^verbatim>\<open>setMasterAddress\<close>,
    \<^verbatim>\<open>setReplicationOffset\<close>, \<^verbatim>\<open>applyReplicationCommand\<close>) are definitions outside the relation.
  \<^item> \<open>Locking\<close>, \<open>ReplicationLocks\<close>: threads that take and free mutexes one step at a time; the locale
    \<open>lock_order\<close> shows that programs which respect an order of the mutexes never deadlock, and is
    interpreted (\<open>rl\<close>) by the sequences of mutexes the calls of \<^verbatim>\<open>ReplicationManager\<close> take, those of
    the connections they send over included.
  \<^item> \<open>RedisHandler\<close>, \<open>RedisHandlerProps\<close>: the fifteen commands, the append-only file, the command
    table, \<^verbatim>\<open>init\<close>; every command on a sound handler returns a valid reply.
  \<^item> \<open>TcpServer\<close>, \<open>TcpServerProps\<close>: the send and receive loops over the results of the system calls,
    the loop of a connection, and the threads of the server as a step relation.  \<open>TcpConnection\<close>: the
    life of a connection object, closed by one thread or by two at once.
  \<^item> \<open>SkipListServer\<close>, \<open>SkipListServerProps\<close>: start, stop, the message callback, the background
    loops, \<^verbatim>\<open>main\<close> with its options and the performance test.  \<open>ServerLife\<close>: the rest of \<^verbatim>\<open>main\<close>, with
    its waiting loop, statistics, signals and the deletion of the server.
  \<^item> \<open>RedisService\<close>: the locale \<open>store_service\<close>, what the connection loop relies on, interpreted by
    the server's callback as \<open>svc\<close>.
  \<^item> \<open>Traces\<close>: runs with calls and replies, and the locale \<open>forward_simulation\<close>.  \<open>HandlerThreads\<close>,
    \<open>HandlerThreadsProps\<close>: commands of many clients at once; a step is what one mutex makes atomic,
    one read of a search, one node of a SAVE or one line of a LOAD.  The simulation \<open>clients\<close> of an atomic map makes them linearizable.
  \<^item> \<open>DumpRace\<close>: \<^verbatim>\<open>dump_file\<close>, which takes no mutex either, node by node beside writers;
    \<open>TwoSaves\<close>: two of them at once on the one output stream of the list, operand by operand;
    \<open>CrashRecovery\<close>: what a process killed at any moment, also while it dumps, leaves to the next.
  \<^item> \<open>RequestDepth\<close>: how deep the parser recurses on what a client can send.
  \<^item> \<open>ServerLocks\<close>: the mutexes of the whole server, \<^verbatim>\<open>stop\<close> included, a second interpretation (\<open>sv\<close>)
    of \<open>lock_order\<close>.
  \<^item> \<open>Shutdown\<close>: a reply to a closed connection, and the signal it raises.
  \<^item> \<open>Utils\<close>, \<open>UtilsSystem\<close>, \<open>UtilsNumbers\<close>: \<^verbatim>\<open>utils/utils.cpp\<close>, the functions on texts, those on the
    system, and those on \<^verbatim>\<open>double\<close>.  They rest on \<open>Regex\<close>, regular expressions matched by
    derivatives; \<open>Timestamps\<close>, the calendar and the time stamps, also those of the logger; and
    \<open>CppDouble\<close>, the numbers of \<^verbatim>\<open>double\<close> with correctly rounded operations, computed on naturals.
  \<^item> \<open>ExceptionUsage\<close>: \<^verbatim>\<open>examples/exception_usage.cpp\<close>, all seven classes and \<^verbatim>\<open>main\<close>;
    \<open>TestPrograms\<close>: \<^verbatim>\<open>test_master_loop.cpp\<close>, \<^verbatim>\<open>test_replication_complete.cpp\<close>,
    \<^verbatim>\<open>test_slave_functions.cpp\<close>, \<^verbatim>\<open>debug_server.cpp\<close>, whose background threads make any passes.
  \<^item> \<open>Spec2Isabelle\<close>: this header, and the property that spans the components.

  \<^bold>\<open>Correspondence.\<close>  Definitions keep the names of the functions, records those of the classes; a
  name that clashes gets a prefix or suffix (\<open>RedisHandler_init\<close> is a constructor,
  \<open>masterLoop_pass\<close> one pass of a thread's loop, \<open>utils_stringToInt\<close> the function of class Utils).
  An operation takes the state last and returns an outcome with the new state; where effects
  stay visible after a throw, the exception carries the state.  Integers of fixed width that can
  wrap are words or are cut explicitly (\<open>atoi\<close>, sizes modulo \<open>2 ^ 64\<close>); offsets and counters that
  the code only compares or increments by one are integers.  The clock, the random numbers, the
  environment, the contents of files and the results of system calls are arguments.

  \<^bold>\<open>Fuel and termination.\<close>  The pointer walk of the skip list has fuel, one more than the number of nodes ever
  allocated (\<open>walk_fuel\<close>): in a well-formed heap a path has no cycle, so the fuel never runs out, which
  the lemmas of \<open>SkipListCorrect\<close> show; running out is the fault Diverges.  The coin of
  \<^verbatim>\<open>get_random_level\<close> is a partial function that returns exactly when an even number comes.  The
  other loops are structural or carry a measure; \<^verbatim>\<open>Utils::replace\<close> is partial, and its divergence
  on the empty text is proved.

  \<^bold>\<open>What the lemmas show.\<close>  The skip list implements a map that never overwrites, and is a linked
  list in disguise (every level holds every node).  The codec round trips on commands and flat
  arrays, and truncates silently elsewhere.  The handler answers every request; a client session
  over the socket behaves as the map with the replies written out, GET returning a constructed
  text.  Dump and load keep the keys and lengthen the values; the append-only file restores
  nothing.  The logger and the configuration lock a mutex twice, so a start with a log file or
  with a usable configuration file hangs.  Replication keeps a sound log and never ships it.  The
  pool of worker threads is idle and can block \<^verbatim>\<open>stop\<close>, which otherwise waits for the next client.
  Commands of many clients at once are linearizable except for lookups that miss and loads, which
  insert pair by pair; they never fault as long as nobody deletes.  A killed server comes back with what
  its last save saw, every pair that was there when the save began and some that came meanwhile, unless
  it was killed while it saved, or two saves met.  A value with a line end is cut there.  With the logger closed the mutexes of the server are taken in one
  order.  The nesting of a request is bounded by 1026.  A connection that breaks in a reply can end the
  process.

  \<^bold>\<open>Threads.\<close>  What threads do to each other is modelled where it decides a property.  Commands of
  clients interleave at their mutexes, a search among them at every read, a SAVE and the persistence
  thread at every node and a LOAD at every line; the dump file and the lines ahead of a LOAD may change
  at any time, which covers what saves and loads at once do to the two shared streams.  A search and a
  dump interleave with complete insertions and deletions.  The
  mutexes of the replication manager and of the server are taken one at a time.  The workers of
  the TCP server, its accept thread and \<^verbatim>\<open>stop\<close> are a step relation in which a blocked \<^verbatim>\<open>accept\<close> is not
  woken by closing its socket, as on Linux, and a wait on the condition variable may end without a
  notification; whether the joins of \<^verbatim>\<open>stop\<close> end is an argument
  (\<open>joins_end\<close>) of the theories above it.  \<^verbatim>\<open>SkipListServer::stop\<close> saves after its joins, and the
  messages that clients' threads handle until then are its argument late.  Two closings of one connection and the passes of the background
  loops at any time complete this.  Elsewhere an operation is one step.

  \<^bold>\<open>Not modelled.\<close>  Reads of a word torn by a concurrent write, and the weak memory of the hardware;
  \<^verbatim>\<open>display_list\<close> beside writers; the damage that two calls of LOAD at once can do to the memory of the
  input stream they share; messages under way while \<^verbatim>\<open>stop\<close> saves, or after it; the moments at which a stream empties its buffer before \<^verbatim>\<open>flush\<close>.  Input and output beyond the bytes
  that pass, among it what \<^verbatim>\<open>insert_element\<close> and \<^verbatim>\<open>load_file\<close> print; a signal taken by a thread other than
  that of \<^verbatim>\<open>main\<close>; the payload of a NaN; the branches for Windows; and the build directory with the
  probes that CMake generates (\<^verbatim>\<open>build/CMakeFiles\<close>).
\<close>

subsection \<open>Properties\<close>

text \<open>
  C1. A session refines the map.  A client sends requests on keys, each complete in what one
  \<^verbatim>\<open>recv\<close> delivers; the bytes behind it, pipelined requests included, are dropped.  Then the replies
  written to the socket, through the connection loop, the parser, the command table and the skip
  list, are those of the abstract session on the map, and the store ends up as that map.
\<close>
theorem session_refines_map:
  assumes "handler_ok (sv_henv env) (redis s)"
    and "\<forall>(r, extra)\<in>set cs. req_ok r \<and> NUL \<notin> set extra"
  shows "fst (serve (serve_message env) (map (\<lambda>(r, extra). createArray (req_words r) @ extra) cs) s) =
      fst (session_spec (map fst cs) (contents (redis s))) \<and>
    contents (redis (snd (serve (serve_message env)
        (map (\<lambda>(r, extra). createArray (req_words r) @ extra) cs) s))) =
      snd (session_spec (map fst cs) (contents (redis s)))"
  using svc.serve_session[of env s cs] assms by (simp add: server_ready_def)

theorem session_refines_map_witness:
  "\<exists>l. SkipList_init 4 0 = Ok l \<and>
    fst (serve (serve_message no_log_env)
        [createArray [''SET'', ''7'', ''x''] @ createArray [''DEL'', ''7''], createArray [''EXISTS'', ''7''] @ '''']
        (SkipListServer_init default_config (with_list l))) =
      [createSimpleString ''OK'', createInteger 1]"
proof -
  obtain l where l: "SkipList_init 4 0 = Ok l" "store_ok (\<lambda>_. 0) l" "contents_of l = Map.empty"
    by (rule empty_list_exists)
  let ?s = "SkipListServer_init default_config (with_list l)"
  let ?cs = "[(Req_set ''7'' ''x'', createArray [''DEL'', ''7'']), (Req_exists ''7'', '''')]"
  have s: "handler_ok (sv_henv no_log_env) (redis ?s)" "contents (redis ?s) = Map.empty"
    using handler_ok_with_list[OF l(2)] l(3)
    by (simp_all add: no_log_env_def SkipListServer_init_def contents_def with_list_def)
  have "NUL \<notin> set (createArray [''DEL'', ''7''])" by (rule createArray_no_NUL) (simp add: NUL_def)
  moreover have "req_ok (Req_set ''7'' ''x'')" "req_ok (Req_exists ''7'')"
    using stoi_7 by (simp_all add: req_ok_def short_def int_limits NUL_def)
  ultimately have "\<forall>(r, extra)\<in>set ?cs. req_ok r \<and> NUL \<notin> set extra" by simp
  from session_refines_map[OF s(1) this] have "fst (serve (serve_message no_log_env)
        [createArray [''SET'', ''7'', ''x''] @ createArray [''DEL'', ''7''], createArray [''EXISTS'', ''7''] @ ''''] ?s) =
      fst (session_spec [Req_set ''7'' ''x'', Req_exists ''7''] Map.empty)"
    by (simp add: s(2))
  also have "\<dots> = [createSimpleString ''OK'', createInteger 1]" by (simp add: key_of_def stoi_7)
  finally show ?thesis using l(1) by blast
qed

end
